(* ===== verification/Prelude.thy ===== *)
theory Prelude
  imports Complex_Main "HOL-Library.Word"
begin

text \<open>
  Shared vocabulary of the development: the machine-integer types the C and Go sources use,
  the collections of rewrite rules that carry word expressions to natural numbers, and the
  generic facts on floors, powers of two and words that the component theories rest on.
\<close>

unbundle bit_operations_syntax

type_synonym u8 = "8 word"
type_synonym u16 = "16 word"
type_synonym u32 = "32 word"
type_synonym u64 = "64 word"

named_theorems nat_of_word \<open>rules that move a word expression to the natural numbers\<close>
named_theorems sf_defs \<open>unfolding rules for the field macros of the floating-point formats\<close>

subsection \<open>Powers of two in the reals\<close>

abbreviation pow2 :: "int \<Rightarrow> real" where
  "pow2 k \<equiv> 2 powi k"

lemma pow2_pos [simp]: "0 < pow2 k"
  by simp

lemma pow2_nonneg [simp]: "0 \<le> pow2 k"
  by simp

lemma pow2_add: "pow2 (a + b) = pow2 a * pow2 b"
  by (simp add: power_int_add)

lemma pow2_diff: "pow2 (a - b) = pow2 a / pow2 b"
  by (simp add: power_int_diff)

lemma pow2_nat: "pow2 (int n) = 2 ^ n"
  by simp

lemma pow2_shift: "pow2 a = 2 ^ k * pow2 (a - int k)"
  by (simp add: pow2_diff)

lemma pow2_plus: "a = b + int k \<Longrightarrow> pow2 a = pow2 b * 2 ^ k"
  by (simp add: pow2_add)

lemma pow2_shift_subnormal: "2 * pow2 (- q) = 2 ^ k * pow2 (1 - int k - q)"
  using pow2_shift [of "1 - q" k] pow2_shift [of "1 - q" 1] by (simp add: algebra_simps)

lemma pow2_less_iff [simp]: "pow2 a < pow2 b \<longleftrightarrow> a < b"
  by (metis less_irrefl linorder_neqE_linordered_idom less_asym one_less_numeral_iff
      power_int_strict_increasing semiring_norm(76))

lemma pow2_le_iff [simp]: "pow2 a \<le> pow2 b \<longleftrightarrow> a \<le> b"
  by (simp add: not_less [symmetric])

subsection \<open>Words as natural numbers\<close>

declare of_nat_unat [simp del]

lemma unat_bound: "unat w < 2 ^ LENGTH('a)" for w :: "'a::len word"
  by (rule unsigned_less)

lemma unat_drop_bit [nat_of_word]: "unat (drop_bit n w) = unat w div 2 ^ n"
  by (simp only: unat_drop_bit_eq) (simp only: drop_bit_eq_div)

lemma unat_and_mask: "unat (w AND mask n) = unat w mod 2 ^ n" for w :: "'a::len word"
  by (simp only: take_bit_eq_mask [symmetric] unsigned_take_bit_eq) (simp only: take_bit_eq_mod)

lemma unat_push_bit:
  fixes w :: "'a::len word"
  assumes "unat w * 2 ^ n < 2 ^ LENGTH('a)"
  shows "unat (push_bit n w) = unat w * 2 ^ n"
  using assms
  by (simp only: unsigned_push_bit_eq) (simp only: push_bit_eq_mult take_bit_nat_eq_self)

lemma unat_plus:
  fixes v w :: "'a::len word"
  assumes "unat v + unat w < 2 ^ LENGTH('a)"
  shows "unat (v + w) = unat v + unat w"
  using assms by (simp add: unat_word_ariths)

lemma unat_times:
  fixes v w :: "'a::len word"
  assumes "unat v * unat w < 2 ^ LENGTH('a)"
  shows "unat (v * w) = unat v * unat w"
  using assms by (simp add: unat_word_ariths)

lemma unat_minus:
  fixes v w :: "'a::len word"
  assumes "unat w \<le> unat v"
  shows "unat (v - w) = unat v - unat w"
  using assms by (simp add: unat_sub word_le_nat_alt)

lemma unat_of_bool [nat_of_word]: "unat (of_bool b :: 'a::len word) = of_bool b"
  by (cases b) simp_all

lemma unat_word_of_nat: "n < 2 ^ LENGTH('a) \<Longrightarrow> unat (word_of_nat n :: 'a::len word) = n"
  by (simp only: unat_of_nat mod_less)

lemma unat_word_of_int:
  "0 \<le> k \<Longrightarrow> k < 2 ^ LENGTH('a) \<Longrightarrow> unat (word_of_int k :: 'a::len word) = nat k"
  by (simp only: unat_eq_nat_uint uint_word_of_int mod_pos_pos_trivial)

lemma div_mod_pow2: "n div 2 ^ a mod 2 ^ b = n mod 2 ^ (a + b) div 2 ^ a" for n :: nat
  by (simp add: power_add mod_mult2_eq)

lemma mod_mod_pow2: "a \<le> b \<Longrightarrow> n mod 2 ^ b mod 2 ^ a = n mod 2 ^ a" for n :: nat
  by (simp add: mod_mod_cancel le_imp_power_dvd)

lemma unat_ucast_up:
  "LENGTH('a) \<le> LENGTH('b) \<Longrightarrow> unat (ucast (a :: 'a::len word) :: 'b::len word) = unat a"
proof -
  assume "LENGTH('a) \<le> LENGTH('b)"
  then have "(2 :: nat) ^ LENGTH('a) \<le> 2 ^ LENGTH('b)" by (rule power_increasing) simp
  then have "unat a < 2 ^ LENGTH('b)" using unat_bound [of a] by (rule less_le_trans [rotated])
  then show ?thesis by (simp only: unsigned_ucast_eq) (simp only: take_bit_nat_eq_self)
qed

lemma unat_ucast_mod: "unat (ucast (a :: 'a::len word) :: 'b::len word) = unat a mod 2 ^ LENGTH('b)"
  by (simp only: unsigned_ucast_eq) (simp only: take_bit_eq_mod)

lemma unat_or_1: "unat (w OR 1) = (unat w OR 1)" for w :: "'a::len word"
  by (simp only: unsigned_or_eq) simp

lemma unat_and_not_1: "unat (w AND NOT 1) = unat w - unat w mod 2" for w :: "'a::len word"
proof -
  have m1: "w AND 1 = w AND mask 1" by simp
  have "(w AND NOT 1) + (w AND 1) = w"
    by (subst disjunctive_add) (auto simp: bit_simps bit_eq_iff)
  then have "w AND NOT 1 = w - (w AND 1)" by (simp add: eq_diff_eq)
  moreover have "unat (w AND 1) = unat w mod 2" unfolding m1 unat_and_mask by simp
  ultimately show ?thesis by (simp add: unat_minus)
qed

lemma mod_uint_small:
  fixes e :: int
  assumes "e mod 2 ^ 32 < m" "- (2 ^ 31) \<le> e" "e < 2 ^ 31" "m \<le> 2 ^ 31"
  shows "0 \<le> e \<and> e < m"
proof (cases "0 \<le> e")
  case True
  then show ?thesis using assms by simp
next
  case False
  then have "e mod 2 ^ 32 = e + 2 ^ 32"
    using assms mod_pos_pos_trivial [of "e + 2 ^ 32" "2 ^ 32"] by simp
  then show ?thesis using assms by simp
qed

lemma unat_or_exp:
  fixes w :: "'a::len word"
  assumes "unat w < 2 ^ k" "k < LENGTH('a)"
  shows "unat (w OR 2 ^ k) = unat w + 2 ^ k"
proof -
  have "unat w div 2 ^ k = 0" using assms(1) by simp
  then have "drop_bit k w = 0" by (simp only: unat_eq_0 [symmetric] unat_drop_bit)
  then have "\<not> bit w k" by (simp add: bit_iff_odd_drop_bit)
  then have "w AND 2 ^ k = 0" by (simp add: and_exp_eq_0_iff_not_bit)
  then have "w OR 2 ^ k = w + 2 ^ k" by (simp add: disjunctive_add_eq_or)
  moreover have "unat (2 ^ k :: 'a word) = 2 ^ k" using assms(2) unat_word_of_nat [of "2 ^ k", where 'a = 'a] by simp
  moreover have "2 ^ k + 2 ^ k \<le> (2 :: nat) ^ LENGTH('a)"
    using power_increasing [of "Suc k" "LENGTH('a)" "2 :: nat"] assms(2) by simp
  ultimately show ?thesis using assms(1) unat_plus [of w "2 ^ k"] by simp
qed

text \<open>Reading a field of \<open>k\<close> bits above bit \<open>n\<close> in place.\<close>

lemma unat_and_field:
  fixes w :: "'a::len word"
  assumes "n + k \<le> LENGTH('a)"
  shows "unat (w AND push_bit n (mask k)) = unat w div 2 ^ n mod 2 ^ k * 2 ^ n"
proof -
  have "w AND push_bit n (mask k) = push_bit n (drop_bit n w AND mask k)"
    by (rule bit_eqI) (auto simp: bit_simps)
  moreover have "unat (drop_bit n w AND mask k) = unat w div 2 ^ n mod 2 ^ k"
    by (simp only: unat_and_mask unat_drop_bit)
  moreover have "unat w div 2 ^ n mod 2 ^ k * 2 ^ n < 2 ^ LENGTH('a)"
  proof -
    have "unat w div 2 ^ n mod 2 ^ k * 2 ^ n < 2 ^ k * 2 ^ n" by simp
    also have "\<dots> = 2 ^ (n + k)" by (simp add: power_add)
    also have "\<dots> \<le> 2 ^ LENGTH('a)" using assms by (rule power_increasing) simp
    finally show ?thesis .
  qed
  ultimately show ?thesis by (simp only: unat_push_bit)
qed

lemma not_and_eq_0: "NOT v AND w = 0 \<longleftrightarrow> v AND w = w" for v w :: "'a::len word"
  by (auto simp: bit_eq_iff bit_simps)

lemma bit_iff_unat: "bit w n \<longleftrightarrow> odd (unat w div 2 ^ n)" for w :: "'a::len word"
proof -
  have "bit w n \<longleftrightarrow> bit (unat w) n" by (simp add: bit_unsigned_iff)
  then show ?thesis by (simp add: bit_iff_odd)
qed

lemma unat_or_bit_cases:
  fixes w :: "'a::len word"
  assumes "n < LENGTH('a)"
  shows "unat (w OR 2 ^ n) = unat w + of_bool (even (unat w div 2 ^ n)) * 2 ^ n"
proof (cases "bit w n")
  case True
  then have "w OR 2 ^ n = w" by (intro bit_eqI) (auto simp: bit_or_iff bit_exp_iff)
  then show ?thesis using True by (simp add: bit_iff_unat)
next
  case False
  then have even: "even (unat w div 2 ^ n)" by (simp add: bit_iff_unat)
  have "w OR 2 ^ n = w + 2 ^ n" using False by (simp add: and_exp_eq_0_iff_not_bit disjunctive_add_eq_or)
  moreover have "unat (2 ^ n :: 'a word) = 2 ^ n" using assms unat_word_of_nat [of "2 ^ n", where 'a = 'a] by simp
  moreover have "unat w + 2 ^ n < 2 ^ LENGTH('a)"
  proof -
    obtain j where j: "LENGTH('a) = n + Suc j" using assms less_iff_Suc_add by fastforce
    have "unat w < 2 * 2 ^ j * 2 ^ n" using unat_bound [of w] by (simp add: j power_add mult_ac)
    then have "unat w div 2 ^ n < 2 * 2 ^ j" by (simp add: less_mult_imp_div_less)
    moreover obtain q where "unat w div 2 ^ n = 2 * q" using even by (rule evenE)
    ultimately have "unat w div 2 ^ n + 2 \<le> 2 * 2 ^ j" by simp
    then have "(unat w div 2 ^ n + 2) * 2 ^ n \<le> 2 * 2 ^ j * 2 ^ n" by (rule mult_right_mono) simp
    moreover have "unat w < (unat w div 2 ^ n + 1) * 2 ^ n"
      by (metis add.commute dividend_less_div_times mult_Suc plus_1_eq_Suc zero_less_numeral zero_less_power)
    ultimately show ?thesis by (simp add: j power_add algebra_simps)
  qed
  ultimately show ?thesis using even unat_plus [of w "2 ^ n"] by simp
qed

lemma unat_and_not_mask: "unat (w AND NOT (mask n)) = unat w - unat w mod 2 ^ n" for w :: "'a::len word"
proof -
  have "(w AND NOT (mask n)) + (w AND mask n) = w"
    by (subst disjunctive_add) (auto simp: bit_simps bit_eq_iff)
  then have "w AND NOT (mask n) = w - (w AND mask n)" by (simp add: eq_diff_eq)
  then show ?thesis by (simp add: unat_minus unat_and_mask)
qed

lemma word_xor_eq_0: "v XOR w = 0 \<longleftrightarrow> v = w" for v w :: "'a::len word"
  by (metis xor.assoc xor.left_neutral xor.right_neutral xor_self_eq)

lemma sint_word_of_int64: "- (2 ^ 63) \<le> k \<Longrightarrow> k < 2 ^ 63 \<Longrightarrow> sint (word_of_int k :: u64) = k"
  by (simp add: sint_sbintrunc' signed_take_bit_int_eq_self)

lemma sint_minus64:
  fixes v w :: u64
  assumes "unat v < 2 ^ 63" "unat w < 2 ^ 63"
  shows "sint (v - w) = int (unat v) - int (unat w)"
proof -
  have "v - w = word_of_int (int (unat v) - int (unat w))"
    by (metis uint_nat of_int_diff word_of_int_uint)
  moreover have "sint (word_of_int (int (unat v) - int (unat w)) :: u64) = int (unat v) - int (unat w)"
    using assms by (intro sint_word_of_int64) simp_all
  ultimately show ?thesis by (simp only:)
qed

lemma ucast_word_of_nat: "ucast (word_of_nat n :: u64) = (word_of_nat n :: u32)"
  by (simp add: word_unat_eq_iff unat_ucast_mod unat_of_nat mod_mod_cancel)

lemma case_if_pair:
  "(case (if c then (a, b) else (a', b')) of (x, y) \<Rightarrow> f x y) = f (if c then a else a') (if c then b else b')"
  by simp

end
