(* ===== verification/Rounding.thy ===== *)
theory Rounding
  imports Prelude
begin

text \<open>
  The abstract side of rounding: the rounding directions of IEEE 754 (and the extra
  direction ``odd'' that SoftFloat offers), the choice they make between two neighbouring
  candidates, rounding of a real number to an integer, and the fact that makes every routine
  of the library work with finitely many bits: rounding to odd first does not change what a
  later, coarser rounding returns.
\<close>

datatype rmode = RNE | RTZ | RDN | RUP | RMM | ROD

text \<open>
  Between the candidates \<open>k\<close> and \<open>k + 1\<close>, at the relative distance \<open>t\<close> (\<open>0 \<le> t < 1\<close>) above
  \<open>k\<close>, is the upper one taken? \<open>s\<close> is the sign of the number whose magnitude is rounded.
\<close>

fun rnd_up :: "rmode \<Rightarrow> bool \<Rightarrow> bool \<Rightarrow> real \<Rightarrow> bool" where
  "rnd_up RNE s oddk t \<longleftrightarrow> 1 < 2 * t \<or> 2 * t = 1 \<and> oddk"
| "rnd_up RTZ s oddk t \<longleftrightarrow> False"
| "rnd_up RDN s oddk t \<longleftrightarrow> s \<and> 0 < t"
| "rnd_up RUP s oddk t \<longleftrightarrow> \<not> s \<and> 0 < t"
| "rnd_up RMM s oddk t \<longleftrightarrow> 1 \<le> 2 * t"
| "rnd_up ROD s oddk t \<longleftrightarrow> 0 < t \<and> \<not> oddk"

lemma rnd_up_0 [simp]: "\<not> rnd_up rm s oddk 0"
  by (cases rm) simp_all

text \<open>Rounding the magnitude \<open>y\<close> to an integer.\<close>

definition rint :: "rmode \<Rightarrow> bool \<Rightarrow> real \<Rightarrow> int" where
  "rint rm s y = \<lfloor>y\<rfloor> + of_bool (rnd_up rm s (odd \<lfloor>y\<rfloor>) (frac y))"

lemma rint_of_int [simp]: "rint rm s (of_int n) = n"
  by (simp add: rint_def)

lemma rint_of_nat [simp]: "rint rm s (of_nat n) = int n"
  using rint_of_int [of rm s "int n"] by simp

lemma rint_bounds: "\<lfloor>y\<rfloor> \<le> rint rm s y" "rint rm s y \<le> \<lfloor>y\<rfloor> + 1"
  by (simp_all add: rint_def)

lemma rint_le_ceiling: "rint rm s y \<le> \<lceil>y\<rceil>"
proof (cases "y \<in> \<int>")
  case True
  then show ?thesis by (auto elim: Ints_cases)
next
  case False
  then have "\<lceil>y\<rceil> = \<lfloor>y\<rfloor> + 1"
    by (simp add: ceiling_altdef Ints_def) (metis of_int_floor_cancel rangeI)
  then show ?thesis using rint_bounds(2) [of rm s y] by simp
qed

lemma rint_nonneg: "0 \<le> y \<Longrightarrow> 0 \<le> rint rm s y"
  using rint_bounds(1) [of y rm s] by (simp add: order_trans [of 0 "\<lfloor>y\<rfloor>"])

lemma rint_le_of_int: "y \<le> of_int n \<Longrightarrow> rint rm s y \<le> n"
  using rint_le_ceiling [of rm s y] by (simp add: ceiling_le_iff order_trans)

lemma rint_ge_of_int: "of_int n \<le> y \<Longrightarrow> n \<le> rint rm s y"
  using rint_bounds(1) [of y rm s] by (metis le_floor_iff order_trans)

text \<open>Splitting a real number into its integer part and a remainder below one.\<close>

lemma real_split_cases:
  obtains n :: int and t :: real where "y = of_int n + t" "0 \<le> t" "t < 1"
proof
  show "y = of_int \<lfloor>y\<rfloor> + frac y" by (simp add: frac_def)
qed (simp_all add: frac_ge_0 frac_lt_1)

lemma floor_split: "0 \<le> t \<Longrightarrow> t < 1 \<Longrightarrow> \<lfloor>of_int n + t\<rfloor> = n" for t :: real
  by linarith

lemma Ints_split: "0 \<le> t \<Longrightarrow> t < 1 \<Longrightarrow> of_int n + t \<in> \<int> \<longleftrightarrow> t = 0" for t :: real
  by (metis Ints_of_int add.right_neutral floor_split frac_def frac_eq_0_iff add_diff_cancel_left')

lemma rint_split:
  assumes "0 \<le> t" "t < 1"
  shows "rint rm s (of_int n + t) = n + of_bool (rnd_up rm s (odd n) t)"
proof -
  have "\<lfloor>t\<rfloor> = 0" using assms by linarith
  then show ?thesis by (simp add: rint_def frac_def)
qed

text \<open>What a rounding sees of its argument: its position among the half-integers.\<close>

lemma floor_double_split:
  fixes t :: real
  assumes "0 \<le> t" "t < 1"
  shows "\<lfloor>2 * (of_int n + t)\<rfloor> = 2 * n + of_bool (1 / 2 \<le> t)"
proof (cases "1 / 2 \<le> t")
  case True
  then have "\<lfloor>2 * (of_int n + t)\<rfloor> = 2 * n + 1" using assms by (simp only: floor_eq_iff) simp
  with True show ?thesis by simp
next
  case False
  then have "\<lfloor>2 * (of_int n + t)\<rfloor> = 2 * n" using assms by (simp only: floor_eq_iff) simp
  with False show ?thesis by simp
qed

lemma Ints_double_split:
  fixes t :: real
  assumes "0 \<le> t" "t < 1"
  shows "2 * (of_int n + t) \<in> \<int> \<longleftrightarrow> t = 0 \<or> t = 1 / 2"
proof (cases "1 / 2 \<le> t")
  case True
  have "2 * (of_int n + t) = of_int (2 * n + 1) + (2 * t - 1)" by simp
  with True assms Ints_split [of "2 * t - 1" "2 * n + 1"] show ?thesis by auto
next
  case False
  have "2 * (of_int n + t) = of_int (2 * n) + 2 * t" by simp
  with False assms Ints_split [of "2 * t" "2 * n"] show ?thesis by auto
qed

lemma rint_cong:
  assumes fl: "\<lfloor>2 * y\<rfloor> = \<lfloor>2 * z\<rfloor>" and int: "2 * y \<in> \<int> \<longleftrightarrow> 2 * z \<in> \<int>"
  shows "rint rm s y = rint rm s z"
proof -
  obtain n t where y: "y = of_int n + t" "0 \<le> t" "t < 1" by (rule real_split_cases)
  obtain m u where z: "z = of_int m + u" "0 \<le> u" "u < 1" by (rule real_split_cases)
  have "2 * n + of_bool (1 / 2 \<le> t) = 2 * m + of_bool (1 / 2 \<le> u)"
    using fl y z floor_double_split by metis
  then have nm: "n = m" and half: "1 / 2 \<le> t \<longleftrightarrow> 1 / 2 \<le> u"
    by (auto simp: of_bool_def split: if_splits; presburger)+
  have "t = 0 \<or> t = 1 / 2 \<longleftrightarrow> u = 0 \<or> u = 1 / 2"
    using int y z Ints_double_split by metis
  then have "rnd_up rm s b t \<longleftrightarrow> rnd_up rm s b u" for b
    using half y z by (cases rm) (simp_all, linarith+)
  then show ?thesis using y z nm by (simp add: rint_split)
qed

subsection \<open>Rounding to odd\<close>

text \<open>
  \<open>rodd\<close> returns an integer argument unchanged and the odd neighbour of any other. It is what
  the ``jamming'' right shifts of the library compute.
\<close>

definition rodd :: "real \<Rightarrow> int" where
  "rodd y = rint ROD False y"

lemma rodd_alt: "rodd y = \<lfloor>y\<rfloor> + of_bool (y \<notin> \<int> \<and> even \<lfloor>y\<rfloor>)"
  by (simp add: rodd_def rint_def frac_gt_0_iff)

lemma rodd_of_int [simp]: "rodd (of_int n) = n"
  by (simp add: rodd_def)

lemma rodd_of_nat [simp]: "rodd (of_nat n) = int n"
  by (simp add: rodd_def)

lemma rodd_Ints: "y \<in> \<int> \<Longrightarrow> of_int (rodd y) = y"
  by (auto elim: Ints_cases)

lemma odd_rodd: "y \<notin> \<int> \<Longrightarrow> odd (rodd y)"
  by (simp add: rodd_alt)

lemma rodd_add_even:
  assumes "even N"
  shows "rodd (of_int N + y) = N + rodd y"
  using assms by (simp add: rodd_alt)

lemma rodd_minus: "rodd (- y) = - rodd y"
proof (cases "y \<in> \<int>")
  case True
  then obtain n where "y = of_int n" by (auto elim: Ints_cases)
  then show ?thesis using rodd_of_int [of "- n"] by simp
next
  case False
  then have "\<lfloor>- y\<rfloor> = - \<lfloor>y\<rfloor> - 1"
    by (simp add: floor_minus ceiling_altdef) (metis Ints_of_int)
  with False show ?thesis by (simp add: rodd_alt)
qed

lemma rodd_diff_even: "even N \<Longrightarrow> rodd (of_int N - y) = N - rodd y"
  using rodd_add_even [of N "- y"] by (simp add: rodd_minus)

text \<open>Dividing by a power of two sees no difference between \<open>y\<close> and \<open>rodd y\<close>.\<close>

lemma floor_div_pow2: "\<lfloor>y / 2 ^ j\<rfloor> = \<lfloor>y\<rfloor> div 2 ^ j" for y :: real
  using floor_divide_real_eq_div [of "2 ^ j" y] by simp

lemma Ints_div_pow2:
  "of_int n / 2 ^ j \<in> (\<int> :: real set) \<longleftrightarrow> 2 ^ j dvd n"
proof
  assume "of_int n / 2 ^ j \<in> (\<int> :: real set)"
  then obtain m where "of_int n / 2 ^ j = (of_int m :: real)" by (auto elim: Ints_cases)
  then have "(of_int n :: real) = of_int (m * 2 ^ j)" by (simp add: field_simps)
  then show "2 ^ j dvd n" by (simp only: of_int_eq_iff dvd_triv_right)
next
  assume "2 ^ j dvd n"
  then show "of_int n / 2 ^ j \<in> (\<int> :: real set)" by (auto elim!: dvdE)
qed

lemma Ints_div_pow2D: "y / 2 ^ j \<in> \<int> \<Longrightarrow> y \<in> \<int>" for y :: real
  by (metis Ints_mult Ints_numeral Ints_power div_by_0 nonzero_eq_divide_eq
      power_not_zero zero_neq_numeral)

lemma div_pow2_odd_neighbour:
  fixes n :: int
  assumes "0 < j"
  shows "(n + of_bool (even n)) div 2 ^ j = n div 2 ^ j"
proof -
  obtain i where j: "j = Suc i" using assms by (cases j) auto
  have "x div 2 ^ j = x div 2 div 2 ^ i" for x :: int
    by (simp add: j zdiv_zmult2_eq)
  moreover have "(n + of_bool (even n)) div 2 = n div 2"
    by (cases "even n") simp_all
  ultimately show ?thesis by simp
qed

lemma floor_rodd_div:
  assumes "0 < j"
  shows "\<lfloor>of_int (rodd y) / (2 :: real) ^ j\<rfloor> = \<lfloor>y / 2 ^ j\<rfloor>"
proof (cases "y \<in> \<int>")
  case False
  then have "rodd y = \<lfloor>y\<rfloor> + of_bool (even \<lfloor>y\<rfloor>)" by (simp add: rodd_alt)
  with div_pow2_odd_neighbour [OF assms, of "\<lfloor>y\<rfloor>"] show ?thesis
    by (simp only: floor_div_pow2 floor_of_int)
qed (simp add: rodd_Ints)

lemma Ints_rodd_div:
  assumes "0 < j"
  shows "of_int (rodd y) / 2 ^ j \<in> (\<int> :: real set) \<longleftrightarrow> y / 2 ^ j \<in> \<int>"
proof (cases "y \<in> \<int>")
  case False
  then have "odd (rodd y)" by (rule odd_rodd)
  then have "\<not> 2 ^ j dvd rodd y"
    using assms by (meson dvd_power dvd_trans)
  moreover have "y / 2 ^ j \<notin> \<int>" using False Ints_div_pow2D by blast
  ultimately show ?thesis by (simp add: Ints_div_pow2)
qed (simp add: rodd_Ints)

lemma rodd_rodd_div: "0 < j \<Longrightarrow> rodd (of_int (rodd y) / 2 ^ j) = rodd (y / 2 ^ j)"
  by (simp add: rodd_alt [of "_ / 2 ^ j"] floor_rodd_div Ints_rodd_div)

theorem rint_rodd_div:
  assumes "2 \<le> j"
  shows "rint rm s (of_int (rodd y) / 2 ^ j) = rint rm s (y / 2 ^ j)"
proof (rule rint_cong)
  obtain i where j: "j = Suc i" "0 < i" using assms by (cases j) auto
  have half: "2 * (x / 2 ^ j) = x / 2 ^ i" for x :: real by (simp add: j)
  show "\<lfloor>2 * (of_int (rodd y) / (2 :: real) ^ j)\<rfloor> = \<lfloor>2 * (y / 2 ^ j)\<rfloor>"
    and "2 * (of_int (rodd y) / 2 ^ j) \<in> (\<int> :: real set) \<longleftrightarrow> 2 * (y / 2 ^ j) \<in> \<int>"
    using j(2) by (simp_all only: half floor_rodd_div Ints_rodd_div)
qed

lemma rodd_nat_div:
  "rodd (of_nat n / 2 ^ k) = int (n div 2 ^ k OR of_bool (n mod 2 ^ k \<noteq> 0))"
proof -
  have fl: "\<lfloor>of_nat n / (2 :: real) ^ k\<rfloor> = int (n div 2 ^ k)"
    using floor_divide_of_nat_eq [of n "2 ^ k", where 'a = real] by simp
  have "of_nat n / (2 :: real) ^ k \<in> \<int> \<longleftrightarrow> n mod 2 ^ k = 0"
    using Ints_div_pow2 [of "int n" k]
    by (metis dvd_eq_mod_eq_0 of_int_of_nat_eq of_nat_dvd_iff of_nat_numeral of_nat_power)
  then show ?thesis
    using or_one_eq [of "n div 2 ^ k"] by (auto simp: rodd_alt fl)
qed

lemma Ints_nat_div_pow2: "real n / 2 ^ R \<in> \<int> \<longleftrightarrow> n mod 2 ^ R = 0"
  using Ints_div_pow2 [of "int n" R]
  by (metis dvd_eq_mod_eq_0 of_int_of_nat_eq of_nat_dvd_iff of_nat_numeral of_nat_power)

subsection \<open>Agreement above a bit\<close>

text \<open>
  Two numbers agree above bit \<open>j\<close> when they lie at the same position among the multiples of
  \<open>2 ^ j\<close>: on the same one, or strictly between the same two. A significand whose last bits were
  replaced by a sticky bit agrees with the exact one, and that is all a rounding needs.
\<close>

definition agree :: "nat \<Rightarrow> real \<Rightarrow> real \<Rightarrow> bool" where
  "agree j x y \<longleftrightarrow> \<lfloor>x / 2 ^ j\<rfloor> = \<lfloor>y / 2 ^ j\<rfloor> \<and> (x / 2 ^ j \<in> \<int> \<longleftrightarrow> y / 2 ^ j \<in> \<int>)"

lemma agree_refl [simp]: "agree j x x"
  by (simp add: agree_def)

lemma agree_sym: "agree j x y \<Longrightarrow> agree j y x"
  by (simp add: agree_def)

lemma agree_trans: "agree j x y \<Longrightarrow> agree j y z \<Longrightarrow> agree j x z"
  by (simp add: agree_def)

lemma agree_rodd: "0 < j \<Longrightarrow> agree j (of_int (rodd y)) y"
  by (simp add: agree_def floor_rodd_div Ints_rodd_div)

lemma Ints_div_pow2_iff: "y / 2 ^ i \<in> \<int> \<longleftrightarrow> y \<in> \<int> \<and> 2 ^ i dvd \<lfloor>y\<rfloor>" for y :: real
  by (metis Ints_cases Ints_div_pow2 Ints_div_pow2D floor_of_int)

lemma agree_div:
  assumes "agree j x y"
  shows "agree j (x / 2 ^ i) (y / 2 ^ i)"
proof -
  have eq: "z / 2 ^ i / 2 ^ j = z / 2 ^ j / 2 ^ i" for z :: real by simp
  show ?thesis
    using assms unfolding agree_def eq floor_div_pow2 [of _ i] Ints_div_pow2_iff [of _ i] by simp
qed

lemma agree_mono:
  assumes "agree i x y" "i \<le> j"
  shows "agree j x y"
proof -
  obtain k where j: "j = i + k" using assms(2) by (auto simp: le_iff_add)
  have eq: "z / 2 ^ j = z / 2 ^ i / 2 ^ k" for z :: real by (simp add: j power_add)
  show ?thesis
    using assms(1) unfolding agree_def eq floor_div_pow2 [of _ k] Ints_div_pow2_iff [of _ k] by simp
qed

lemma agree_scale: "agree (j + k) (x * 2 ^ k) (y * 2 ^ k) \<longleftrightarrow> agree j x y"
  by (simp add: agree_def power_add)

lemma agree_le_iff:
  assumes "agree j x y"
  shows "of_int N * 2 ^ j \<le> x \<longleftrightarrow> of_int N * 2 ^ j \<le> y"
proof -
  have "of_int N * 2 ^ j \<le> z \<longleftrightarrow> N \<le> \<lfloor>z / 2 ^ j\<rfloor>" for z :: real
    by (simp add: le_floor_iff pos_le_divide_eq)
  then show ?thesis using assms by (simp add: agree_def)
qed

lemma agree_between:
  assumes "of_int k * 2 ^ j < x" "x < of_int (k + 1) * 2 ^ j" "of_int k * 2 ^ j < y" "y < of_int (k + 1) * 2 ^ j"
  shows "agree j x y"
proof -
  have "\<lfloor>z / 2 ^ j\<rfloor> = k \<and> z / 2 ^ j \<notin> \<int>" if "of_int k * 2 ^ j < z" "z < of_int (k + 1) * 2 ^ j" for z :: real
  proof -
    have b: "of_int k < z / 2 ^ j" "z / 2 ^ j < of_int (k + 1)"
      using that by (simp_all only: pos_less_divide_eq pos_divide_less_eq zero_less_power zero_less_numeral)
    then have fl: "\<lfloor>z / 2 ^ j\<rfloor> = k" by (simp add: floor_eq_iff)
    then show ?thesis using b by (auto elim!: Ints_cases)
  qed
  then show ?thesis using assms by (simp add: agree_def)
qed

theorem rint_agree:
  assumes "agree j x y"
  shows "rint rm s (x / 2 ^ Suc j) = rint rm s (y / 2 ^ Suc j)"
proof (rule rint_cong)
  have eq: "2 * (z / 2 ^ Suc j) = z / 2 ^ j" for z :: real by simp
  show "\<lfloor>2 * (x / 2 ^ Suc j)\<rfloor> = \<lfloor>2 * (y / 2 ^ Suc j)\<rfloor>"
    and "2 * (x / 2 ^ Suc j) \<in> \<int> \<longleftrightarrow> 2 * (y / 2 ^ Suc j) \<in> \<int>"
    using assms unfolding eq agree_def by simp_all
qed

subsection \<open>Rounding by adding an increment and shifting\<close>

text \<open>
  The increment that the library adds below the rounding position (\<open>2 ^ R\<close> is the weight of
  the last kept bit), and what remains after the shift. In mode RNE the low bit is cleared on
  a tie; in mode ROD lost bits are or-ed into the low bit.
\<close>

definition rnd_inc :: "rmode \<Rightarrow> bool \<Rightarrow> nat \<Rightarrow> nat" where
  "rnd_inc rm s R =
     (case rm of
        RNE \<Rightarrow> 2 ^ (R - 1) | RMM \<Rightarrow> 2 ^ (R - 1)
      | RDN \<Rightarrow> (if s then 2 ^ R - 1 else 0)
      | RUP \<Rightarrow> (if s then 0 else 2 ^ R - 1)
      | RTZ \<Rightarrow> 0 | ROD \<Rightarrow> 0)"

definition rnd_shift :: "rmode \<Rightarrow> bool \<Rightarrow> nat \<Rightarrow> nat \<Rightarrow> nat" where
  "rnd_shift rm s R n =
     (let q = (n + rnd_inc rm s R) div 2 ^ R in
      if rm = ROD \<and> n mod 2 ^ R \<noteq> 0 then q OR 1
      else if rm = RNE \<and> n mod 2 ^ R = 2 ^ (R - 1) then q - q mod 2
      else q)"

lemma div_add_pow2_less:
  fixes a b c :: nat
  assumes "b + c < 2 * 2 ^ R"
  shows "(a * 2 ^ R + b + c) div 2 ^ R = a + of_bool (2 ^ R \<le> b + c)"
proof -
  have "(a * 2 ^ R + b + c) div 2 ^ R = a + (b + c) div 2 ^ R"
    by (simp add: add.assoc div_mult_self3)
  moreover have "(b + c) div 2 ^ R = of_bool (2 ^ R \<le> b + c)"
    using assms by (auto simp: div_nat_eqI)
  ultimately show ?thesis by simp
qed

theorem rint_rnd_shift:
  assumes R: "0 < R"
  shows "rint rm s (of_nat n / 2 ^ R) = int (rnd_shift rm s R n)"
proof -
  define a b where "a = n div 2 ^ R" and "b = n mod 2 ^ R"
  have n: "n = a * 2 ^ R + b" and b: "b < 2 ^ R" unfolding a_def b_def by (simp_all only: div_mult_mod_eq) simp
  define t where "t = (of_nat b :: real) / 2 ^ R"
  have "(of_nat b :: real) < of_nat (2 ^ R)" using b by (simp only: of_nat_less_iff)
  then have t: "0 \<le> t" "t < 1" by (simp_all add: t_def)
  have y: "(of_nat n :: real) / 2 ^ R = of_int (int a) + t"
    by (simp add: n t_def add_divide_distrib)
  obtain k where k: "R = Suc k" using R by (cases R) auto
  have "2 * t = of_nat b / 2 ^ k" by (simp add: t_def k)
  then have half: "1 < 2 * t \<longleftrightarrow> 2 ^ k < b" "2 * t = 1 \<longleftrightarrow> b = 2 ^ k" "1 \<le> 2 * t \<longleftrightarrow> 2 ^ k \<le> b"
    by (simp_all add: pos_less_divide_eq pos_le_divide_eq divide_eq_1_iff eq_commute [of b])
  have pos: "0 < t \<longleftrightarrow> b \<noteq> 0" by (simp add: t_def zero_less_divide_iff)
  have inc: "rnd_inc rm s R < 2 ^ R" by (auto simp: rnd_inc_def k split: rmode.split)
  have q: "(n + rnd_inc rm s R) div 2 ^ R = a + of_bool (2 ^ R \<le> b + rnd_inc rm s R)"
    unfolding n using b inc by (intro div_add_pow2_less) simp
  have bmod: "n mod 2 ^ R = b" by (simp add: b_def)
  have or1: "m OR 1 = m + of_bool (even m)" for m :: nat by (rule or_one_eq)
  show ?thesis
    unfolding y rint_split [OF t] rnd_shift_def q bmod or1
    using b by (cases rm; auto simp: half pos rnd_inc_def k Let_def; presburger)
qed

end
