(* ===== verification/SF_Primitives.thy ===== *)
theory SF_Primitives
  imports Rounding
begin

text \<open>
  SoftFloat's integer primitives (\<open>source/include/primitives.h\<close>, \<open>source/s_*.c\<close>) and its global
  state (\<open>source/softfloat_state.c\<close>). The widths are those of the Linux-x86_64-GCC build:
  \<open>uint_fast8_t\<close> has 8 bits, \<open>uint_fast16_t\<close>, \<open>uint_fast32_t\<close> and \<open>uint_fast64_t\<close> have 64.
  Exponents (\<open>int_fast16_t\<close>, 64 bits there) are integers; their casts to narrower unsigned
  types are written out. A shift that jams (or-s the lost bits into the lowest one) is shown
  to round to odd.
\<close>

subsection \<open>Global state\<close>

record softfloat_state =
  softfloat_roundingMode :: u8
  softfloat_detectTininess :: u8
  softfloat_exceptionFlags :: u8

abbreviation (input) softfloat_tininess_beforeRounding :: u8 where "softfloat_tininess_beforeRounding \<equiv> 0"
abbreviation (input) softfloat_tininess_afterRounding :: u8 where "softfloat_tininess_afterRounding \<equiv> 1"

abbreviation (input) softfloat_round_near_even :: u8 where "softfloat_round_near_even \<equiv> 0"
abbreviation (input) softfloat_round_minMag :: u8 where "softfloat_round_minMag \<equiv> 1"
abbreviation (input) softfloat_round_min :: u8 where "softfloat_round_min \<equiv> 2"
abbreviation (input) softfloat_round_max :: u8 where "softfloat_round_max \<equiv> 3"
abbreviation (input) softfloat_round_near_maxMag :: u8 where "softfloat_round_near_maxMag \<equiv> 4"
abbreviation (input) softfloat_round_odd :: u8 where "softfloat_round_odd \<equiv> 6"

abbreviation (input) softfloat_flag_inexact :: u8 where "softfloat_flag_inexact \<equiv> 1"
abbreviation (input) softfloat_flag_underflow :: u8 where "softfloat_flag_underflow \<equiv> 2"
abbreviation (input) softfloat_flag_overflow :: u8 where "softfloat_flag_overflow \<equiv> 4"
abbreviation (input) softfloat_flag_infinite :: u8 where "softfloat_flag_infinite \<equiv> 8"
abbreviation (input) softfloat_flag_invalid :: u8 where "softfloat_flag_invalid \<equiv> 16"

definition softfloat_state_init :: softfloat_state where
  "softfloat_state_init =
     \<lparr>softfloat_roundingMode = softfloat_round_near_even,
      softfloat_detectTininess = softfloat_tininess_afterRounding,
      softfloat_exceptionFlags = 0\<rparr>"

definition softfloat_raiseFlags :: "u8 \<Rightarrow> softfloat_state \<Rightarrow> softfloat_state" where
  "softfloat_raiseFlags flags st =
     st\<lparr>softfloat_exceptionFlags := softfloat_exceptionFlags st OR flags\<rparr>"

text \<open>
  The direction a value of \<open>softfloat_roundingMode\<close> stands for; the code treats the values
  outside the enumeration as truncation.
\<close>

definition sf_rmode :: "u8 \<Rightarrow> rmode" where
  "sf_rmode m =
     (if m = softfloat_round_near_even then RNE
      else if m = softfloat_round_min then RDN
      else if m = softfloat_round_max then RUP
      else if m = softfloat_round_near_maxMag then RMM
      else if m = softfloat_round_odd then ROD
      else RTZ)"

subsection \<open>Right shifts that jam\<close>

definition softfloat_shortShiftRightJam64 :: "u64 \<Rightarrow> u8 \<Rightarrow> u64" where
  "softfloat_shortShiftRightJam64 a d =
     drop_bit (unat d) a OR of_bool (a AND (push_bit (unat d) 1 - 1) \<noteq> 0)"

definition softfloat_shiftRightJam32 :: "u32 \<Rightarrow> u64 \<Rightarrow> u32" where
  "softfloat_shiftRightJam32 a d =
     (if d < 31
      then drop_bit (unat d) a OR of_bool (push_bit (unat (- d AND 31)) a \<noteq> 0)
      else of_bool (a \<noteq> 0))"

definition softfloat_shiftRightJam64 :: "u64 \<Rightarrow> u64 \<Rightarrow> u64" where
  "softfloat_shiftRightJam64 a d =
     (if d < 63
      then drop_bit (unat d) a OR of_bool (push_bit (unat (- d AND 63)) a \<noteq> 0)
      else of_bool (a \<noteq> 0))"

record uint64_extra =
  ext_extra :: u64
  ext_v :: u64

definition softfloat_shiftRightJam64Extra :: "u64 \<Rightarrow> u64 \<Rightarrow> u64 \<Rightarrow> uint64_extra" where
  "softfloat_shiftRightJam64Extra a ex d =
     (let z = (if d < 64
               then \<lparr>ext_extra = push_bit (unat (- d AND 63)) a, ext_v = drop_bit (unat d) a\<rparr>
               else \<lparr>ext_extra = (if d = 64 then a else of_bool (a \<noteq> 0)), ext_v = 0\<rparr>)
      in z\<lparr>ext_extra := ext_extra z OR of_bool (ex \<noteq> 0)\<rparr>)"

subsection \<open>Counting leading zeros\<close>

definition softfloat_countLeadingZeros8 :: "u8 list" where
  "softfloat_countLeadingZeros8 =
     [8, 7, 6, 6, 5, 5, 5, 5, 4, 4, 4, 4, 4, 4, 4, 4,
      3, 3, 3, 3, 3, 3, 3, 3, 3, 3, 3, 3, 3, 3, 3, 3,
      2, 2, 2, 2, 2, 2, 2, 2, 2, 2, 2, 2, 2, 2, 2, 2,
      2, 2, 2, 2, 2, 2, 2, 2, 2, 2, 2, 2, 2, 2, 2, 2,
      1, 1, 1, 1, 1, 1, 1, 1, 1, 1, 1, 1, 1, 1, 1, 1,
      1, 1, 1, 1, 1, 1, 1, 1, 1, 1, 1, 1, 1, 1, 1, 1,
      1, 1, 1, 1, 1, 1, 1, 1, 1, 1, 1, 1, 1, 1, 1, 1,
      1, 1, 1, 1, 1, 1, 1, 1, 1, 1, 1, 1, 1, 1, 1, 1,
      0, 0, 0, 0, 0, 0, 0, 0, 0, 0, 0, 0, 0, 0, 0, 0,
      0, 0, 0, 0, 0, 0, 0, 0, 0, 0, 0, 0, 0, 0, 0, 0,
      0, 0, 0, 0, 0, 0, 0, 0, 0, 0, 0, 0, 0, 0, 0, 0,
      0, 0, 0, 0, 0, 0, 0, 0, 0, 0, 0, 0, 0, 0, 0, 0,
      0, 0, 0, 0, 0, 0, 0, 0, 0, 0, 0, 0, 0, 0, 0, 0,
      0, 0, 0, 0, 0, 0, 0, 0, 0, 0, 0, 0, 0, 0, 0, 0,
      0, 0, 0, 0, 0, 0, 0, 0, 0, 0, 0, 0, 0, 0, 0, 0,
      0, 0, 0, 0, 0, 0, 0, 0, 0, 0, 0, 0, 0, 0, 0, 0]"

definition softfloat_countLeadingZeros32 :: "u32 \<Rightarrow> u8" where
  "softfloat_countLeadingZeros32 a =
     (let count = 0;
          (count, a) = (if a < 0x10000 then (16, push_bit 16 a) else (count, a));
          (count, a) = (if a < 0x1000000 then (count + 8, push_bit 8 a) else (count, a))
      in count + softfloat_countLeadingZeros8 ! unat (drop_bit 24 a))"

definition softfloat_countLeadingZeros64 :: "u64 \<Rightarrow> u8" where
  "softfloat_countLeadingZeros64 a =
     (let count = 0;
          a32 = ucast (drop_bit 32 a) :: u32;
          (count, a32) = (if a32 = 0 then (32, ucast a) else (count, a32));
          (count, a32) = (if a32 < 0x10000 then (count + 16, push_bit 16 a32) else (count, a32));
          (count, a32) = (if a32 < 0x1000000 then (count + 8, push_bit 8 a32) else (count, a32))
      in count + softfloat_countLeadingZeros8 ! unat (drop_bit 24 a32))"

subsection \<open>Products of two 64-bit words\<close>

record uint128 =
  v64 :: u64
  v0 :: u64

definition softfloat_mul64To128 :: "u64 \<Rightarrow> u64 \<Rightarrow> uint128" where
  "softfloat_mul64To128 a b =
     (let ui = (ucast a :: 128 word) * ucast b
      in \<lparr>v64 = ucast (drop_bit 64 ui), v0 = ucast ui\<rparr>)"

subsection \<open>What the primitives compute\<close>

lemma unat_or_bit: "unat (w OR of_bool P) = (unat w OR of_bool P)" for w :: "'a::len word"
  by (cases P) (simp_all add: unsigned_or_eq)

lemma push_bit_eq_0_iff_mod:
  fixes a :: "'a::len word"
  assumes "n \<le> LENGTH('a)"
  shows "push_bit n a = 0 \<longleftrightarrow> unat a mod 2 ^ (LENGTH('a) - n) = 0"
proof -
  have "unat (push_bit n a) = (unat a * 2 ^ n) mod 2 ^ LENGTH('a)"
    by (simp only: unsigned_push_bit_eq) (simp only: push_bit_eq_mult take_bit_eq_mod)
  also have "\<dots> = (unat a * 2 ^ n) mod (2 ^ (LENGTH('a) - n) * 2 ^ n)"
    using assms by (simp flip: power_add)
  also have "\<dots> = (unat a mod 2 ^ (LENGTH('a) - n)) * 2 ^ n"
    by (rule mod_mult_mult2)
  finally show ?thesis by (simp add: unat_eq_0 [symmetric])
qed

lemma neg_and_mask:
  fixes d :: u64
  assumes "unat d \<noteq> 0" "unat d < 2 ^ k" "k \<le> 64"
  shows "unat (- d AND mask k) = 2 ^ k - unat d"
proof -
  have "0 < int (unat d)" "int (unat d) < int (2 ^ k)"
    using assms(1,2) by (simp_all only: of_nat_less_iff of_nat_0_less_iff)
  then have d: "0 < uint d" "uint d < 2 ^ k" by (simp_all only: uint_nat of_nat_power of_nat_numeral)
  have "uint (- d AND mask k) = (- uint d mod 2 ^ 64) mod 2 ^ k"
    by (simp only: take_bit_eq_mask [symmetric] unsigned_take_bit_eq)
      (simp add: take_bit_eq_mod uint_word_ariths)
  also have "\<dots> = - uint d mod 2 ^ k"
    using assms(3) by (intro mod_mod_cancel le_imp_power_dvd)
  also have "\<dots> = 2 ^ k - uint d"
    using d by (simp add: zmod_zminus1_eq_if)
  finally have "int (unat (- d AND mask k)) = int (2 ^ k) - int (unat d)"
    by (simp only: uint_nat of_nat_power of_nat_numeral)
  then show ?thesis by linarith
qed

lemma jam_rodd:
  fixes a :: "'a::len word"
  assumes "0 < k" "k < LENGTH('a)"
  shows "int (unat (drop_bit k a OR of_bool (push_bit (LENGTH('a) - k) a \<noteq> 0)))
         = rodd (real (unat a) / 2 ^ k)"
  using assms
  by (simp add: rodd_nat_div unat_or_bit nat_of_word push_bit_eq_0_iff_mod)

lemma rodd_unat_large:
  fixes a :: "'a::len word"
  assumes "LENGTH('a) - 1 \<le> k"
  shows "rodd (real (unat a) / 2 ^ k) = of_bool (a \<noteq> 0)"
proof -
  have "unat a < 2 ^ LENGTH('a)" by (rule unat_bound)
  also have "\<dots> \<le> 2 ^ Suc k" using assms by (intro power_increasing) auto
  finally have a: "unat a < 2 * 2 ^ k" by simp
  show ?thesis
  proof (cases "unat a < 2 ^ k")
    case True
    then show ?thesis by (simp add: rodd_nat_div unat_eq_0)
  next
    case False
    with a have "unat a div 2 ^ k = 1" by (simp add: div_nat_eqI)
    moreover have "a \<noteq> 0" using False by (cases "a = 0") auto
    ultimately show ?thesis by (simp add: rodd_nat_div or_one_eq)
  qed
qed

theorem softfloat_shortShiftRightJam64_rodd:
  assumes "unat d < 64"
  shows "int (unat (softfloat_shortShiftRightJam64 a d)) = rodd (real (unat a) / 2 ^ unat d)"
proof -
  have "push_bit (unat d) (1 :: u64) - 1 = mask (unat d)"
    by (simp add: mask_eq_exp_minus_1 push_bit_eq_mult)
  then show ?thesis
    by (simp add: softfloat_shortShiftRightJam64_def rodd_nat_div unat_or_bit nat_of_word
        unat_eq_0 [symmetric] unat_and_mask del: push_bit_of_1)
qed

theorem softfloat_shiftRightJam32_rodd:
  assumes "d \<noteq> 0"
  shows "int (unat (softfloat_shiftRightJam32 a d)) = rodd (real (unat a) / 2 ^ unat d)"
proof (cases "d < 31")
  case True
  then have d: "0 < unat d" "unat d < 31"
    using assms by (simp_all add: word_less_nat_alt unat_gt_0)
  have "(31 :: u64) = mask 5" by (simp add: mask_eq_exp_minus_1)
  then have "unat (- d AND 31) = 32 - unat d" using d neg_and_mask [of d 5] by simp
  then show ?thesis
    using True d jam_rodd [of "unat d" a] by (simp add: softfloat_shiftRightJam32_def)
next
  case False
  then have "31 \<le> unat d" by (simp add: word_less_nat_alt)
  with False show ?thesis
    using rodd_unat_large [of "unat d" a] by (simp add: softfloat_shiftRightJam32_def unat_of_bool)
qed

theorem softfloat_shiftRightJam64_rodd:
  assumes "d \<noteq> 0"
  shows "int (unat (softfloat_shiftRightJam64 a d)) = rodd (real (unat a) / 2 ^ unat d)"
proof (cases "d < 63")
  case True
  then have d: "0 < unat d" "unat d < 63"
    using assms by (simp_all add: word_less_nat_alt unat_gt_0)
  have "(63 :: u64) = mask 6" by (simp add: mask_eq_exp_minus_1)
  then have "unat (- d AND 63) = 64 - unat d" using d neg_and_mask [of d 6] by simp
  then show ?thesis
    using True d jam_rodd [of "unat d" a] by (simp add: softfloat_shiftRightJam64_def)
next
  case False
  then have "63 \<le> unat d" by (simp add: word_less_nat_alt)
  with False show ?thesis
    using rodd_unat_large [of "unat d" a] by (simp add: softfloat_shiftRightJam64_def unat_of_bool)
qed

text \<open>
  The leading-zero counts: the argument has exactly that many zero bits above its highest one.
\<close>

definition clz_spec :: "nat \<Rightarrow> nat \<Rightarrow> nat \<Rightarrow> bool" where
  "clz_spec w a c \<longleftrightarrow> c < w \<and> 2 ^ (w - 1 - c) \<le> a \<and> a < 2 ^ (w - c)"

lemma clz8_table:
  "list_all (\<lambda>(i, c). i = 0 \<or> clz_spec 8 i (unat c)) (enumerate 0 softfloat_countLeadingZeros8)"
  by (simp add: softfloat_countLeadingZeros8_def clz_spec_def)

lemma clz8_length: "length softfloat_countLeadingZeros8 = 256"
  by (simp add: softfloat_countLeadingZeros8_def)

lemma clz8_nth:
  assumes "0 < i" "i < 256"
  shows "clz_spec 8 i (unat (softfloat_countLeadingZeros8 ! i))"
proof -
  have "(i, softfloat_countLeadingZeros8 ! i) \<in> set (enumerate 0 softfloat_countLeadingZeros8)"
    using assms by (simp add: in_set_enumerate_eq clz8_length)
  then show ?thesis using clz8_table assms by (auto simp: list_all_iff)
qed

lemma clz_spec_drop:
  assumes "clz_spec k (a div 2 ^ j) c"
  shows "clz_spec (k + j) a c"
proof -
  have c: "c < k" "2 ^ (k - 1 - c) \<le> a div 2 ^ j" "a div 2 ^ j < 2 ^ (k - c)"
    using assms by (simp_all add: clz_spec_def)
  have "2 ^ (k - 1 - c) * 2 ^ j \<le> a" "a < 2 ^ (k - c) * 2 ^ j"
    using c by (simp_all add: less_eq_div_iff_mult_less_eq div_less_iff_less_mult)
  moreover have "k + j - 1 - c = (k - 1 - c) + j" "k + j - c = (k - c) + j" using c(1) by simp_all
  ultimately show ?thesis using c(1) by (simp only: clz_spec_def power_add) simp
qed

lemma clz_spec_scale:
  assumes "clz_spec w (a * 2 ^ j) c"
  shows "clz_spec w a (c + j)"
proof -
  have c: "c < w" "2 ^ (w - 1 - c) \<le> a * 2 ^ j" "a * 2 ^ j < 2 ^ (w - c)"
    using assms by (simp_all add: clz_spec_def)
  then have "a \<noteq> 0" by (cases "a = 0") auto
  then have "(2 :: nat) ^ j \<le> a * 2 ^ j" by simp
  then have "(2 :: nat) ^ j < 2 ^ (w - c)" using c(3) by (rule le_less_trans)
  then have j: "j < w - c" by simp
  have "2 ^ (w - 1 - c) = 2 ^ (w - 1 - (c + j)) * (2 :: nat) ^ j" "2 ^ (w - c) = 2 ^ (w - (c + j)) * (2 :: nat) ^ j"
    using j by (simp_all flip: power_add)
  then have "2 ^ (w - 1 - (c + j)) \<le> a" "a < 2 ^ (w - (c + j))" using c by simp_all
  then show ?thesis using j by (simp add: clz_spec_def)
qed

text \<open>One step of the search: a word below \<open>2 ^ (32 - j)\<close> is moved up by \<open>j\<close> bits.\<close>

lemma clz_step32:
  fixes a :: u32
  assumes "unat a < 2 ^ (32 - j)" "j \<le> 32"
  shows "unat (push_bit j a) = unat a * 2 ^ j"
proof -
  have "unat a * 2 ^ j < 2 ^ (32 - j) * 2 ^ j" using assms(1) by simp
  also have "\<dots> = 2 ^ 32" using assms(2) by (simp flip: power_add)
  finally show ?thesis by (simp add: unat_push_bit)
qed

lemma clz_top_byte:
  fixes a :: u32
  assumes "2 ^ 24 \<le> unat a"
  shows "clz_spec 32 (unat a) (unat (softfloat_countLeadingZeros8 ! unat (drop_bit 24 a)))"
proof -
  have "0 < unat a div 2 ^ 24" using assms by (simp add: div_greater_zero_iff)
  moreover have "unat a div 2 ^ 24 < 256" using unat_bound [of a] by (simp add: less_mult_imp_div_less)
  ultimately show ?thesis
    using clz8_nth clz_spec_drop [of 8 "unat a" 24] by (simp add: nat_of_word)
qed

lemma softfloat_countLeadingZeros32_spec:
  assumes "a \<noteq> 0"
  shows "clz_spec 32 (unat a) (unat (softfloat_countLeadingZeros32 a))"
proof -
  define a1 where "a1 = (if a < 0x10000 then push_bit 16 a else a)"
  define c1 :: nat where "c1 = (if a < 0x10000 then 16 else 0)"
  define a2 where "a2 = (if a1 < 0x1000000 then push_bit 8 a1 else a1)"
  define c2 :: nat where "c2 = (if a1 < 0x1000000 then 8 else 0)"
  let ?t = "softfloat_countLeadingZeros8 ! unat (drop_bit 24 a2)"
  have a0: "0 < unat a" using assms by (simp add: unat_gt_0)
  have a1: "unat a1 = unat a * 2 ^ c1" "2 ^ 16 \<le> unat a1"
    using a0 clz_step32 [of a 16] by (auto simp: a1_def c1_def word_less_nat_alt)
  have a2: "unat a2 = unat a1 * 2 ^ c2" "2 ^ 24 \<le> unat a2"
    using a1 clz_step32 [of a1 8] by (auto simp: a2_def c2_def word_less_nat_alt)
  have "clz_spec 32 (unat a2) (unat ?t)" using a2(2) by (rule clz_top_byte)
  moreover have "unat a2 = unat a * 2 ^ (c1 + c2)" by (simp add: a1 a2 power_add)
  ultimately have "clz_spec 32 (unat a) (unat ?t + (c1 + c2))"
    using clz_spec_scale by metis
  moreover have "softfloat_countLeadingZeros32 a = of_nat (c1 + c2) + ?t"
    by (simp add: softfloat_countLeadingZeros32_def a1_def a2_def c1_def c2_def Let_def)
  ultimately show ?thesis by (simp add: clz_spec_def unat_word_ariths unat_of_nat add_ac)
qed

lemma clz_spec_32_64: "clz_spec 32 a c \<Longrightarrow> clz_spec 64 a (c + 32)"
  by (auto simp: clz_spec_def)

lemma softfloat_countLeadingZeros64_32:
  "softfloat_countLeadingZeros64 a =
     (if drop_bit 32 a = 0 then 32 + softfloat_countLeadingZeros32 (ucast a)
      else softfloat_countLeadingZeros32 (ucast (drop_bit 32 a)))"
proof -
  have "ucast (drop_bit 32 a) = (0 :: u32) \<longleftrightarrow> drop_bit 32 a = 0"
  proof -
    have "unat (drop_bit 32 a) < 2 ^ 32" using unat_bound [of a] by (simp add: nat_of_word less_mult_imp_div_less)
    then have "unat (ucast (drop_bit 32 a) :: u32) = unat (drop_bit 32 a)"
      by (simp add: unsigned_ucast_eq take_bit_nat_eq_self)
    then show ?thesis by (metis unat_eq_0)
  qed
  then show ?thesis
    by (simp add: softfloat_countLeadingZeros64_def softfloat_countLeadingZeros32_def Let_def add_ac)
qed

theorem softfloat_countLeadingZeros64_spec:
  assumes "a \<noteq> 0"
  shows "clz_spec 64 (unat a) (unat (softfloat_countLeadingZeros64 a))"
proof (cases "drop_bit 32 a = 0")
  case True
  then have "unat a div 2 ^ 32 = 0" by (metis nat_of_word(1) unat_0)
  then have lt: "unat a < 2 ^ 32" by (simp add: div_eq_0_iff)
  then have u: "unat (ucast a :: u32) = unat a" by (simp add: unsigned_ucast_eq take_bit_nat_eq_self)
  then have "(ucast a :: u32) \<noteq> 0" using assms by (metis unat_eq_0)
  from softfloat_countLeadingZeros32_spec [OF this]
  have "clz_spec 32 (unat a) (unat (softfloat_countLeadingZeros32 (ucast a)))" by (simp only: u)
  then show ?thesis
    using True clz_spec_32_64 by (auto simp: softfloat_countLeadingZeros64_32 unat_word_ariths clz_spec_def)
next
  case False
  have "unat (drop_bit 32 a) < 2 ^ 32" using unat_bound [of a] by (simp add: nat_of_word less_mult_imp_div_less)
  then have u: "unat (ucast (drop_bit 32 a) :: u32) = unat a div 2 ^ 32"
    by (simp add: unsigned_ucast_eq take_bit_nat_eq_self nat_of_word)
  then have "(ucast (drop_bit 32 a) :: u32) \<noteq> 0" using False by (metis nat_of_word(1) unat_eq_0)
  from softfloat_countLeadingZeros32_spec [OF this]
  have "clz_spec (32 + 32) (unat a) (unat (softfloat_countLeadingZeros32 (ucast (drop_bit 32 a))))"
    unfolding u by (rule clz_spec_drop)
  with False show ?thesis by (simp add: softfloat_countLeadingZeros64_32)
qed

theorem softfloat_mul64To128_prod:
  "unat (v64 (softfloat_mul64To128 a b)) = unat a * unat b div 2 ^ 64"
  "unat (v0 (softfloat_mul64To128 a b)) = unat a * unat b mod 2 ^ 64"
proof -
  have ucast: "unat (ucast c :: 128 word) = unat c" for c :: u64
    using unat_bound [of c] by (simp add: unsigned_ucast_eq take_bit_nat_eq_self)
  have lt: "unat a * unat b < 2 ^ 64 * 2 ^ 64"
    using unat_bound [of a] unat_bound [of b] by (intro mult_strict_mono) simp_all
  then have ui: "unat ((ucast a :: 128 word) * ucast b) = unat a * unat b"
    by (simp add: unat_word_ariths ucast)
  have "unat a * unat b div 2 ^ 64 < 2 ^ 64" using lt by (simp add: less_mult_imp_div_less)
  then show "unat (v64 (softfloat_mul64To128 a b)) = unat a * unat b div 2 ^ 64"
    by (simp only: softfloat_mul64To128_def Let_def uint128.simps unsigned_ucast_eq nat_of_word ui)
      (simp add: take_bit_nat_eq_self)
  show "unat (v0 (softfloat_mul64To128 a b)) = unat a * unat b mod 2 ^ 64"
    by (simp only: softfloat_mul64To128_def Let_def uint128.simps unsigned_ucast_eq ui)
      (simp add: take_bit_eq_mod)
qed

end
