(* ===== verification/Float_Format.thy ===== *)
theory Float_Format
  imports Rounding
begin

text \<open>
  Binary interchange formats and correct rounding to them. A finite number is a sign and a
  magnitude code; the codes of a format, read as natural numbers, are ordered like the
  values they stand for, and the successor of a code stands for the next representable
  number. This makes rounding a choice between two consecutive codes, and lets the exponent
  range be continued upwards without bound, which is how IEEE 754 defines overflow: round as
  if the exponent were unbounded, then look whether the code has reached that of infinity.
\<close>

record format =
  fracbits :: nat
  expbits :: nat

definition f32_fmt :: format where
  "f32_fmt = \<lparr>fracbits = 23, expbits = 8\<rparr>"

definition f64_fmt :: format where
  "f64_fmt = \<lparr>fracbits = 52, expbits = 11\<rparr>"

definition bias :: "format \<Rightarrow> int" where
  "bias fmt = 2 ^ (expbits fmt - 1) - 1"

text \<open>The code of infinity: all exponent bits set, no fraction bit.\<close>

definition inf_code :: "format \<Rightarrow> nat" where
  "inf_code fmt = (2 ^ expbits fmt - 1) * 2 ^ fracbits fmt"

text \<open>The exponent of the unit in the last place of the codes \<open>e * 2 ^ F + q\<close>, \<open>2 ^ F \<le> q \<le> 2 ^ (F + 1)\<close>.\<close>

definition ulp_exp :: "format \<Rightarrow> nat \<Rightarrow> int" where
  "ulp_exp fmt e = int e + 1 - bias fmt - int (fracbits fmt)"

definition mval :: "format \<Rightarrow> nat \<Rightarrow> real" where
  "mval fmt m =
     (let F = fracbits fmt; e = m div 2 ^ F; f = m mod 2 ^ F
      in if e = 0 then real f * pow2 (ulp_exp fmt 0)
         else real (2 ^ F + f) * pow2 (ulp_exp fmt (e - 1)))"

text \<open>The last code whose value does not exceed \<open>x\<close>, and the code \<open>x\<close> is rounded to.\<close>

definition mfloor :: "format \<Rightarrow> real \<Rightarrow> nat" where
  "mfloor fmt x = (LEAST k. x < mval fmt (Suc k))"

definition round_mag :: "format \<Rightarrow> rmode \<Rightarrow> bool \<Rightarrow> real \<Rightarrow> nat" where
  "round_mag fmt rm s x =
     (let k = mfloor fmt x;
          t = (x - mval fmt k) / (mval fmt (Suc k) - mval fmt k)
      in k + of_bool (rnd_up rm s (odd k) t))"

text \<open>What an overflow delivers: infinity, or the largest finite number.\<close>

definition overflow_mag :: "format \<Rightarrow> rmode \<Rightarrow> bool \<Rightarrow> nat" where
  "overflow_mag fmt rm s =
     (if rm = RNE \<or> rm = RMM \<or> rm = RUP \<and> \<not> s \<or> rm = RDN \<and> s
      then inf_code fmt else inf_code fmt - 1)"

text \<open>
  Tininess, before or after rounding. After rounding: the number rounded with the
  format's precision but no lower bound on the exponent stays below the least normal number;
  as the codes of the binade below it have the same spacing as the subnormals only at twice
  the value, the number is doubled before it is rounded.
\<close>

definition is_tiny :: "format \<Rightarrow> rmode \<Rightarrow> bool \<Rightarrow> bool \<Rightarrow> real \<Rightarrow> bool" where
  "is_tiny fmt rm before s x \<longleftrightarrow>
     x < mval fmt (2 ^ fracbits fmt) \<and>
     (before \<or> round_mag fmt rm s (2 * x) < 2 * 2 ^ fracbits fmt)"

datatype fp_flags = Flags (inexact: bool) (underflow: bool) (overflow: bool)

definition ieee_round :: "format \<Rightarrow> rmode \<Rightarrow> bool \<Rightarrow> bool \<Rightarrow> real \<Rightarrow> nat \<times> fp_flags" where
  "ieee_round fmt rm before s x =
     (let m = round_mag fmt rm s x in
      if inf_code fmt \<le> m then (overflow_mag fmt rm s, Flags True False True)
      else (m, Flags (mval fmt m \<noteq> x) (mval fmt m \<noteq> x \<and> is_tiny fmt rm before s x) False))"

subsection \<open>Codes and values\<close>

locale float_format =
  fixes fmt :: format
  assumes frac_pos: "0 < fracbits fmt" and exp_ge_2: "2 \<le> expbits fmt"
begin

abbreviation F where "F \<equiv> fracbits fmt"

lemma mval_code:
  assumes "2 ^ F \<le> q \<or> e = 0" and "q \<le> 2 * 2 ^ F"
  shows "mval fmt (e * 2 ^ F + q) = real q * pow2 (ulp_exp fmt e)"
proof -
  consider (sub) "q < 2 ^ F" "e = 0" | (norm) "2 ^ F \<le> q" "q < 2 * 2 ^ F" | (top) "q = 2 * 2 ^ F"
    using assms by linarith
  then show ?thesis
  proof cases
    case sub
    then show ?thesis by (simp add: mval_def)
  next
    case norm
    then obtain f where f: "q = 2 ^ F + f" "f < 2 ^ F"
      by (metis add_less_cancel_left le_Suc_ex mult_2)
    have m: "e * 2 ^ F + q = f + (e + 1) * 2 ^ F" by (simp add: f)
    have "(e * 2 ^ F + q) div 2 ^ F = e + 1" "(e * 2 ^ F + q) mod 2 ^ F = f"
      unfolding m using f by (simp_all only: div_mult_self1 mod_mult_self1) simp_all
    then show ?thesis using f by (simp add: mval_def Let_def)
  next
    case top
    have m: "e * 2 ^ F + q = (e + 2) * 2 ^ F" by (simp add: top algebra_simps)
    have "ulp_exp fmt (e + 1) = ulp_exp fmt e + 1" by (simp add: ulp_exp_def)
    then show ?thesis unfolding mval_def m using top by (simp add: Let_def power_int_add_1)
  qed
qed

lemma code_cases:
  fixes m :: nat
  obtains e q where "m = e * 2 ^ F + q" "2 ^ F \<le> q \<or> e = 0" "q < 2 * 2 ^ F"
proof (cases "m < 2 ^ F")
  case True
  then show thesis by (intro that [of 0 m]) simp_all
next
  case False
  then have "0 < m div 2 ^ F" by (simp add: div_greater_zero_iff)
  then obtain d where d: "m div 2 ^ F = Suc d" by (cases "m div 2 ^ F") auto
  then have "m = Suc d * 2 ^ F + m mod 2 ^ F" using div_mult_mod_eq [of m "2 ^ F"] by simp
  then show thesis by (intro that [of d "2 ^ F + m mod 2 ^ F"]) simp_all
qed

lemma mval_Suc_code:
  assumes "2 ^ F \<le> q \<or> e = 0" and "q < 2 * 2 ^ F"
  shows "mval fmt (Suc (e * 2 ^ F + q)) = mval fmt (e * 2 ^ F + q) + pow2 (ulp_exp fmt e)"
proof -
  have "2 ^ F \<le> Suc q \<or> e = 0" "Suc q \<le> 2 * 2 ^ F" using assms by auto
  then show ?thesis using assms mval_code [of q e] mval_code [of "Suc q" e] by (simp add: algebra_simps)
qed

lemma mval_less_Suc: "mval fmt m < mval fmt (Suc m)"
  by (rule code_cases [of m]) (simp add: mval_Suc_code)

lemma strict_mono_mval: "strict_mono (mval fmt)"
  by (simp add: strict_mono_Suc_iff mval_less_Suc)

lemmas mval_less_iff [simp] = strict_mono_less [OF strict_mono_mval]
lemmas mval_le_iff [simp] = strict_mono_less_eq [OF strict_mono_mval]
lemmas mval_eq_iff [simp] = strict_mono_eq [OF strict_mono_mval]

lemma mval_0 [simp]: "mval fmt 0 = 0"
  by (simp add: mval_def)

lemma mval_nonneg [simp]: "0 \<le> mval fmt m"
  using mval_le_iff [of 0 m] by (simp del: mval_le_iff)

lemma mval_eq_0_iff [simp]: "mval fmt m = 0 \<longleftrightarrow> m = 0"
  using mval_eq_iff [of m 0] by (simp del: mval_eq_iff)

subsection \<open>Rounding to a code\<close>

lemma mfloor_eqI:
  assumes "mval fmt k \<le> x" and "x < mval fmt (Suc k)"
  shows "mfloor fmt x = k"
  unfolding mfloor_def
proof (rule Least_equality)
  fix j
  assume "x < mval fmt (Suc j)"
  with assms(1) have "mval fmt k < mval fmt (Suc j)" by (rule le_less_trans)
  then show "k \<le> j" by simp
qed (rule assms(2))

lemma mfloor_mval [simp]: "mfloor fmt (mval fmt k) = k"
  by (rule mfloor_eqI) simp_all

lemma round_mag_exact [simp]: "round_mag fmt rm s (mval fmt k) = k"
  by (simp add: round_mag_def)

lemma ieee_round_exact:
  "m < inf_code fmt \<Longrightarrow> ieee_round fmt rm before s (mval fmt m) = (m, Flags False False False)"
  by (simp add: ieee_round_def)

text \<open>
  Scaled by the unit in the last place, rounding to a code is rounding to an integer.
\<close>

theorem round_mag_scaled:
  assumes lo: "2 ^ F \<le> y \<or> e = 0 \<and> 0 \<le> y" and hi: "y < 2 * 2 ^ F"
  shows "round_mag fmt rm s (y * pow2 (ulp_exp fmt e)) = e * 2 ^ F + nat (rint rm s y)"
proof -
  obtain n t where y: "y = of_int n + t" and t: "0 \<le> t" "t < 1" by (rule real_split_cases)
  have "0 \<le> y" using lo by (meson order_trans zero_le_numeral zero_le_power)
  then have "0 \<le> n" using y t by linarith
  then obtain q where n: "n = int q" by (metis nat_0_le)
  have q: "2 ^ F \<le> q \<or> e = 0" "q < 2 * 2 ^ F"
  proof -
    have "real (2 ^ F) \<le> y \<Longrightarrow> real (2 ^ F) < real (Suc q)" using y t n by simp
    then show "2 ^ F \<le> q \<or> e = 0" using lo by (auto simp: less_Suc_eq_le simp del: of_nat_Suc)
    have "real q < real (2 * 2 ^ F)" using y t n hi by simp
    then show "q < 2 * 2 ^ F" by (simp only: of_nat_less_iff)
  qed
  let ?k = "e * 2 ^ F + q" and ?u = "pow2 (ulp_exp fmt e)" and ?x = "y * pow2 (ulp_exp fmt e)"
  have k: "mval fmt ?k = real q * ?u" using q by (simp add: mval_code)
  have Sk: "mval fmt (Suc ?k) = mval fmt ?k + ?u" using q by (rule mval_Suc_code)
  have "mval fmt ?k \<le> ?x" using y t n k by (simp add: mult_right_mono)
  moreover have "?x < mval fmt (Suc ?k)"
    unfolding Sk k using y t n by (simp add: algebra_simps flip: distrib_left) 
  ultimately have fl: "mfloor fmt ?x = ?k" by (rule mfloor_eqI)
  have "(?x - mval fmt ?k) / (mval fmt (Suc ?k) - mval fmt ?k) = t"
    unfolding Sk k by (simp add: y n algebra_simps)
  moreover have "odd ?k \<longleftrightarrow> odd q" using frac_pos by simp
  moreover have "rint rm s y = int q + of_bool (rnd_up rm s (odd q) t)"
    unfolding y rint_split [OF t] by (simp add: n)
  ultimately show ?thesis by (simp add: round_mag_def fl nat_add_distrib)
qed

end

interpretation f32: float_format f32_fmt
  by unfold_locales (simp_all add: f32_fmt_def)

interpretation f64: float_format f64_fmt
  by unfold_locales (simp_all add: f64_fmt_def)

lemma fmt_sizes [simp]:
  "fracbits f32_fmt = 23" "expbits f32_fmt = 8" "fracbits f64_fmt = 52" "expbits f64_fmt = 11"
  by (simp_all add: f32_fmt_def f64_fmt_def)

lemma ulp_exp_f32: "ulp_exp f32_fmt e = int e - 149"
  by (simp add: ulp_exp_def bias_def)

lemma ulp_exp_f64: "ulp_exp f64_fmt e = int e - 1074"
  by (simp add: ulp_exp_def bias_def)

end
