(* ===== verification/SF_Formats.thy ===== *)
theory SF_Formats
  imports SF_Primitives Float_Format
begin

text \<open>
  The field macros of \<open>source/include/internals.h\<close> for the 32-bit and 64-bit formats, the NaN
  handling of the 8086-SSE specialization (\<open>source/8086-SSE\<close>), which the Linux-x86_64-GCC
  build uses, and the bridge from bit patterns to the magnitude codes of \<open>Float_Format\<close>.
  A \<open>float32_t\<close> is its 32-bit pattern, a \<open>float64_t\<close> its 64-bit pattern.
\<close>

subsection \<open>Field macros\<close>

definition signF32UI :: "u64 \<Rightarrow> bool" where
  "signF32UI a \<longleftrightarrow> drop_bit 31 (ucast a :: u32) \<noteq> 0"

definition expF32UI :: "u64 \<Rightarrow> int" where
  "expF32UI a = uint (drop_bit 23 a AND 0xFF)"

definition fracF32UI :: "u64 \<Rightarrow> u64" where
  "fracF32UI a = a AND 0x007FFFFF"

definition packToF32UI :: "bool \<Rightarrow> int \<Rightarrow> u64 \<Rightarrow> u64" where
  "packToF32UI sign e sig =
     ucast (push_bit 31 (of_bool sign :: u32) + push_bit 23 (word_of_int e :: u32)) + sig"

definition isNaNF32UI :: "u64 \<Rightarrow> bool" where
  "isNaNF32UI a \<longleftrightarrow> NOT a AND 0x7F800000 = 0 \<and> a AND 0x007FFFFF \<noteq> 0"

definition signF64UI :: "u64 \<Rightarrow> bool" where
  "signF64UI a \<longleftrightarrow> drop_bit 63 a \<noteq> 0"

definition expF64UI :: "u64 \<Rightarrow> int" where
  "expF64UI a = uint (drop_bit 52 a AND 0x7FF)"

definition fracF64UI :: "u64 \<Rightarrow> u64" where
  "fracF64UI a = a AND 0x000FFFFFFFFFFFFF"

definition packToF64UI :: "bool \<Rightarrow> int \<Rightarrow> u64 \<Rightarrow> u64" where
  "packToF64UI sign e sig = push_bit 63 (of_bool sign) + push_bit 52 (word_of_int e) + sig"

definition isNaNF64UI :: "u64 \<Rightarrow> bool" where
  "isNaNF64UI a \<longleftrightarrow> NOT a AND 0x7FF0000000000000 = 0 \<and> a AND 0x000FFFFFFFFFFFFF \<noteq> 0"

subsection \<open>NaNs of the 8086-SSE specialization\<close>

abbreviation (input) defaultNaNF32UI :: u64 where "defaultNaNF32UI \<equiv> 0xFFC00000"
abbreviation (input) defaultNaNF64UI :: u64 where "defaultNaNF64UI \<equiv> 0xFFF8000000000000"

definition softfloat_isSigNaNF32UI :: "u64 \<Rightarrow> bool" where
  "softfloat_isSigNaNF32UI uiA \<longleftrightarrow> uiA AND 0x7FC00000 = 0x7F800000 \<and> uiA AND 0x003FFFFF \<noteq> 0"

definition softfloat_isSigNaNF64UI :: "u64 \<Rightarrow> bool" where
  "softfloat_isSigNaNF64UI uiA \<longleftrightarrow>
     uiA AND 0x7FF8000000000000 = 0x7FF0000000000000 \<and> uiA AND 0x0007FFFFFFFFFFFF \<noteq> 0"

record commonNaN =
  cn_sign :: bool
  cn_v64 :: u64
  cn_v0 :: u64

definition softfloat_f32UIToCommonNaN :: "u64 \<Rightarrow> softfloat_state \<Rightarrow> commonNaN \<times> softfloat_state" where
  "softfloat_f32UIToCommonNaN uiA st =
     (let st = (if softfloat_isSigNaNF32UI uiA then softfloat_raiseFlags softfloat_flag_invalid st else st)
      in (\<lparr>cn_sign = drop_bit 31 uiA \<noteq> 0, cn_v64 = push_bit 41 uiA, cn_v0 = 0\<rparr>, st))"

definition softfloat_commonNaNToF32UI :: "commonNaN \<Rightarrow> u64" where
  "softfloat_commonNaNToF32UI a =
     push_bit 31 (of_bool (cn_sign a)) OR 0x7FC00000 OR drop_bit 41 (cn_v64 a)"

definition softfloat_propagateNaNF32UI :: "u64 \<Rightarrow> u64 \<Rightarrow> softfloat_state \<Rightarrow> u64 \<times> softfloat_state" where
  "softfloat_propagateNaNF32UI uiA uiB st =
     (let isSigNaNA = softfloat_isSigNaNF32UI uiA;
          st' = (if isSigNaNA \<or> softfloat_isSigNaNF32UI uiB
                 then softfloat_raiseFlags softfloat_flag_invalid st else st)
      in if isSigNaNA then (uiA OR 0x00400000, st')
         else ((if isNaNF32UI uiA then uiA else uiB) OR 0x00400000, st'))"

definition softfloat_f64UIToCommonNaN :: "u64 \<Rightarrow> softfloat_state \<Rightarrow> commonNaN \<times> softfloat_state" where
  "softfloat_f64UIToCommonNaN uiA st =
     (let st = (if softfloat_isSigNaNF64UI uiA then softfloat_raiseFlags softfloat_flag_invalid st else st)
      in (\<lparr>cn_sign = drop_bit 63 uiA \<noteq> 0, cn_v64 = push_bit 12 uiA, cn_v0 = 0\<rparr>, st))"

definition softfloat_commonNaNToF64UI :: "commonNaN \<Rightarrow> u64" where
  "softfloat_commonNaNToF64UI a =
     push_bit 63 (of_bool (cn_sign a)) OR 0x7FF8000000000000 OR drop_bit 12 (cn_v64 a)"

definition softfloat_propagateNaNF64UI :: "u64 \<Rightarrow> u64 \<Rightarrow> softfloat_state \<Rightarrow> u64 \<times> softfloat_state" where
  "softfloat_propagateNaNF64UI uiA uiB st =
     (let isSigNaNA = softfloat_isSigNaNF64UI uiA;
          st' = (if isSigNaNA \<or> softfloat_isSigNaNF64UI uiB
                 then softfloat_raiseFlags softfloat_flag_invalid st else st)
      in if isSigNaNA then (uiA OR 0x0008000000000000, st')
         else ((if isNaNF64UI uiA then uiA else uiB) OR 0x0008000000000000, st'))"

subsection \<open>Fields as numbers\<close>

text \<open>Sign, exponent field, fraction field and magnitude code of a bit pattern.\<close>

definition f32_sign :: "u32 \<Rightarrow> bool" where "f32_sign a \<longleftrightarrow> 2 ^ 31 \<le> unat a"
definition f32_mag :: "u32 \<Rightarrow> nat" where "f32_mag a = unat a mod 2 ^ 31"
definition f64_sign :: "u64 \<Rightarrow> bool" where "f64_sign a \<longleftrightarrow> 2 ^ 63 \<le> unat a"
definition f64_mag :: "u64 \<Rightarrow> nat" where "f64_mag a = unat a mod 2 ^ 63"

text \<open>The value of a finite number, and the classes of the others.\<close>

definition sgn_val :: "bool \<Rightarrow> real \<Rightarrow> real" where
  "sgn_val s x = (if s then - x else x)"

definition f32_val :: "u32 \<Rightarrow> real" where
  "f32_val a = sgn_val (f32_sign a) (mval f32_fmt (f32_mag a))"

definition f64_val :: "u64 \<Rightarrow> real" where
  "f64_val a = sgn_val (f64_sign a) (mval f64_fmt (f64_mag a))"

definition f32_finite :: "u32 \<Rightarrow> bool" where "f32_finite a \<longleftrightarrow> f32_mag a < inf_code f32_fmt"
definition f32_isinf :: "u32 \<Rightarrow> bool" where "f32_isinf a \<longleftrightarrow> f32_mag a = inf_code f32_fmt"
definition f32_isnan :: "u32 \<Rightarrow> bool" where "f32_isnan a \<longleftrightarrow> inf_code f32_fmt < f32_mag a"
definition f64_finite :: "u64 \<Rightarrow> bool" where "f64_finite a \<longleftrightarrow> f64_mag a < inf_code f64_fmt"
definition f64_isinf :: "u64 \<Rightarrow> bool" where "f64_isinf a \<longleftrightarrow> f64_mag a = inf_code f64_fmt"
definition f64_isnan :: "u64 \<Rightarrow> bool" where "f64_isnan a \<longleftrightarrow> inf_code f64_fmt < f64_mag a"

lemma inf_code_f32: "inf_code f32_fmt = 0x7F800000"
  by (simp add: inf_code_def f32_fmt_def)

lemma inf_code_f64: "inf_code f64_fmt = 0x7FF0000000000000"
  by (simp add: inf_code_def f64_fmt_def)

text \<open>The pattern with a given sign and magnitude code.\<close>

definition f32_pack :: "bool \<Rightarrow> nat \<Rightarrow> u32" where
  "f32_pack s m = word_of_nat (of_bool s * 2 ^ 31 + m)"

definition f64_pack :: "bool \<Rightarrow> nat \<Rightarrow> u64" where
  "f64_pack s m = word_of_nat (of_bool s * 2 ^ 63 + m)"

lemma unat_f32_pack: "m < 2 ^ 31 \<Longrightarrow> unat (f32_pack s m) = of_bool s * 2 ^ 31 + m"
  unfolding f32_pack_def by (rule unat_word_of_nat) (simp add: of_bool_def)

lemma unat_f64_pack: "m < 2 ^ 63 \<Longrightarrow> unat (f64_pack s m) = of_bool s * 2 ^ 63 + m"
  unfolding f64_pack_def by (rule unat_word_of_nat) (simp add: of_bool_def)

lemma f32_pack_fields:
  assumes "m < 2 ^ 31"
  shows "f32_sign (f32_pack s m) = s" "f32_mag (f32_pack s m) = m"
  using assms by (cases s; simp add: f32_sign_def f32_mag_def unat_f32_pack mod_if)+

lemma f64_pack_fields:
  assumes "m < 2 ^ 63"
  shows "f64_sign (f64_pack s m) = s" "f64_mag (f64_pack s m) = m"
  using assms by (cases s; simp add: f64_sign_def f64_mag_def unat_f64_pack mod_if)+

lemma split_top_bit:
  fixes n :: nat
  assumes "n < 2 * 2 ^ k"
  shows "n = of_bool (2 ^ k \<le> n) * 2 ^ k + n mod 2 ^ k"
  using assms by (auto simp: mod_if)

lemma f32_unat: "unat a = of_bool (f32_sign a) * 2 ^ 31 + f32_mag a"
  using split_top_bit [of "unat a" 31] unat_bound [of a] unfolding f32_sign_def f32_mag_def by simp

lemma f64_unat: "unat a = of_bool (f64_sign a) * 2 ^ 63 + f64_mag a"
  using split_top_bit [of "unat a" 63] unat_bound [of a] unfolding f64_sign_def f64_mag_def by simp

lemma f32_mag_less [simp]: "f32_mag a < 2 ^ 31"
  by (simp add: f32_mag_def)

lemma f64_mag_less [simp]: "f64_mag a < 2 ^ 63"
  by (simp add: f64_mag_def)

lemma f32_pack_eq [simp]: "f32_pack (f32_sign a) (f32_mag a) = a"
  by (simp only: word_unat_eq_iff unat_f32_pack f32_mag_less f32_unat [symmetric])

lemma f64_pack_eq [simp]: "f64_pack (f64_sign a) (f64_mag a) = a"
  by (simp only: word_unat_eq_iff unat_f64_pack f64_mag_less f64_unat [symmetric])

subsection \<open>What the macros read and write\<close>

lemma unat_ucast32 [nat_of_word]: "unat (ucast (a :: u32) :: u64) = unat a"
  using unat_bound [of a] by (simp add: unsigned_ucast_eq take_bit_nat_eq_self)

lemma unat_ucast_down32: "unat (ucast (a :: u64) :: u32) = unat a mod 2 ^ 32"
  by (simp only: unsigned_ucast_eq) (simp add: take_bit_eq_mod)

lemma drop_bit_neq_0: "drop_bit n w \<noteq> 0 \<longleftrightarrow> 2 ^ n \<le> unat w" for w :: "'a::len word"
  by (simp only: unat_eq_0 [symmetric] unat_drop_bit) (simp add: div_eq_0_iff not_less)

lemma ucast_down_up [simp]: "ucast (ucast (a :: u32) :: u64) = a"
  by (simp only: word_unat_eq_iff unat_ucast_down32 unat_ucast32) (use unat_bound [of a] in simp)

lemma signF32UI_ucast: "signF32UI (ucast (a :: u32)) = f32_sign a"
  by (simp add: signF32UI_def f32_sign_def drop_bit_neq_0)

lemma expF32UI_ucast: "expF32UI (ucast (a :: u32)) = int (f32_mag a div 2 ^ 23)"
proof -
  have m: "(0xFF :: u64) = mask 8" by (simp add: mask_eq_exp_minus_1)
  show ?thesis
    by (simp only: expF32UI_def m uint_nat unat_and_mask nat_of_word f32_mag_def div_mod_pow2) simp
qed

lemma fracF32UI_ucast: "unat (fracF32UI (ucast (a :: u32))) = f32_mag a mod 2 ^ 23"
proof -
  have m: "(0x7FFFFF :: u64) = mask 23" by (simp add: mask_eq_exp_minus_1)
  show ?thesis
    by (simp only: fracF32UI_def m unat_and_mask nat_of_word f32_mag_def) (simp add: mod_mod_cancel)
qed

lemma signF64UI_eq: "signF64UI a = f64_sign a"
  by (simp add: signF64UI_def f64_sign_def drop_bit_neq_0)

lemma expF64UI_eq: "expF64UI a = int (f64_mag a div 2 ^ 52)"
proof -
  have m: "(0x7FF :: u64) = mask 11" by (simp add: mask_eq_exp_minus_1)
  show ?thesis
    by (simp only: expF64UI_def m uint_nat unat_and_mask nat_of_word f64_mag_def div_mod_pow2) simp
qed

lemma fracF64UI_eq: "unat (fracF64UI a) = f64_mag a mod 2 ^ 52"
proof -
  have m: "(0xFFFFFFFFFFFFF :: u64) = mask 52" by (simp add: mask_eq_exp_minus_1)
  show ?thesis
    by (simp only: fracF64UI_def m unat_and_mask nat_of_word f64_mag_def) (simp add: mod_mod_cancel)
qed

lemmas f32_fields = signF32UI_ucast expF32UI_ucast fracF32UI_ucast
lemmas f64_fields = signF64UI_eq expF64UI_eq fracF64UI_eq

lemma f32_exp_less: "f32_mag a div 2 ^ 23 < 256"
  using f32_mag_less [of a] by (simp add: less_mult_imp_div_less)

lemma f64_exp_less: "f64_mag a div 2 ^ 52 < 2048"
  using f64_mag_less [of a] by (simp add: less_mult_imp_div_less)

lemma packToF32UI_pack:
  assumes "0 \<le> e" "e \<le> 0xFF" "nat e * 2 ^ 23 + unat sig < 2 ^ 31"
  shows "ucast (packToF32UI s e sig) = f32_pack s (nat e * 2 ^ 23 + unat sig)"
proof -
  have e: "unat (word_of_int e :: u32) = nat e"
    using assms by (simp add: unat_word_of_int)
  have "unat (push_bit 31 (of_bool s :: u32)) = of_bool s * 2 ^ 31"
    by (cases s) simp_all
  moreover have "unat (push_bit 23 (word_of_int e :: u32)) = nat e * 2 ^ 23"
    using assms by (subst unat_push_bit) (simp_all add: e)
  ultimately have "unat (push_bit 31 (of_bool s :: u32) + push_bit 23 (word_of_int e :: u32))
      = of_bool s * 2 ^ 31 + nat e * 2 ^ 23"
    using assms by (subst unat_plus) (simp_all add: of_bool_def)
  then have "unat (packToF32UI s e sig) = of_bool s * 2 ^ 31 + (nat e * 2 ^ 23 + unat sig)"
    unfolding packToF32UI_def using assms by (subst unat_plus) (simp_all add: nat_of_word of_bool_def)
  then show ?thesis
    using assms(3) by (simp only: word_unat_eq_iff unat_ucast_down32 unat_f32_pack) (simp add: of_bool_def)
qed

lemma packToF64UI_pack:
  assumes "0 \<le> e" "e \<le> 0x7FF" "nat e * 2 ^ 52 + unat sig < 2 ^ 63"
  shows "packToF64UI s e sig = f64_pack s (nat e * 2 ^ 52 + unat sig)"
proof -
  have e: "unat (word_of_int e :: u64) = nat e"
    using assms by (simp add: unat_word_of_int)
  have "unat (push_bit 63 (of_bool s :: u64)) = of_bool s * 2 ^ 63"
    by (cases s) simp_all
  moreover have "unat (push_bit 52 (word_of_int e :: u64)) = nat e * 2 ^ 52"
    using assms by (subst unat_push_bit) (simp_all add: e)
  ultimately have "unat (push_bit 63 (of_bool s :: u64) + push_bit 52 (word_of_int e :: u64))
      = of_bool s * 2 ^ 63 + nat e * 2 ^ 52"
    using assms by (subst unat_plus) (simp_all add: of_bool_def)
  then have "unat (packToF64UI s e sig) = of_bool s * 2 ^ 63 + (nat e * 2 ^ 52 + unat sig)"
    unfolding packToF64UI_def using assms by (subst unat_plus) (simp_all add: of_bool_def)
  then show ?thesis
    using assms(3) by (simp only: word_unat_eq_iff unat_f64_pack)
qed

subsection \<open>Classes of operands\<close>

definition f32_issnan :: "u32 \<Rightarrow> bool" where
  "f32_issnan a \<longleftrightarrow> f32_isnan a \<and> f32_mag a div 2 ^ 22 mod 2 = 0"

lemma code_classes:
  fixes m E P :: nat
  assumes "m div 2 ^ P < E + 1"
  shows "m < E * 2 ^ P \<longleftrightarrow> m div 2 ^ P \<noteq> E"
    and "m = E * 2 ^ P \<longleftrightarrow> m div 2 ^ P = E \<and> m mod 2 ^ P = 0"
    and "E * 2 ^ P < m \<longleftrightarrow> m div 2 ^ P = E \<and> m mod 2 ^ P \<noteq> 0"
proof -
  have less: "m < E * 2 ^ P \<longleftrightarrow> m div 2 ^ P < E" by (simp add: div_less_iff_less_mult)
  then show lt: "m < E * 2 ^ P \<longleftrightarrow> m div 2 ^ P \<noteq> E" using assms by auto
  show eq: "m = E * 2 ^ P \<longleftrightarrow> m div 2 ^ P = E \<and> m mod 2 ^ P = 0"
    using div_mult_mod_eq [of m "2 ^ P"] by auto
  show "E * 2 ^ P < m \<longleftrightarrow> m div 2 ^ P = E \<and> m mod 2 ^ P \<noteq> 0"
    using lt eq by (metis linorder_neqE_nat less_asym)
qed

lemma f32_classes:
  "f32_finite a \<longleftrightarrow> f32_mag a div 2 ^ 23 \<noteq> 0xFF"
  "f32_isinf a \<longleftrightarrow> f32_mag a div 2 ^ 23 = 0xFF \<and> f32_mag a mod 2 ^ 23 = 0"
  "f32_isnan a \<longleftrightarrow> f32_mag a div 2 ^ 23 = 0xFF \<and> f32_mag a mod 2 ^ 23 \<noteq> 0"
proof -
  have inf: "inf_code f32_fmt = 0xFF * 2 ^ 23" by (simp add: inf_code_def)
  have e: "f32_mag a div 2 ^ 23 < 0xFF + 1" using f32_exp_less [of a] by simp
  show "f32_finite a \<longleftrightarrow> f32_mag a div 2 ^ 23 \<noteq> 0xFF"
    "f32_isinf a \<longleftrightarrow> f32_mag a div 2 ^ 23 = 0xFF \<and> f32_mag a mod 2 ^ 23 = 0"
    "f32_isnan a \<longleftrightarrow> f32_mag a div 2 ^ 23 = 0xFF \<and> f32_mag a mod 2 ^ 23 \<noteq> 0"
    unfolding f32_finite_def f32_isinf_def f32_isnan_def inf using code_classes [OF e] by blast+
qed

lemma f32_mag_field: "n + k \<le> 31 \<Longrightarrow> unat a div 2 ^ n mod 2 ^ k = f32_mag a div 2 ^ n mod 2 ^ k"
  by (simp only: f32_mag_def div_mod_pow2 mod_mod_pow2)

lemma isNaNF32UI_isnan: "isNaNF32UI (ucast (a :: u32)) \<longleftrightarrow> f32_isnan a"
proof -
  have M: "(0x7F800000 :: u64) = push_bit 23 (mask 8)" "(0x7FFFFF :: u64) = mask 23"
    by (simp_all add: mask_eq_exp_minus_1)
  have "f32_mag a div 2 ^ 23 < 2 ^ 8" using f32_exp_less [of a] by simp
  then have e: "f32_mag a div 2 ^ 23 mod 2 ^ 8 = f32_mag a div 2 ^ 23" by (rule mod_less)
  have uA: "unat (ucast a :: u64) div 2 ^ 23 mod 2 ^ 8 = f32_mag a div 2 ^ 23" "unat (ucast a :: u64) mod 2 ^ 23 = f32_mag a mod 2 ^ 23"
    using f32_mag_field [of 23 8 a] f32_mag_field [of 0 23 a] unfolding unat_ucast32 e by simp_all
  have "unat (w AND push_bit 23 (mask 8)) = unat w div 2 ^ 23 mod 2 ^ 8 * 2 ^ 23" for w :: u64
    by (rule unat_and_field) simp
  moreover have "unat (push_bit 23 (mask 8) :: u64) = 0xFF * 2 ^ 23" by (simp add: mask_eq_exp_minus_1)
  ultimately have "ucast a AND push_bit 23 (mask 8) = (push_bit 23 (mask 8) :: u64) \<longleftrightarrow> f32_mag a div 2 ^ 23 = 0xFF"
    by (simp only: word_unat_eq_iff uA) simp
  moreover have "(ucast a :: u64) AND mask 23 \<noteq> 0 \<longleftrightarrow> f32_mag a mod 2 ^ 23 \<noteq> 0"
    by (simp only: unat_eq_0 [symmetric] unat_and_mask uA)
  ultimately show ?thesis
    unfolding isNaNF32UI_def not_and_eq_0 M f32_classes(3) by blast
qed

definition f64_issnan :: "u64 \<Rightarrow> bool" where
  "f64_issnan a \<longleftrightarrow> f64_isnan a \<and> f64_mag a div 2 ^ 51 mod 2 = 0"

lemma f64_classes:
  "f64_finite a \<longleftrightarrow> f64_mag a div 2 ^ 52 \<noteq> 0x7FF"
  "f64_isinf a \<longleftrightarrow> f64_mag a div 2 ^ 52 = 0x7FF \<and> f64_mag a mod 2 ^ 52 = 0"
  "f64_isnan a \<longleftrightarrow> f64_mag a div 2 ^ 52 = 0x7FF \<and> f64_mag a mod 2 ^ 52 \<noteq> 0"
proof -
  have inf: "inf_code f64_fmt = 0x7FF * 2 ^ 52" by (simp add: inf_code_def)
  have e: "f64_mag a div 2 ^ 52 < 0x7FF + 1" using f64_exp_less [of a] by simp
  show "f64_finite a \<longleftrightarrow> f64_mag a div 2 ^ 52 \<noteq> 0x7FF"
    "f64_isinf a \<longleftrightarrow> f64_mag a div 2 ^ 52 = 0x7FF \<and> f64_mag a mod 2 ^ 52 = 0"
    "f64_isnan a \<longleftrightarrow> f64_mag a div 2 ^ 52 = 0x7FF \<and> f64_mag a mod 2 ^ 52 \<noteq> 0"
    unfolding f64_finite_def f64_isinf_def f64_isnan_def inf using code_classes [OF e] by blast+
qed

lemma f64_mag_field: "n + k \<le> 63 \<Longrightarrow> unat a div 2 ^ n mod 2 ^ k = f64_mag a div 2 ^ n mod 2 ^ k"
  by (simp only: f64_mag_def div_mod_pow2 mod_mod_pow2)

lemma isNaNF64UI_isnan: "isNaNF64UI a \<longleftrightarrow> f64_isnan a"
proof -
  have M: "(0x7FF0000000000000 :: u64) = push_bit 52 (mask 11)" "(0xFFFFFFFFFFFFF :: u64) = mask 52"
    by (simp_all add: mask_eq_exp_minus_1)
  have "f64_mag a div 2 ^ 52 < 2 ^ 11" using f64_exp_less [of a] by simp
  then have e: "f64_mag a div 2 ^ 52 mod 2 ^ 11 = f64_mag a div 2 ^ 52" by (rule mod_less)
  have uA: "unat a div 2 ^ 52 mod 2 ^ 11 = f64_mag a div 2 ^ 52" "unat a mod 2 ^ 52 = f64_mag a mod 2 ^ 52"
    using f64_mag_field [of 52 11 a] f64_mag_field [of 0 52 a] unfolding e by simp_all
  have "unat (w AND push_bit 52 (mask 11)) = unat w div 2 ^ 52 mod 2 ^ 11 * 2 ^ 52" for w :: u64
    by (rule unat_and_field) simp
  moreover have "unat (push_bit 52 (mask 11) :: u64) = 0x7FF * 2 ^ 52" by (simp add: mask_eq_exp_minus_1)
  ultimately have "a AND push_bit 52 (mask 11) = (push_bit 52 (mask 11) :: u64) \<longleftrightarrow> f64_mag a div 2 ^ 52 = 0x7FF"
    by (simp only: word_unat_eq_iff uA) simp
  moreover have "a AND mask 52 \<noteq> 0 \<longleftrightarrow> f64_mag a mod 2 ^ 52 \<noteq> 0"
    by (simp only: unat_eq_0 [symmetric] unat_and_mask uA)
  ultimately show ?thesis
    unfolding isNaNF64UI_def not_and_eq_0 M f64_classes(3) by blast
qed

lemma f32_isnan_exp9:
  "f32_issnan a \<longleftrightarrow> f32_mag a div 2 ^ 22 = 0x1FE \<and> f32_mag a mod 2 ^ 22 \<noteq> 0"
proof -
  define q r where "q = f32_mag a div 2 ^ 22" and "r = f32_mag a mod 2 ^ 22"
  have "f32_mag a div 2 ^ 23 = q div 2" by (simp add: q_def flip: div_mult2_eq)
  moreover have "f32_mag a mod 2 ^ 23 = 2 ^ 22 * (q mod 2) + r"
    using mod_mult2_eq [of "f32_mag a" "2 ^ 22" 2] by (simp add: q_def r_def)
  ultimately show ?thesis
    unfolding f32_issnan_def f32_classes(3) q_def [symmetric] r_def [symmetric] by auto
qed

lemma softfloat_isSigNaNF32UI_issnan: "softfloat_isSigNaNF32UI (ucast (a :: u32)) \<longleftrightarrow> f32_issnan a"
proof -
  have M: "(0x7FC00000 :: u64) = push_bit 22 (mask 9)" "(0x3FFFFF :: u64) = mask 22"
    by (simp_all add: mask_eq_exp_minus_1)
  have "f32_mag a div 2 ^ 22 < 2 ^ 9" using f32_mag_less [of a] by (simp add: less_mult_imp_div_less)
  then have e: "f32_mag a div 2 ^ 22 mod 2 ^ 9 = f32_mag a div 2 ^ 22" by (rule mod_less)
  have uA: "unat (ucast a :: u64) div 2 ^ 22 mod 2 ^ 9 = f32_mag a div 2 ^ 22"
    "unat (ucast a :: u64) mod 2 ^ 22 = f32_mag a mod 2 ^ 22"
    using f32_mag_field [of 22 9 a] f32_mag_field [of 0 22 a] unfolding unat_ucast32 e by simp_all
  have "unat (w AND push_bit 22 (mask 9)) = unat w div 2 ^ 22 mod 2 ^ 9 * 2 ^ 22" for w :: u64
    by (rule unat_and_field) simp
  then have "ucast a AND push_bit 22 (mask 9) = (0x7F800000 :: u64) \<longleftrightarrow> f32_mag a div 2 ^ 22 = 0x1FE"
    by (simp only: word_unat_eq_iff uA) simp
  moreover have "(ucast a :: u64) AND mask 22 \<noteq> 0 \<longleftrightarrow> f32_mag a mod 2 ^ 22 \<noteq> 0"
    by (simp only: unat_eq_0 [symmetric] unat_and_mask uA)
  ultimately show ?thesis
    unfolding softfloat_isSigNaNF32UI_def M f32_isnan_exp9 by blast
qed

text \<open>
  What an operation with a NaN operand delivers: the first NaN operand, made quiet, with the
  invalid exception when an operand is a signalling NaN.
\<close>

definition f32_nan_result :: "u32 \<Rightarrow> u32 \<Rightarrow> softfloat_state \<Rightarrow> u32 \<times> softfloat_state" where
  "f32_nan_result a b st =
     ((if f32_isnan a then a else b) OR 0x00400000,
      if f32_issnan a \<or> f32_issnan b then softfloat_raiseFlags softfloat_flag_invalid st else st)"

theorem softfloat_propagateNaNF32UI_result:
  "(case softfloat_propagateNaNF32UI (ucast a) (ucast b) st of (uiZ, st') \<Rightarrow> (ucast uiZ, st')) = f32_nan_result a b st"
proof -
  have "ucast (ucast c OR 0x00400000 :: u64) = (c OR 0x00400000)" for c :: u32
    by (rule bit_eqI) (simp add: bit_simps unsigned_or_eq)
  then show ?thesis
    by (simp add: softfloat_propagateNaNF32UI_def f32_nan_result_def Let_def isNaNF32UI_isnan
        softfloat_isSigNaNF32UI_issnan f32_issnan_def)
qed

lemma f32_nan_result_quiet:
  assumes "f32_isnan a \<or> f32_isnan b"
  shows "f32_isnan (fst (f32_nan_result a b st)) \<and> \<not> f32_issnan (fst (f32_nan_result a b st))"
proof -
  define c where "c = (if f32_isnan a then a else b)"
  have c: "f32_isnan c" using assms by (auto simp: c_def)
  define q r where "q = f32_mag c div 2 ^ 22" and "r = f32_mag c mod 2 ^ 22"
  have m: "f32_mag c = q * 2 ^ 22 + r" "r < 2 ^ 22" by (simp_all add: q_def r_def div_mult_mod_eq)
  have "f32_mag c div 2 ^ 23 = q div 2" by (simp add: q_def flip: div_mult2_eq)
  then have q: "q = 0x1FE \<or> q = 0x1FF" using c by (simp add: f32_classes) linarith
  have "unat c div 2 ^ 22 mod 2 ^ 1 = q mod 2 ^ 1" unfolding q_def by (rule f32_mag_field) simp
  then have ev: "even (unat c div 2 ^ 22) \<longleftrightarrow> even q" by (simp add: even_iff_mod_2_eq_zero)
  have "unat (c OR 2 ^ 22) = unat c + of_bool (even q) * 2 ^ 22"
    unfolding ev [symmetric] by (rule unat_or_bit_cases) simp
  also have "\<dots> = of_bool (f32_sign c) * 2 ^ 31 + (0x1FF * 2 ^ 22 + r)"
    using q by (auto simp: f32_unat [of c] m(1))
  finally have z: "f32_mag (c OR 2 ^ 22) = 0x1FF * 2 ^ 22 + r"
    using m(2) unfolding f32_mag_def by (auto simp: of_bool_def)
  have d: "f32_mag (c OR 2 ^ 22) div 2 ^ 22 = 0x1FF" unfolding z using m(2) by (intro div_nat_eqI) simp_all
  have "f32_isnan (c OR 2 ^ 22)" unfolding f32_isnan_def inf_code_f32 z by simp
  then have "f32_isnan (c OR 2 ^ 22) \<and> \<not> f32_issnan (c OR 2 ^ 22)" using d by (simp add: f32_issnan_def)
  then show ?thesis by (simp add: f32_nan_result_def c_def)
qed

lemma f64_isnan_exp9:
  "f64_issnan a \<longleftrightarrow> f64_mag a div 2 ^ 51 = 0xFFE \<and> f64_mag a mod 2 ^ 51 \<noteq> 0"
proof -
  define q r where "q = f64_mag a div 2 ^ 51" and "r = f64_mag a mod 2 ^ 51"
  have "f64_mag a div 2 ^ 52 = q div 2" by (simp add: q_def flip: div_mult2_eq)
  moreover have "f64_mag a mod 2 ^ 52 = 2 ^ 51 * (q mod 2) + r"
    using mod_mult2_eq [of "f64_mag a" "2 ^ 51" 2] by (simp add: q_def r_def)
  ultimately show ?thesis
    unfolding f64_issnan_def f64_classes(3) q_def [symmetric] r_def [symmetric] by auto
qed

lemma softfloat_isSigNaNF64UI_issnan: "softfloat_isSigNaNF64UI a \<longleftrightarrow> f64_issnan a"
proof -
  have M: "(0x7FF8000000000000 :: u64) = push_bit 51 (mask 12)" "(0x7FFFFFFFFFFFF :: u64) = mask 51"
    by (simp_all add: mask_eq_exp_minus_1)
  have "f64_mag a div 2 ^ 51 < 2 ^ 12" using f64_mag_less [of a] by (simp add: less_mult_imp_div_less)
  then have e: "f64_mag a div 2 ^ 51 mod 2 ^ 12 = f64_mag a div 2 ^ 51" by (rule mod_less)
  have uA: "unat a div 2 ^ 51 mod 2 ^ 12 = f64_mag a div 2 ^ 51"
    "unat a mod 2 ^ 51 = f64_mag a mod 2 ^ 51"
    using f64_mag_field [of 51 12 a] f64_mag_field [of 0 51 a] unfolding e by simp_all
  have "unat (w AND push_bit 51 (mask 12)) = unat w div 2 ^ 51 mod 2 ^ 12 * 2 ^ 51" for w :: u64
    by (rule unat_and_field) simp
  then have "a AND push_bit 51 (mask 12) = (0x7FF0000000000000 :: u64) \<longleftrightarrow> f64_mag a div 2 ^ 51 = 0xFFE"
    by (simp only: word_unat_eq_iff uA) simp
  moreover have "a AND mask 51 \<noteq> 0 \<longleftrightarrow> f64_mag a mod 2 ^ 51 \<noteq> 0"
    by (simp only: unat_eq_0 [symmetric] unat_and_mask uA)
  ultimately show ?thesis
    unfolding softfloat_isSigNaNF64UI_def M f64_isnan_exp9 by blast
qed

text \<open>
  What an operation with a NaN operand delivers: the first NaN operand, made quiet, with the
  invalid exception when an operand is a signalling NaN.
\<close>

definition f64_nan_result :: "u64 \<Rightarrow> u64 \<Rightarrow> softfloat_state \<Rightarrow> u64 \<times> softfloat_state" where
  "f64_nan_result a b st =
     ((if f64_isnan a then a else b) OR 0x0008000000000000,
      if f64_issnan a \<or> f64_issnan b then softfloat_raiseFlags softfloat_flag_invalid st else st)"

theorem softfloat_propagateNaNF64UI_result:
  "(case softfloat_propagateNaNF64UI a b st of (uiZ, st') \<Rightarrow> (uiZ, st')) = f64_nan_result a b st"
proof -
  show ?thesis
    by (simp add: softfloat_propagateNaNF64UI_def f64_nan_result_def Let_def isNaNF64UI_isnan
        softfloat_isSigNaNF64UI_issnan f64_issnan_def)
qed

lemma f64_nan_result_quiet:
  assumes "f64_isnan a \<or> f64_isnan b"
  shows "f64_isnan (fst (f64_nan_result a b st)) \<and> \<not> f64_issnan (fst (f64_nan_result a b st))"
proof -
  define c where "c = (if f64_isnan a then a else b)"
  have c: "f64_isnan c" using assms by (auto simp: c_def)
  define q r where "q = f64_mag c div 2 ^ 51" and "r = f64_mag c mod 2 ^ 51"
  have m: "f64_mag c = q * 2 ^ 51 + r" "r < 2 ^ 51" by (simp_all add: q_def r_def div_mult_mod_eq)
  have "f64_mag c div 2 ^ 52 = q div 2" by (simp add: q_def flip: div_mult2_eq)
  then have q: "q = 0xFFE \<or> q = 0xFFF" using c by (simp add: f64_classes) linarith
  have "unat c div 2 ^ 51 mod 2 ^ 1 = q mod 2 ^ 1" unfolding q_def by (rule f64_mag_field) simp
  then have ev: "even (unat c div 2 ^ 51) \<longleftrightarrow> even q" by (simp add: even_iff_mod_2_eq_zero)
  have "unat (c OR 2 ^ 51) = unat c + of_bool (even q) * 2 ^ 51"
    unfolding ev [symmetric] by (rule unat_or_bit_cases) simp
  also have "\<dots> = of_bool (f64_sign c) * 2 ^ 63 + (0xFFF * 2 ^ 51 + r)"
    using q by (auto simp: f64_unat [of c] m(1))
  finally have z: "f64_mag (c OR 2 ^ 51) = 0xFFF * 2 ^ 51 + r"
    using m(2) unfolding f64_mag_def by (auto simp: of_bool_def)
  have d: "f64_mag (c OR 2 ^ 51) div 2 ^ 51 = 0xFFF" unfolding z using m(2) by (intro div_nat_eqI) simp_all
  have "f64_isnan (c OR 2 ^ 51)" unfolding f64_isnan_def inf_code_f64 z by simp
  then have "f64_isnan (c OR 2 ^ 51) \<and> \<not> f64_issnan (c OR 2 ^ 51)" using d by (simp add: f64_issnan_def)
  then show ?thesis by (simp add: f64_nan_result_def c_def)
qed

end
