(* ===== verification/SF_RoundPack.thy ===== *)
theory SF_RoundPack
  imports SF_Formats
begin

text \<open>
  \<open>softfloat_roundPackToF32\<close>, \<open>softfloat_roundPackToF64\<close> and the normalising helpers around
  them (\<open>source/s_roundPackToF*.c\<close>, \<open>s_normRoundPackToF*.c\<close>, \<open>s_normSubnormalF*Sig.c\<close>). Both
  routines are the same algorithm at two widths; it is stated once on natural numbers
  (\<open>round_pack\<close>), shown to round correctly with the exceptions IEEE 754 asks for, and each
  routine is shown to compute it.
\<close>

subsection \<open>The algorithm on natural numbers\<close>

definition round_pack ::
  "format \<Rightarrow> nat \<Rightarrow> rmode \<Rightarrow> bool \<Rightarrow> bool \<Rightarrow> int \<Rightarrow> nat \<Rightarrow> nat \<times> fp_flags" where
  "round_pack fmt R rm before s e n =
     (let F = fracbits fmt; top = 2 ^ (F + 1 + R); carry = (top \<le> n + rnd_inc rm s R)
      in if e < 0 then
           (let k = nat (rodd (real n / 2 ^ nat (- e)));
                lost = (k mod 2 ^ R \<noteq> 0)
            in (rnd_shift rm s R k, Flags lost ((before \<or> e < - 1 \<or> \<not> carry) \<and> lost) False))
         else if 2 ^ expbits fmt - 3 < e \<or> e = 2 ^ expbits fmt - 3 \<and> carry
         then (overflow_mag fmt rm s, Flags True False True)
         else (nat e * 2 ^ F + rnd_shift rm s R n, Flags (n mod 2 ^ R \<noteq> 0) False False))"

lemma rnd_shift_less_even:
  fixes Q :: nat
  shows "rnd_shift rm s R n < 2 * Q \<longleftrightarrow> n + rnd_inc rm s R < 2 * Q * 2 ^ R"
proof -
  define q where "q = (n + rnd_inc rm s R) div 2 ^ R"
  have or1: "q OR 1 = q + of_bool (even q)" by (rule or_one_eq)
  have "(q OR 1 < 2 * Q) = (q < 2 * Q)" "(q - q mod 2 < 2 * Q) = (q < 2 * Q)"
    unfolding or1 by (simp_all add: of_bool_def) presburger+
  moreover have "rnd_shift rm s R n \<in> {q OR 1, q - q mod 2, q}"
    by (simp only: rnd_shift_def q_def Let_def) simp
  moreover have "q < 2 * Q \<longleftrightarrow> n + rnd_inc rm s R < 2 * Q * 2 ^ R"
    by (simp add: q_def div_less_iff_less_mult)
  ultimately show ?thesis by auto
qed

lemma rodd_less_even:
  assumes "y < of_int N" "even N"
  shows "rodd y < N"
proof -
  have "\<lfloor>y\<rfloor> < N" using assms(1) by (simp add: floor_less_iff)
  then show ?thesis using assms(2) by (cases "\<lfloor>y\<rfloor> = N - 1") (auto simp: rodd_alt)
qed

lemma rodd_div_less:
  fixes n N i :: nat
  assumes "n < N" "even N"
  shows "rodd (real n / 2 ^ i) < int N"
proof (rule rodd_less_even)
  have "real n / 2 ^ i \<le> real n / 1" by (intro divide_left_mono) simp_all
  also have "\<dots> < of_int (int N)" using assms(1) by simp
  finally show "real n / 2 ^ i < of_int (int N)" .
  show "even (int N)" using assms(2) by simp
qed

lemma rodd_ge: "of_int N \<le> y \<Longrightarrow> N \<le> rodd y"
  by (simp add: rodd_def rint_ge_of_int)

context float_format
begin

text \<open>Is the rounded number exact? It is when the scaled one is an integer.\<close>

lemma round_mag_scaled_exact:
  assumes "2 ^ F \<le> y \<or> e = 0 \<and> 0 \<le> y" and "y < 2 * 2 ^ F"
  shows "mval fmt (round_mag fmt rm s (y * pow2 (ulp_exp fmt e))) = y * pow2 (ulp_exp fmt e)
         \<longleftrightarrow> y \<in> \<int>"
proof -
  have y: "0 \<le> y" using assms(1) by (meson order_trans zero_le_numeral zero_le_power)
  then have nn: "0 \<le> rint rm s y" by (rule rint_nonneg)
  have "of_int (2 ^ F) \<le> y \<Longrightarrow> 2 ^ F \<le> rint rm s y" by (rule rint_ge_of_int)
  then have "2 ^ F \<le> rint rm s y \<or> e = 0" using assms(1) by auto
  then have lo: "2 ^ F \<le> nat (rint rm s y) \<or> e = 0" by (simp add: nat_le_iff le_nat_iff nn)
  have "y \<le> of_int (2 * 2 ^ F)" using assms(2) by simp
  then have "rint rm s y \<le> 2 * 2 ^ F" by (rule rint_le_of_int)
  then have hi: "nat (rint rm s y) \<le> 2 * 2 ^ F" by (simp add: nat_le_iff)
  have "mval fmt (round_mag fmt rm s (y * pow2 (ulp_exp fmt e))) = of_int (rint rm s y) * pow2 (ulp_exp fmt e)"
    using lo hi nn by (simp add: round_mag_scaled [OF assms] mval_code)
  then show ?thesis by (auto elim!: Ints_cases) (metis Ints_of_int)
qed

lemma three_pow_le_inf_code: "3 * 2 ^ F \<le> inf_code fmt"
proof -
  have "(2 :: nat) ^ 2 \<le> 2 ^ expbits fmt" using exp_ge_2 by (rule power_increasing) simp
  then show ?thesis by (simp add: inf_code_def)
qed

text \<open>Correct rounding, scaled by the unit in the last place: below and above the least normal number.\<close>

lemma ieee_round_subnormal:
  assumes y: "0 \<le> y" "y < 2 ^ F"
  shows "ieee_round fmt rm before s (y * pow2 (ulp_exp fmt 0)) =
         (nat (rint rm s y),
          Flags (y \<notin> \<int>) (y \<notin> \<int> \<and> (before \<or> rint rm s (2 * y) < 2 * 2 ^ F)) False)"
proof -
  let ?x = "y * pow2 (ulp_exp fmt 0)"
  have m: "round_mag fmt rm s ?x = nat (rint rm s y)"
    using y round_mag_scaled [of y 0 rm s] by simp
  have exact: "mval fmt (nat (rint rm s y)) = ?x \<longleftrightarrow> y \<in> \<int>"
    using y round_mag_scaled_exact [of y 0 rm s] by (simp add: m)
  have "rint rm s y \<le> int (2 ^ F)" using y by (intro rint_le_of_int) simp
  then have "nat (rint rm s y) \<le> 2 ^ F" by (simp only: nat_le_iff)
  then have fin: "\<not> inf_code fmt \<le> nat (rint rm s y)"
    using three_pow_le_inf_code zero_less_power [of "2 :: nat" F] by linarith
  have "mval fmt (2 ^ F) = 2 ^ F * pow2 (ulp_exp fmt 0)" using mval_code [of "2 ^ F" 0] by simp
  then have "?x < mval fmt (2 ^ F)" using y by simp
  moreover have "round_mag fmt rm s (2 * ?x) = nat (rint rm s (2 * y))"
    using y round_mag_scaled [of "2 * y" 0 rm s] by (simp add: mult.assoc)
  ultimately have "is_tiny fmt rm before s ?x \<longleftrightarrow> before \<or> rint rm s (2 * y) < 2 * 2 ^ F"
    by (simp add: is_tiny_def nat_less_iff rint_nonneg y)
  then show ?thesis by (simp add: ieee_round_def m exact fin)
qed

lemma ieee_round_normal:
  assumes y: "2 ^ F \<le> y" "y < 2 * 2 ^ F"
  shows "ieee_round fmt rm before s (y * pow2 (ulp_exp fmt e)) =
         (if inf_code fmt \<le> e * 2 ^ F + nat (rint rm s y)
          then (overflow_mag fmt rm s, Flags True False True)
          else (e * 2 ^ F + nat (rint rm s y), Flags (y \<notin> \<int>) False False))"
proof -
  let ?x = "y * pow2 (ulp_exp fmt e)"
  have m: "round_mag fmt rm s ?x = e * 2 ^ F + nat (rint rm s y)"
    using y round_mag_scaled [of y e rm s] by simp
  have exact: "mval fmt (e * 2 ^ F + nat (rint rm s y)) = ?x \<longleftrightarrow> y \<in> \<int>"
    using y round_mag_scaled_exact [of y e rm s] by (simp add: m)
  have "mval fmt (2 ^ F) = 2 ^ F * pow2 (ulp_exp fmt 0)" using mval_code [of "2 ^ F" 0] by simp
  also have "\<dots> \<le> y * pow2 (ulp_exp fmt e)"
    using y by (intro mult_mono) (simp_all add: ulp_exp_def)
  finally have "\<not> is_tiny fmt rm before s ?x" by (simp add: is_tiny_def)
  then show ?thesis by (simp add: ieee_round_def m exact)
qed

lemma round_pack_small:
  assumes R: "2 \<le> R" and r: "0 \<le> r" "r < 2 ^ (F + 1 + R)" and n: "agree (R - 1) (real n) r" and i: "0 < i"
  shows "round_pack fmt R rm before s (- int i) n =
         ieee_round fmt rm before s (r / 2 ^ i / 2 ^ R * pow2 (ulp_exp fmt 0))"
proof -
  define y where "y = r / 2 ^ i / 2 ^ R"
  define k where "k = nat (rodd (real n / 2 ^ i))"
  have Suc: "Suc (R - 1) = R" "0 < R - 1" using R by simp_all
  have "0 \<le> rodd (real n / 2 ^ i)" by (rule rodd_ge) simp
  then have "agree (R - 1) (real k) (real n / 2 ^ i)"
    using agree_rodd [OF Suc(2), of "real n / 2 ^ i"] by (simp add: k_def)
  then have k: "agree (R - 1) (real k) (r / 2 ^ i)"
    using agree_div [OF n] by (rule agree_trans)
  have r': "r < 2 ^ R * 2 ^ F * 2" using r(2) by (simp add: power_add mult_ac)
  also have "\<dots> \<le> 2 ^ R * 2 ^ F * 2 ^ i" using i by (cases i) simp_all
  finally have y: "0 \<le> y" "y < 2 ^ F" using r by (simp_all add: y_def pos_divide_less_eq mult_ac)
  have rint: "rint rm s y = int (rnd_shift rm s R k)"
    using rint_agree [OF k, of rm s] rint_rnd_shift [of R rm s k] R by (simp only: Suc y_def)
  have lost: "y \<in> \<int> \<longleftrightarrow> k mod 2 ^ R = 0"
    using agree_mono [OF k, of R] by (simp add: agree_def y_def Ints_nat_div_pow2)
  have tiny: "rint rm s (2 * y) < 2 * 2 ^ F \<longleftrightarrow> 1 < i \<or> \<not> 2 ^ (F + 1 + R) \<le> n + rnd_inc rm s R"
  proof (cases "i = 1")
    case True
    then have "rint rm s (2 * y) = int (rnd_shift rm s R n)"
      using rint_agree [OF n, of rm s] rint_rnd_shift [of R rm s n] R by (simp add: Suc y_def)
    then have "rint rm s (2 * y) < 2 * 2 ^ F \<longleftrightarrow> rnd_shift rm s R n < 2 * 2 ^ F"
      by (simp flip: of_nat_less_iff [where 'a = int])
    then show ?thesis using True rnd_shift_less_even [of rm s R n "2 ^ F"] by (simp add: power_add not_le mult.assoc)
  next
    case False
    then obtain l where l: "i = Suc (Suc l)" using i by (cases i; cases "i - 1") auto
    have "r < 2 ^ R * 2 ^ F * 2" by (rule r')
    also have "\<dots> \<le> 2 ^ R * 2 ^ F * 2 ^ Suc l" by simp
    finally have "2 * y \<le> of_int (2 ^ F)" by (simp add: y_def l pos_divide_le_eq mult_ac)
    then have "rint rm s (2 * y) \<le> 2 ^ F" by (rule rint_le_of_int)
    also have "(2 :: int) ^ F < 2 * 2 ^ F" by simp
    finally show ?thesis using l by simp
  qed
  show ?thesis
    unfolding y_def [symmetric] ieee_round_subnormal [OF y] tiny lost rint
    using i unfolding round_pack_def Let_def by (simp add: k_def [symmetric] conj_commute)
qed

lemma pack_overflow_iff:
  fixes Q :: nat
  assumes "Q \<le> q" "q \<le> 2 * Q" "0 < Q"
  shows "(M + 3) * Q \<le> e * Q + q \<longleftrightarrow> M + 1 < e \<or> e = M + 1 \<and> q = 2 * Q"
proof -
  consider "e \<le> M" | "e = M + 1" | "M + 2 \<le> e" by linarith
  then show ?thesis
  proof cases
    case 1
    then have "e * Q \<le> M * Q" by simp
    with assms have "e * Q + q < (M + 3) * Q" by (simp only: distrib_right)
    with 1 show ?thesis by simp
  next
    case 2
    with assms show ?thesis by (auto simp: algebra_simps)
  next
    case 3
    then have "(M + 2) * Q \<le> e * Q" by (rule mult_right_mono) simp
    with 3 assms show ?thesis by (auto simp: algebra_simps)
  qed
qed

lemma round_pack_normal:
  assumes R: "2 \<le> R" and r: "2 ^ (F + R) \<le> r" "r < 2 ^ (F + 1 + R)" and n: "agree (R - 1) (real n) r"
  shows "round_pack fmt R rm before s (int e) n =
         ieee_round fmt rm before s (r / 2 ^ R * pow2 (ulp_exp fmt e))"
proof -
  define y where "y = r / 2 ^ R"
  have Suc: "Suc (R - 1) = R" using R by simp
  have y: "2 ^ F \<le> y" "y < 2 * 2 ^ F" using r by (simp_all add: y_def field_simps power_add)
  have rint: "rint rm s y = int (rnd_shift rm s R n)"
    using rint_agree [OF n, of rm s] rint_rnd_shift [of R rm s n] R by (simp only: Suc y_def)
  have lost: "y \<in> \<int> \<longleftrightarrow> n mod 2 ^ R = 0"
    using agree_mono [OF n, of R] by (simp add: agree_def y_def Ints_nat_div_pow2)
  let ?q = "rnd_shift rm s R n"
  have "int (2 ^ F) \<le> int ?q" "int ?q \<le> int (2 * 2 ^ F)"
    unfolding rint [symmetric] using y by (simp_all add: rint_ge_of_int rint_le_of_int)
  then have q: "2 ^ F \<le> ?q" "?q \<le> 2 * 2 ^ F" by (simp_all only: of_nat_le_iff)
  have carry: "?q < 2 * 2 ^ F \<longleftrightarrow> \<not> 2 ^ (F + 1 + R) \<le> n + rnd_inc rm s R"
    using rnd_shift_less_even [of rm s R n "2 ^ F"] by (simp add: power_add not_le mult.assoc)
  have E: "(4 :: nat) \<le> 2 ^ expbits fmt" using power_increasing [OF exp_ge_2, of "2 :: nat"] by simp
  obtain M where M: "2 ^ expbits fmt = M + (4 :: nat)" using E by (metis add.commute le_Suc_ex)
  then have Mi: "(2 :: int) ^ expbits fmt = int M + 4" by (metis of_nat_add of_nat_numeral of_nat_power)
  have inf: "inf_code fmt \<le> e * 2 ^ F + ?q \<longleftrightarrow> M + 1 < e \<or> e = M + 1 \<and> \<not> ?q < 2 * 2 ^ F"
    unfolding inf_code_def M using pack_overflow_iff [OF q, of M e] q by (simp add: add.commute [of 3])
  show ?thesis
    unfolding y_def [symmetric] ieee_round_normal [OF y] lost rint nat_int inf carry
    by (simp add: round_pack_def Let_def Mi)
qed

text \<open>
  The contract of the packing routines: \<open>r\<close> is the exact significand, scaled so that it has
  \<open>R\<close> bits below the last place; the routine gets a number that agrees with it above bit \<open>R - 1\<close>.
\<close>

theorem round_pack_correct:
  assumes R: "2 \<le> R" and r: "2 ^ (F + R) \<le> r \<or> e < 0 \<and> 0 \<le> r" "r < 2 ^ (F + 1 + R)"
    and n: "agree (R - 1) (real n) r"
  shows "round_pack fmt R rm before s e n = ieee_round fmt rm before s (r * pow2 (ulp_exp fmt 0 + e - int R))"
proof (cases "e < 0")
  case True
  then obtain i where i: "e = - int i" "0 < i" by (metis neg_int_cases)
  have "0 \<le> r" using r(1) by (meson order_trans zero_le_numeral zero_le_power)
  moreover have "r / 2 ^ i / 2 ^ R * pow2 (ulp_exp fmt 0) = r * pow2 (ulp_exp fmt 0 + e - int R)"
    by (simp add: i pow2_diff pow2_add power_int_minus field_simps)
  ultimately show ?thesis using round_pack_small [OF R _ r(2) _ i(2), of n] n by (simp add: i(1))
next
  case False
  then obtain i where i: "e = int i" by (metis nat_0_le not_le)
  have "r / 2 ^ R * pow2 (ulp_exp fmt i) = r * pow2 (ulp_exp fmt 0 + e - int R)"
    by (simp add: i ulp_exp_def pow2_diff pow2_add field_simps)
  then show ?thesis using round_pack_normal [OF R _ r(2), of n] r(1) n by (simp add: i)
qed

end

subsection \<open>Flags\<close>

definition flag_bits :: "fp_flags \<Rightarrow> u8" where
  "flag_bits fl =
     (if overflow fl then softfloat_flag_overflow else 0) OR
     (if underflow fl then softfloat_flag_underflow else 0) OR
     (if inexact fl then softfloat_flag_inexact else 0)"

lemma raiseFlags_raiseFlags [simp]:
  "softfloat_raiseFlags a (softfloat_raiseFlags b st) = softfloat_raiseFlags (b OR a) st"
  by (simp add: softfloat_raiseFlags_def or.assoc)

lemma raiseFlags_0 [simp]: "softfloat_raiseFlags 0 st = st"
  by (simp add: softfloat_raiseFlags_def)

lemma raiseFlags_modes [simp]:
  "softfloat_roundingMode (softfloat_raiseFlags a st) = softfloat_roundingMode st"
  "softfloat_detectTininess (softfloat_raiseFlags a st) = softfloat_detectTininess st"
  "softfloat_exceptionFlags (softfloat_raiseFlags a st) = softfloat_exceptionFlags st OR a"
  by (simp_all add: softfloat_raiseFlags_def)

abbreviation st_rmode :: "softfloat_state \<Rightarrow> rmode" where
  "st_rmode st \<equiv> sf_rmode (softfloat_roundingMode st)"

abbreviation st_before :: "softfloat_state \<Rightarrow> bool" where
  "st_before st \<equiv> softfloat_detectTininess st = softfloat_tininess_beforeRounding"

text \<open>
  Rounding the magnitude \<open>x\<close> of a result with sign \<open>s\<close> to each format, in the modes of the
  state: the delivered pattern and the state with the exceptions raised.
\<close>

definition f32_round :: "bool \<Rightarrow> real \<Rightarrow> softfloat_state \<Rightarrow> u32 \<times> softfloat_state" where
  "f32_round s x st =
     (case ieee_round f32_fmt (st_rmode st) (st_before st) s x of
        (m, fl) \<Rightarrow> (f32_pack s m, softfloat_raiseFlags (flag_bits fl) st))"

definition f64_round :: "bool \<Rightarrow> real \<Rightarrow> softfloat_state \<Rightarrow> u64 \<times> softfloat_state" where
  "f64_round s x st =
     (case ieee_round f64_fmt (st_rmode st) (st_before st) s x of
        (m, fl) \<Rightarrow> (f64_pack s m, softfloat_raiseFlags (flag_bits fl) st))"

subsection \<open>The routines\<close>

text \<open>The increment that \<open>softfloat_roundPackToF32\<close> chooses for a rounding mode and a sign.\<close>

definition roundPackToF32_inc :: "u8 \<Rightarrow> bool \<Rightarrow> u8" where
  "roundPackToF32_inc roundingMode sign =
     (let roundNearEven = (roundingMode = softfloat_round_near_even)
      in if \<not> roundNearEven \<and> roundingMode \<noteq> softfloat_round_near_maxMag
         then (if roundingMode = (if sign then softfloat_round_min else softfloat_round_max)
               then 0x7F else 0)
         else 0x40)"

text \<open>The common tail of \<open>softfloat_roundPackToF32\<close>, from the addition of the increment on.\<close>

definition roundPackToF32_finish ::
  "bool \<Rightarrow> u8 \<Rightarrow> u8 \<Rightarrow> int \<Rightarrow> u64 \<Rightarrow> u8 \<Rightarrow> softfloat_state \<Rightarrow> u32 \<times> softfloat_state" where
  "roundPackToF32_finish sign roundingMode roundIncrement e sig roundBits st =
     (let roundNearEven = (roundingMode = softfloat_round_near_even);
          sig = drop_bit 7 (sig + ucast roundIncrement);
          st = (if roundBits \<noteq> 0
                then st\<lparr>softfloat_exceptionFlags := softfloat_exceptionFlags st OR softfloat_flag_inexact\<rparr>
                else st)
      in if roundBits \<noteq> 0 \<and> roundingMode = softfloat_round_odd
         then (ucast (packToF32UI sign e (sig OR 1)), st)
         else let sig = sig AND NOT (of_bool (roundBits XOR 0x40 = 0 \<and> roundNearEven));
                  e = (if sig = 0 then 0 else e)
              in (ucast (packToF32UI sign e sig), st))"

definition softfloat_roundPackToF32 ::
  "bool \<Rightarrow> int \<Rightarrow> u64 \<Rightarrow> softfloat_state \<Rightarrow> u32 \<times> softfloat_state" where
  "softfloat_roundPackToF32 sign e sig st =
     (let roundingMode = softfloat_roundingMode st;
          roundIncrement = roundPackToF32_inc roundingMode sign;
          roundBits = ucast (sig AND 0x7F);
          finish = roundPackToF32_finish sign roundingMode roundIncrement
      in if 0xFD \<le> e mod 2 ^ 32 then
           if e < 0 then
             let isTiny = (softfloat_detectTininess st = softfloat_tininess_beforeRounding
                           \<or> e < - 1 \<or> sig + ucast roundIncrement < 0x80000000);
                 sig = ucast (softfloat_shiftRightJam32 (ucast sig) (word_of_int (- e)));
                 roundBits = ucast (sig AND 0x7F);
                 st = (if isTiny \<and> roundBits \<noteq> 0
                       then softfloat_raiseFlags softfloat_flag_underflow st else st)
             in finish 0 sig roundBits st
           else if 0xFD < e \<or> 0x80000000 \<le> sig + ucast roundIncrement then
             let st = softfloat_raiseFlags (softfloat_flag_overflow OR softfloat_flag_inexact) st
             in (ucast (packToF32UI sign 0xFF 0 - of_bool (roundIncrement = 0)), st)
           else finish e sig roundBits st
         else finish e sig roundBits st)"

text \<open>The increment that \<open>softfloat_roundPackToF64\<close> chooses for a rounding mode and a sign.\<close>

definition roundPackToF64_inc :: "u8 \<Rightarrow> bool \<Rightarrow> u64" where
  "roundPackToF64_inc roundingMode sign =
     (let roundNearEven = (roundingMode = softfloat_round_near_even)
      in if \<not> roundNearEven \<and> roundingMode \<noteq> softfloat_round_near_maxMag
         then (if roundingMode = (if sign then softfloat_round_min else softfloat_round_max)
               then 0x3FF else 0)
         else 0x200)"

text \<open>The common tail of \<open>softfloat_roundPackToF64\<close>, from the addition of the increment on.\<close>

definition roundPackToF64_finish ::
  "bool \<Rightarrow> u8 \<Rightarrow> u64 \<Rightarrow> int \<Rightarrow> u64 \<Rightarrow> u64 \<Rightarrow> softfloat_state \<Rightarrow> u64 \<times> softfloat_state" where
  "roundPackToF64_finish sign roundingMode roundIncrement e sig roundBits st =
     (let roundNearEven = (roundingMode = softfloat_round_near_even);
          sig = drop_bit 10 (sig + roundIncrement);
          st = (if roundBits \<noteq> 0
                then st\<lparr>softfloat_exceptionFlags := softfloat_exceptionFlags st OR softfloat_flag_inexact\<rparr>
                else st)
      in if roundBits \<noteq> 0 \<and> roundingMode = softfloat_round_odd
         then ((packToF64UI sign e (sig OR 1)), st)
         else let sig = sig AND NOT (of_bool (roundBits XOR 0x200 = 0 \<and> roundNearEven));
                  e = (if sig = 0 then 0 else e)
              in ((packToF64UI sign e sig), st))"

definition softfloat_roundPackToF64 ::
  "bool \<Rightarrow> int \<Rightarrow> u64 \<Rightarrow> softfloat_state \<Rightarrow> u64 \<times> softfloat_state" where
  "softfloat_roundPackToF64 sign e sig st =
     (let roundingMode = softfloat_roundingMode st;
          roundIncrement = roundPackToF64_inc roundingMode sign;
          roundBits = sig AND 0x3FF;
          finish = roundPackToF64_finish sign roundingMode roundIncrement
      in if 0x7FD \<le> e mod 2 ^ 16 then
           if e < 0 then
             let isTiny = (softfloat_detectTininess st = softfloat_tininess_beforeRounding
                           \<or> e < - 1 \<or> sig + roundIncrement < 0x8000000000000000);
                 sig = softfloat_shiftRightJam64 sig (word_of_int (- e));
                 roundBits = sig AND 0x3FF;
                 st = (if isTiny \<and> roundBits \<noteq> 0
                       then softfloat_raiseFlags softfloat_flag_underflow st else st)
             in finish 0 sig roundBits st
           else if 0x7FD < e \<or> 0x8000000000000000 \<le> sig + roundIncrement then
             let st = softfloat_raiseFlags (softfloat_flag_overflow OR softfloat_flag_inexact) st
             in ((packToF64UI sign 0x7FF 0 - of_bool (roundIncrement = 0)), st)
           else finish e sig roundBits st
         else finish e sig roundBits st)"


definition softfloat_normRoundPackToF32 ::
  "bool \<Rightarrow> int \<Rightarrow> u64 \<Rightarrow> softfloat_state \<Rightarrow> u32 \<times> softfloat_state" where
  "softfloat_normRoundPackToF32 sign e sig st =
     (let shiftDist = uint (softfloat_countLeadingZeros32 (ucast sig)) - 1;
          e = e - shiftDist
      in if 7 \<le> shiftDist \<and> e mod 2 ^ 32 < 0xFD
         then (ucast (packToF32UI sign (if sig \<noteq> 0 then e else 0) (push_bit (nat (shiftDist - 7)) sig)), st)
         else softfloat_roundPackToF32 sign e (push_bit (nat shiftDist) sig) st)"

definition softfloat_normSubnormalF32Sig :: "u64 \<Rightarrow> int \<times> u64" where
  "softfloat_normSubnormalF32Sig sig =
     (let shiftDist = uint (softfloat_countLeadingZeros32 (ucast sig)) - 8
      in (1 - shiftDist, push_bit (nat shiftDist) sig))"

definition softfloat_normRoundPackToF64 ::
  "bool \<Rightarrow> int \<Rightarrow> u64 \<Rightarrow> softfloat_state \<Rightarrow> u64 \<times> softfloat_state" where
  "softfloat_normRoundPackToF64 sign e sig st =
     (let shiftDist = uint (softfloat_countLeadingZeros64 sig) - 1;
          e = e - shiftDist
      in if 10 \<le> shiftDist \<and> e mod 2 ^ 32 < 0x7FD
         then ((packToF64UI sign (if sig \<noteq> 0 then e else 0) (push_bit (nat (shiftDist - 10)) sig)), st)
         else softfloat_roundPackToF64 sign e (push_bit (nat shiftDist) sig) st)"

definition softfloat_normSubnormalF64Sig :: "u64 \<Rightarrow> int \<times> u64" where
  "softfloat_normSubnormalF64Sig sig =
     (let shiftDist = uint (softfloat_countLeadingZeros64 sig) - 11
      in (1 - shiftDist, push_bit (nat shiftDist) sig))"


subsection \<open>They compute the algorithm\<close>

lemma rnd_shift_le:
  assumes "0 < R" "n \<le> 2 ^ (k + R)"
  shows "rnd_shift rm s R n \<le> 2 ^ k"
proof -
  have "real n \<le> real (2 ^ (k + R))" using assms(2) by (simp only: of_nat_le_iff)
  then have "real n / 2 ^ R \<le> of_int (2 ^ k)" by (simp add: power_add pos_divide_le_eq)
  then have "int (rnd_shift rm s R n) \<le> 2 ^ k"
    unfolding rint_rnd_shift [OF assms(1), symmetric] by (rule rint_le_of_int)
  then show ?thesis by (metis of_nat_le_iff of_nat_numeral of_nat_power)
qed

lemma sf_rmode_simps:
  "sf_rmode m = RNE \<longleftrightarrow> m = softfloat_round_near_even"
  "sf_rmode m = RDN \<longleftrightarrow> m = softfloat_round_min"
  "sf_rmode m = RUP \<longleftrightarrow> m = softfloat_round_max"
  "sf_rmode m = RMM \<longleftrightarrow> m = softfloat_round_near_maxMag"
  "sf_rmode m = ROD \<longleftrightarrow> m = softfloat_round_odd"
  by (auto simp: sf_rmode_def)

lemma overflow_mag_cases: "overflow_mag fmt rm s = inf_code fmt \<or> overflow_mag fmt rm s = inf_code fmt - 1"
  by (simp add: overflow_mag_def)

lemma rnd_inc_sf:
  "rnd_inc (sf_rmode m) s R =
     (if m \<noteq> softfloat_round_near_even \<and> m \<noteq> softfloat_round_near_maxMag
      then (if m = (if s then softfloat_round_min else softfloat_round_max) then 2 ^ R - 1 else 0)
      else 2 ^ (R - 1))"
  by (auto simp: rnd_inc_def sf_rmode_def)

lemma rnd_inc_less: "0 < R \<Longrightarrow> rnd_inc rm s R < 2 ^ R"
  by (simp add: rnd_inc_def split: rmode.split)

lemma rnd_shift_ge:
  assumes "0 < R" "2 ^ (k + R) \<le> n"
  shows "2 ^ k \<le> rnd_shift rm s R n"
proof -
  have "real (2 ^ (k + R)) \<le> real n" using assms(2) by (simp only: of_nat_le_iff)
  then have "of_int (2 ^ k) \<le> real n / 2 ^ R" by (simp add: power_add pos_le_divide_eq)
  then have "2 ^ k \<le> int (rnd_shift rm s R n)"
    unfolding rint_rnd_shift [OF assms(1), symmetric] by (rule rint_ge_of_int)
  then show ?thesis by (metis of_nat_le_iff of_nat_numeral of_nat_power)
qed

text \<open>The two ways the tail clears or sets the last bit.\<close>

lemma rnd_shift_word_odd:
  fixes w :: u64
  assumes "unat w = (n + rnd_inc (sf_rmode m) s R) div 2 ^ R"
    and "n mod 2 ^ R \<noteq> 0" "m = softfloat_round_odd"
  shows "unat (w OR 1) = rnd_shift (sf_rmode m) s R n"
  using assms by (simp only: unat_or_1) (simp add: rnd_shift_def sf_rmode_simps Let_def)

lemma rnd_shift_word_even:
  fixes w :: u64
  assumes "unat w = (n + rnd_inc (sf_rmode m) s R) div 2 ^ R"
    and "\<not> (n mod 2 ^ R \<noteq> 0 \<and> m = softfloat_round_odd)"
  shows "unat (w AND NOT (of_bool (n mod 2 ^ R = 2 ^ (R - 1) \<and> m = softfloat_round_near_even)))
         = rnd_shift (sf_rmode m) s R n"
proof -
  have clear: "unat (w AND NOT (of_bool P)) = (if P then unat w - unat w mod 2 else unat w)" for P
    using unat_and_not_1 [of w] by (cases P) simp_all
  show ?thesis unfolding clear using assms by (auto simp: rnd_shift_def sf_rmode_simps Let_def)
qed

lemma roundPackToF32_finish_shift:
  assumes sig: "unat sig < 2 ^ 31" "e = 0 \<or> 2 ^ 30 \<le> unat sig"
    and e: "0 \<le> e" "e \<le> 0xFD"
    and inc: "unat inc = rnd_inc (sf_rmode m) sign 7"
    and bits: "unat bits = unat sig mod 2 ^ 7"
  shows "roundPackToF32_finish sign m inc e sig bits st =
         (f32_pack sign (nat e * 2 ^ 23 + rnd_shift (sf_rmode m) sign 7 (unat sig)),
          softfloat_raiseFlags (if unat sig mod 2 ^ 7 \<noteq> 0 then softfloat_flag_inexact else 0) st)"
proof -
  let ?w = "drop_bit 7 (sig + ucast inc)" and ?n = "unat sig"
  let ?q = "rnd_shift (sf_rmode m) sign 7 ?n"
  have "rnd_inc (sf_rmode m) sign 7 < 2 ^ 7" by (rule rnd_inc_less) simp
  then have w: "unat ?w = (?n + rnd_inc (sf_rmode m) sign 7) div 2 ^ 7"
    using sig by (simp add: nat_of_word unat_plus unat_ucast_up inc)
  have nz: "bits \<noteq> 0 \<longleftrightarrow> ?n mod 2 ^ 7 \<noteq> 0" by (simp only: bits [symmetric] unat_eq_0)
  have tie: "bits XOR 0x40 = 0 \<longleftrightarrow> ?n mod 2 ^ 7 = 2 ^ (7 - 1)"
    by (simp only: bits [symmetric]) (simp only: word_xor_eq_0, simp add: word_unat_eq_iff)
  have le: "?q \<le> 2 ^ 24" using sig by (intro rnd_shift_le) simp_all
  have pack: "ucast (packToF32UI sign e z) = f32_pack sign (nat e * 2 ^ 23 + ?q)" if "unat z = ?q" for z
    using that le e by (subst packToF32UI_pack) (simp_all add: nat_le_iff)
  have e0: "e = 0" if "?q = 0" using that sig rnd_shift_ge [of 7 23 ?n "sf_rmode m" sign] by auto
  show ?thesis
  proof (cases "?n mod 2 ^ 7 \<noteq> 0 \<and> m = softfloat_round_odd")
    case True
    then show ?thesis
      using pack rnd_shift_word_odd [OF w]
      by (simp add: roundPackToF32_finish_def Let_def nz softfloat_raiseFlags_def)
  next
    case False
    let ?z = "?w AND NOT (of_bool (?n mod 2 ^ 7 = 2 ^ (7 - 1) \<and> m = softfloat_round_near_even))"
    have z: "unat ?z = ?q" using rnd_shift_word_even [OF w] False by blast
    have "(if ?z = 0 then 0 else e) = e" using e0 z by (auto simp: unat_eq_0 [symmetric])
    then have "ucast (packToF32UI sign (if ?z = 0 then 0 else e) ?z) = f32_pack sign (nat e * 2 ^ 23 + ?q)"
      using pack [OF z] by (simp only:)
    moreover have "\<not> (bits \<noteq> 0 \<and> m = softfloat_round_odd)" using False nz by blast
    ultimately show ?thesis
      unfolding roundPackToF32_finish_def Let_def nz tie
      using False by (simp only: if_False) (auto simp: softfloat_raiseFlags_def)
  qed
qed

lemma roundPackToF64_finish_shift:
  assumes sig: "unat sig < 2 ^ 63" "e = 0 \<or> 2 ^ 62 \<le> unat sig"
    and e: "0 \<le> e" "e \<le> 0x7FD"
    and inc: "unat inc = rnd_inc (sf_rmode m) sign 10"
    and bits: "unat bits = unat sig mod 2 ^ 10"
  shows "roundPackToF64_finish sign m inc e sig bits st =
         (f64_pack sign (nat e * 2 ^ 52 + rnd_shift (sf_rmode m) sign 10 (unat sig)),
          softfloat_raiseFlags (if unat sig mod 2 ^ 10 \<noteq> 0 then softfloat_flag_inexact else 0) st)"
proof -
  let ?w = "drop_bit 10 (sig + inc)" and ?n = "unat sig"
  let ?q = "rnd_shift (sf_rmode m) sign 10 ?n"
  have "rnd_inc (sf_rmode m) sign 10 < 2 ^ 10" by (rule rnd_inc_less) simp
  then have w: "unat ?w = (?n + rnd_inc (sf_rmode m) sign 10) div 2 ^ 10"
    using sig by (simp add: nat_of_word unat_plus unat_ucast_up inc)
  have nz: "bits \<noteq> 0 \<longleftrightarrow> ?n mod 2 ^ 10 \<noteq> 0" by (simp only: bits [symmetric] unat_eq_0)
  have tie: "bits XOR 0x200 = 0 \<longleftrightarrow> ?n mod 2 ^ 10 = 2 ^ (10 - 1)"
    by (simp only: bits [symmetric]) (simp only: word_xor_eq_0, simp add: word_unat_eq_iff)
  have le: "?q \<le> 2 ^ 53" using sig by (intro rnd_shift_le) simp_all
  have pack: "(packToF64UI sign e z) = f64_pack sign (nat e * 2 ^ 52 + ?q)" if "unat z = ?q" for z
    using that le e by (subst packToF64UI_pack) (simp_all add: nat_le_iff)
  have e0: "e = 0" if "?q = 0" using that sig rnd_shift_ge [of 10 52 ?n "sf_rmode m" sign] by auto
  show ?thesis
  proof (cases "?n mod 2 ^ 10 \<noteq> 0 \<and> m = softfloat_round_odd")
    case True
    then show ?thesis
      using pack rnd_shift_word_odd [OF w]
      by (simp add: roundPackToF64_finish_def Let_def nz softfloat_raiseFlags_def)
  next
    case False
    let ?z = "?w AND NOT (of_bool (?n mod 2 ^ 10 = 2 ^ (10 - 1) \<and> m = softfloat_round_near_even))"
    have z: "unat ?z = ?q" using rnd_shift_word_even [OF w] False by blast
    have "(if ?z = 0 then 0 else e) = e" using e0 z by (auto simp: unat_eq_0 [symmetric])
    then have "(packToF64UI sign (if ?z = 0 then 0 else e) ?z) = f64_pack sign (nat e * 2 ^ 52 + ?q)"
      using pack [OF z] by (simp only:)
    moreover have "\<not> (bits \<noteq> 0 \<and> m = softfloat_round_odd)" using False nz by blast
    ultimately show ?thesis
      unfolding roundPackToF64_finish_def Let_def nz tie
      using False by (simp only: if_False) (auto simp: softfloat_raiseFlags_def)
  qed
qed

lemma roundPackToF32_bits: "unat (ucast (w AND 0x7F) :: u8) = unat w mod 2 ^ 7" for w :: u64
proof -
  have mask: "(0x7F :: u64) = mask 7" by (simp add: mask_eq_exp_minus_1)
  have "unat w mod 2 ^ 7 < 2 ^ 7" by simp
  then show ?thesis unfolding mask unat_ucast_mod unat_and_mask by simp
qed

text \<open>The three ways through \<open>softfloat_roundPackToF32\<close>.\<close>

lemma unat_roundPackToF32_inc: "unat (roundPackToF32_inc m sign) = rnd_inc (sf_rmode m) sign 7"
  by (simp add: roundPackToF32_inc_def rnd_inc_sf Let_def)

lemma roundPackToF32_inc_eq_0:
  "roundPackToF32_inc m sign = 0 \<longleftrightarrow> overflow_mag f32_fmt (sf_rmode m) sign \<noteq> inf_code f32_fmt"
  by (simp add: roundPackToF32_inc_def Let_def overflow_mag_def sf_rmode_simps inf_code_f32)

lemma roundPackToF32_overflow:
  "ucast (packToF32UI sign 0xFF 0 - of_bool (roundPackToF32_inc m sign = 0)) =
   f32_pack sign (overflow_mag f32_fmt (sf_rmode m) sign)"
  using overflow_mag_cases [of f32_fmt "sf_rmode m" sign] unfolding roundPackToF32_inc_eq_0
  by (cases sign) (auto simp: inf_code_f32 packToF32UI_def f32_pack_def)

lemma roundPackToF32_carry:
  assumes "unat sig < 2 ^ 31"
  shows "sig + ucast (roundPackToF32_inc m sign) < (0x80000000 :: u64) \<longleftrightarrow>
         \<not> 2 ^ 31 \<le> unat sig + rnd_inc (sf_rmode m) sign 7"
proof -
  have "rnd_inc (sf_rmode m) sign 7 < 2 ^ 7" by (rule rnd_inc_less) simp
  then show ?thesis
    using assms by (simp add: word_less_nat_alt unat_plus unat_ucast_up unat_roundPackToF32_inc not_le)
qed

lemma roundPackToF32_neg:
  fixes sign e sig st
  defines "inc \<equiv> roundPackToF32_inc (softfloat_roundingMode st) sign"
    and "sig' \<equiv> ucast (softfloat_shiftRightJam32 (ucast sig) (word_of_int (- e))) :: u64"
  assumes "e < 0" "- (2 ^ 31) \<le> e"
  shows "softfloat_roundPackToF32 sign e sig st =
         roundPackToF32_finish sign (softfloat_roundingMode st) inc 0 sig' (ucast (sig' AND 0x7F))
           (if (st_before st \<or> e < - 1 \<or> sig + ucast inc < 0x80000000) \<and> ucast (sig' AND 0x7F) \<noteq> (0 :: u8)
            then softfloat_raiseFlags softfloat_flag_underflow st else st)"
proof -
  have "e mod 2 ^ 32 = e + 2 ^ 32"
    using assms(3,4) mod_pos_pos_trivial [of "e + 2 ^ 32" "2 ^ 32"] by simp
  then have c: "0xFD \<le> e mod 2 ^ 32" using assms by simp
  show ?thesis
    unfolding softfloat_roundPackToF32_def Let_def assms(1,2)
    by (simp only: c assms(3) if_True)
qed

lemma roundPackToF32_over:
  fixes sign e sig st
  defines "inc \<equiv> roundPackToF32_inc (softfloat_roundingMode st) sign"
  assumes "0 \<le> e" "e < 2 ^ 32" "0xFD < e \<or> e = 0xFD \<and> \<not> sig + ucast inc < 0x80000000"
  shows "softfloat_roundPackToF32 sign e sig st =
         (ucast (packToF32UI sign 0xFF 0 - of_bool (inc = 0)),
          softfloat_raiseFlags (softfloat_flag_overflow OR softfloat_flag_inexact) st)"
proof -
  have "e mod 2 ^ 32 = e" using assms by simp
  then have c: "(0xFD \<le> e mod 2 ^ 32) = True" "(e < 0) = False"
    "(0xFD < e \<or> 0x80000000 \<le> sig + ucast inc) = True" using assms(2-4) by (auto simp: not_less)
  show ?thesis
    unfolding softfloat_roundPackToF32_def Let_def assms(1) [symmetric]
    by (simp only: c if_True if_False)
qed

lemma roundPackToF32_norm:
  fixes sign e sig st
  defines "inc \<equiv> roundPackToF32_inc (softfloat_roundingMode st) sign"
  assumes "0 \<le> e" "e < 0xFD \<or> e = 0xFD \<and> sig + ucast inc < 0x80000000"
  shows "softfloat_roundPackToF32 sign e sig st =
         roundPackToF32_finish sign (softfloat_roundingMode st) inc e sig (ucast (sig AND 0x7F) :: u8) st"
proof -
  have "e mod 2 ^ 32 = e" using assms by auto
  then have c: "(0xFD \<le> e mod 2 ^ 32) = (e = 0xFD)" "(e < 0) = False"
    "e = 0xFD \<Longrightarrow> (0xFD < e \<or> 0x80000000 \<le> sig + ucast inc) = False" using assms(2-3) by auto
  show ?thesis
  proof (cases "e = 0xFD")
    case True
    show ?thesis
      unfolding softfloat_roundPackToF32_def Let_def assms(1) [symmetric]
      by (simp only: c(1,2) c(3) [OF True] eqTrueI [OF True] if_True if_False)
  next
    case False
    then show ?thesis
      unfolding softfloat_roundPackToF32_def Let_def assms(1)
      by (simp only: c(1,2) if_True if_False)
  qed
qed

lemma roundPackToF64_bits: "unat (w AND 0x3FF) = unat w mod 2 ^ 10" for w :: u64
proof -
  have mask: "(0x3FF :: u64) = mask 10" by (simp add: mask_eq_exp_minus_1)
  have "unat w mod 2 ^ 10 < 2 ^ 10" by simp
  then show ?thesis unfolding mask unat_and_mask by simp
qed

text \<open>The three ways through \<open>softfloat_roundPackToF64\<close>.\<close>

lemma unat_roundPackToF64_inc: "unat (roundPackToF64_inc m sign) = rnd_inc (sf_rmode m) sign 10"
  by (simp add: roundPackToF64_inc_def rnd_inc_sf Let_def)

lemma roundPackToF64_inc_eq_0:
  "roundPackToF64_inc m sign = 0 \<longleftrightarrow> overflow_mag f64_fmt (sf_rmode m) sign \<noteq> inf_code f64_fmt"
  by (simp add: roundPackToF64_inc_def Let_def overflow_mag_def sf_rmode_simps inf_code_f64)

lemma roundPackToF64_overflow:
  "(packToF64UI sign 0x7FF 0 - of_bool (roundPackToF64_inc m sign = 0)) =
   f64_pack sign (overflow_mag f64_fmt (sf_rmode m) sign)"
  using overflow_mag_cases [of f64_fmt "sf_rmode m" sign] unfolding roundPackToF64_inc_eq_0
  by (cases sign) (auto simp: inf_code_f64 packToF64UI_def f64_pack_def)

lemma roundPackToF64_carry:
  assumes "unat sig < 2 ^ 63"
  shows "sig + (roundPackToF64_inc m sign) < 0x8000000000000000 \<longleftrightarrow>
         \<not> 2 ^ 63 \<le> unat sig + rnd_inc (sf_rmode m) sign 10"
proof -
  have "rnd_inc (sf_rmode m) sign 10 < 2 ^ 10" by (rule rnd_inc_less) simp
  then show ?thesis
    using assms by (simp add: word_less_nat_alt unat_plus unat_ucast_up unat_roundPackToF64_inc not_le)
qed

lemma roundPackToF64_neg:
  fixes sign e sig st
  defines "inc \<equiv> roundPackToF64_inc (softfloat_roundingMode st) sign"
    and "sig' \<equiv> softfloat_shiftRightJam64 sig (word_of_int (- e))"
  assumes "e < 0" "- (2 ^ 15) \<le> e"
  shows "softfloat_roundPackToF64 sign e sig st =
         roundPackToF64_finish sign (softfloat_roundingMode st) inc 0 sig' (sig' AND 0x3FF)
           (if (st_before st \<or> e < - 1 \<or> sig + inc < 0x8000000000000000) \<and> sig' AND 0x3FF \<noteq> (0 :: u64)
            then softfloat_raiseFlags softfloat_flag_underflow st else st)"
proof -
  have "e mod 2 ^ 16 = e + 2 ^ 16"
    using assms(3,4) mod_pos_pos_trivial [of "e + 2 ^ 16" "2 ^ 16"] by simp
  then have c: "0x7FD \<le> e mod 2 ^ 16" using assms by simp
  show ?thesis
    unfolding softfloat_roundPackToF64_def Let_def assms(1,2)
    by (simp only: c assms(3) if_True)
qed

lemma roundPackToF64_over:
  fixes sign e sig st
  defines "inc \<equiv> roundPackToF64_inc (softfloat_roundingMode st) sign"
  assumes "0 \<le> e" "e < 2 ^ 16" "0x7FD < e \<or> e = 0x7FD \<and> \<not> sig + inc < 0x8000000000000000"
  shows "softfloat_roundPackToF64 sign e sig st =
         ((packToF64UI sign 0x7FF 0 - of_bool (inc = 0)),
          softfloat_raiseFlags (softfloat_flag_overflow OR softfloat_flag_inexact) st)"
proof -
  have "e mod 2 ^ 16 = e" using assms by simp
  then have c: "(0x7FD \<le> e mod 2 ^ 16) = True" "(e < 0) = False"
    "(0x7FD < e \<or> 0x8000000000000000 \<le> sig + inc) = True" using assms(2-4) by (auto simp: not_less)
  show ?thesis
    unfolding softfloat_roundPackToF64_def Let_def assms(1) [symmetric]
    by (simp only: c if_True if_False)
qed

lemma roundPackToF64_norm:
  fixes sign e sig st
  defines "inc \<equiv> roundPackToF64_inc (softfloat_roundingMode st) sign"
  assumes "0 \<le> e" "e < 0x7FD \<or> e = 0x7FD \<and> sig + inc < 0x8000000000000000"
  shows "softfloat_roundPackToF64 sign e sig st =
         roundPackToF64_finish sign (softfloat_roundingMode st) inc e sig (sig AND 0x3FF) st"
proof -
  have "e mod 2 ^ 16 = e" using assms by auto
  then have c: "(0x7FD \<le> e mod 2 ^ 16) = (e = 0x7FD)" "(e < 0) = False"
    "e = 0x7FD \<Longrightarrow> (0x7FD < e \<or> 0x8000000000000000 \<le> sig + inc) = False" using assms(2-3) by auto
  show ?thesis
  proof (cases "e = 0x7FD")
    case True
    show ?thesis
      unfolding softfloat_roundPackToF64_def Let_def assms(1) [symmetric]
      by (simp only: c(1,2) c(3) [OF True] eqTrueI [OF True] if_True if_False)
  next
    case False
    then show ?thesis
      unfolding softfloat_roundPackToF64_def Let_def assms(1)
      by (simp only: c(1,2) if_True if_False)
  qed
qed

theorem softfloat_roundPackToF32_round_pack:
  assumes sig: "unat sig < 2 ^ 31" "e < 0 \<or> 2 ^ 30 \<le> unat sig"
    and e: "- (2 ^ 31) \<le> e" "e < 2 ^ 31"
  shows "softfloat_roundPackToF32 sign e sig st =
         (case round_pack f32_fmt 7 (st_rmode st) (st_before st) sign e (unat sig) of
            (m, fl) \<Rightarrow> (f32_pack sign m, softfloat_raiseFlags (flag_bits fl) st))"
proof -
  let ?m = "softfloat_roundingMode st" and ?n = "unat sig"
  let ?inc = "roundPackToF32_inc ?m sign"
  note carry = roundPackToF32_carry [OF sig(1), of ?m sign]
  note finish = roundPackToF32_finish_shift [OF _ _ _ _ unat_roundPackToF32_inc roundPackToF32_bits]
  consider (neg) "e < 0" | (over) "0 \<le> e" "0xFD < e \<or> e = 0xFD \<and> \<not> sig + ucast ?inc < 0x80000000"
    | (norm) "0 \<le> e" "e < 0xFD \<or> e = 0xFD \<and> sig + ucast ?inc < 0x80000000" by linarith
  then show ?thesis
  proof cases
    case neg
    define sig' where "sig' = (ucast (softfloat_shiftRightJam32 (ucast sig) (word_of_int (- e))) :: u64)"
    have d: "unat (word_of_int (- e) :: u64) = nat (- e)" using neg e by (intro unat_word_of_int) simp_all
    then have "unat (word_of_int (- e) :: u64) \<noteq> 0" using neg by simp
    then have "(word_of_int (- e) :: u64) \<noteq> 0" by (rule contrapos_nn) (simp only: unat_0)
    then have "int (unat sig') = rodd (real ?n / 2 ^ nat (- e))"
      using sig(1) by (simp only: sig'_def unat_ucast32 unat_ucast_down32 softfloat_shiftRightJam32_rodd d simp_thms) simp
    moreover from this have sig': "nat (rodd (real ?n / 2 ^ nat (- e))) = unat sig'" by (metis nat_int)
    moreover have "rodd (real ?n / 2 ^ nat (- e)) < int (2 ^ 31)"
      using sig(1) by (rule rodd_div_less) simp
    ultimately have lt: "unat sig' < 2 ^ 31" by (simp only: of_nat_less_iff)
    have bits: "ucast (sig' AND 0x7F) \<noteq> (0 :: u8) \<longleftrightarrow> unat sig' mod 2 ^ 7 \<noteq> 0"
      using roundPackToF32_bits [of sig'] by (metis unat_eq_0)
    have "round_pack f32_fmt 7 (st_rmode st) (st_before st) sign e ?n =
      (rnd_shift (st_rmode st) sign 7 (unat sig'),
       Flags (unat sig' mod 2 ^ 7 \<noteq> 0)
         ((st_before st \<or> e < - 1 \<or> sig + ucast ?inc < 0x80000000) \<and> unat sig' mod 2 ^ 7 \<noteq> 0) False)"
      using neg unfolding round_pack_def Let_def sig' carry by simp
    then show ?thesis
      unfolding roundPackToF32_neg [OF neg e(1)] sig'_def [symmetric]
      using finish [OF lt, of 0] by (simp add: flag_bits_def bits)
  next
    case over
    have "round_pack f32_fmt 7 (st_rmode st) (st_before st) sign e ?n =
      (overflow_mag f32_fmt (sf_rmode ?m) sign, Flags True False True)"
      using over unfolding round_pack_def Let_def carry by simp
    then show ?thesis
      using roundPackToF32_over [OF over(1) _ over(2)] e
      by (simp add: flag_bits_def roundPackToF32_overflow)
  next
    case norm
    have "round_pack f32_fmt 7 (st_rmode st) (st_before st) sign e ?n =
      (nat e * 2 ^ 23 + rnd_shift (st_rmode st) sign 7 ?n, Flags (?n mod 2 ^ 7 \<noteq> 0) False False)"
      using norm unfolding round_pack_def Let_def carry by auto
    moreover have "e \<le> 0xFD" using norm(2) by auto
    ultimately show ?thesis
      unfolding roundPackToF32_norm [OF norm] using finish [OF sig(1), of e] sig(2) norm(1)
      by (simp add: flag_bits_def)
  qed
qed

theorem softfloat_roundPackToF64_round_pack:
  assumes sig: "unat sig < 2 ^ 63" "e < 0 \<or> 2 ^ 62 \<le> unat sig"
    and e: "- (2 ^ 15) \<le> e" "e < 2 ^ 15"
  shows "softfloat_roundPackToF64 sign e sig st =
         (case round_pack f64_fmt 10 (st_rmode st) (st_before st) sign e (unat sig) of
            (m, fl) \<Rightarrow> (f64_pack sign m, softfloat_raiseFlags (flag_bits fl) st))"
proof -
  let ?m = "softfloat_roundingMode st" and ?n = "unat sig"
  let ?inc = "roundPackToF64_inc ?m sign"
  note carry = roundPackToF64_carry [OF sig(1), of ?m sign]
  note finish = roundPackToF64_finish_shift [OF _ _ _ _ unat_roundPackToF64_inc roundPackToF64_bits]
  consider (neg) "e < 0" | (over) "0 \<le> e" "0x7FD < e \<or> e = 0x7FD \<and> \<not> sig + ?inc < 0x8000000000000000"
    | (norm) "0 \<le> e" "e < 0x7FD \<or> e = 0x7FD \<and> sig + ?inc < 0x8000000000000000" by linarith
  then show ?thesis
  proof cases
    case neg
    define sig' where "sig' = softfloat_shiftRightJam64 sig (word_of_int (- e))"
    have d: "unat (word_of_int (- e) :: u64) = nat (- e)" using neg e by (intro unat_word_of_int) simp_all
    then have "unat (word_of_int (- e) :: u64) \<noteq> 0" using neg by simp
    then have "(word_of_int (- e) :: u64) \<noteq> 0" by (rule contrapos_nn) (simp only: unat_0)
    then have "int (unat sig') = rodd (real ?n / 2 ^ nat (- e))"
      using sig(1) by (simp only: sig'_def softfloat_shiftRightJam64_rodd d simp_thms)
    moreover from this have sig': "nat (rodd (real ?n / 2 ^ nat (- e))) = unat sig'" by (metis nat_int)
    moreover have "rodd (real ?n / 2 ^ nat (- e)) < int (2 ^ 63)"
      using sig(1) by (rule rodd_div_less) simp
    ultimately have lt: "unat sig' < 2 ^ 63" by (simp only: of_nat_less_iff)
    have bits: "sig' AND 0x3FF \<noteq> 0 \<longleftrightarrow> unat sig' mod 2 ^ 10 \<noteq> 0"
      using roundPackToF64_bits [of sig'] by (metis unat_eq_0)
    have "round_pack f64_fmt 10 (st_rmode st) (st_before st) sign e ?n =
      (rnd_shift (st_rmode st) sign 10 (unat sig'),
       Flags (unat sig' mod 2 ^ 10 \<noteq> 0)
         ((st_before st \<or> e < - 1 \<or> sig + ?inc < 0x8000000000000000) \<and> unat sig' mod 2 ^ 10 \<noteq> 0) False)"
      using neg unfolding round_pack_def Let_def sig' carry by simp
    then show ?thesis
      unfolding roundPackToF64_neg [OF neg e(1)] sig'_def [symmetric]
      using finish [OF lt, of 0] by (simp add: flag_bits_def bits)
  next
    case over
    have "round_pack f64_fmt 10 (st_rmode st) (st_before st) sign e ?n =
      (overflow_mag f64_fmt (sf_rmode ?m) sign, Flags True False True)"
      using over unfolding round_pack_def Let_def carry by simp
    then show ?thesis
      using roundPackToF64_over [OF over(1) _ over(2)] e
      by (simp add: flag_bits_def roundPackToF64_overflow)
  next
    case norm
    have "round_pack f64_fmt 10 (st_rmode st) (st_before st) sign e ?n =
      (nat e * 2 ^ 52 + rnd_shift (st_rmode st) sign 10 ?n, Flags (?n mod 2 ^ 10 \<noteq> 0) False False)"
      using norm unfolding round_pack_def Let_def carry by auto
    moreover have "e \<le> 0x7FD" using norm(2) by auto
    ultimately show ?thesis
      unfolding roundPackToF64_norm [OF norm] using finish [OF sig(1), of e] sig(2) norm(1)
      by (simp add: flag_bits_def)
  qed
qed

text \<open>
  The contract of \<open>softfloat_roundPackToF32\<close>: given a number that agrees above bit 6 with the exact
  significand \<open>r\<close>, it delivers the correctly rounded value of \<open>r * 2 ^ (e - 156)\<close>.
\<close>

theorem softfloat_roundPackToF32_round:
  assumes r: "2 ^ 30 \<le> r \<or> e < 0 \<and> 0 \<le> r" "r < 2 ^ 31"
    and sig: "agree (7 - 1) (real (unat sig)) r"
    and e: "- (2 ^ 31) \<le> e" "e < 2 ^ 31"
  shows "softfloat_roundPackToF32 sign e sig st = f32_round sign (r * pow2 (e - 156)) st"
proof -
  have "\<not> real (2 ^ 31) \<le> real (unat sig)" "\<not> e < 0 \<Longrightarrow> real (2 ^ 30) \<le> real (unat sig)"
    using agree_le_iff [OF sig, of "2 ^ 25"] agree_le_iff [OF sig, of "2 ^ 24"] r by simp_all
  then have lt: "unat sig < 2 ^ 31" and ge: "e < 0 \<or> 2 ^ 30 \<le> unat sig"
    by (simp_all only: of_nat_le_iff not_le) blast+
  have "round_pack f32_fmt 7 (st_rmode st) (st_before st) sign e (unat sig) =
        ieee_round f32_fmt (st_rmode st) (st_before st) sign (r * pow2 (e - 156))"
    using f32.round_pack_correct [of 7 r e "unat sig"] r sig by (simp add: ulp_exp_f32)
  then show ?thesis
    unfolding f32_round_def softfloat_roundPackToF32_round_pack [OF lt ge e] by (simp only:)
qed

text \<open>
  The contract of \<open>softfloat_roundPackToF64\<close>: given a number that agrees above bit 9 with the exact
  significand \<open>r\<close>, it delivers the correctly rounded value of \<open>r * 2 ^ (e - 1084)\<close>.
\<close>

theorem softfloat_roundPackToF64_round:
  assumes r: "2 ^ 62 \<le> r \<or> e < 0 \<and> 0 \<le> r" "r < 2 ^ 63"
    and sig: "agree (10 - 1) (real (unat sig)) r"
    and e: "- (2 ^ 15) \<le> e" "e < 2 ^ 15"
  shows "softfloat_roundPackToF64 sign e sig st = f64_round sign (r * pow2 (e - 1084)) st"
proof -
  have "\<not> real (2 ^ 63) \<le> real (unat sig)" "\<not> e < 0 \<Longrightarrow> real (2 ^ 62) \<le> real (unat sig)"
    using agree_le_iff [OF sig, of "2 ^ 54"] agree_le_iff [OF sig, of "2 ^ 53"] r by simp_all
  then have lt: "unat sig < 2 ^ 63" and ge: "e < 0 \<or> 2 ^ 62 \<le> unat sig"
    by (simp_all only: of_nat_le_iff not_le) blast+
  have "round_pack f64_fmt 10 (st_rmode st) (st_before st) sign e (unat sig) =
        ieee_round f64_fmt (st_rmode st) (st_before st) sign (r * pow2 (e - 1084))"
    using f64.round_pack_correct [of 10 r e "unat sig"] r sig by (simp add: ulp_exp_f64)
  then show ?thesis
    unfolding f64_round_def softfloat_roundPackToF64_round_pack [OF lt ge e] by (simp only:)
qed

lemma f32_round_exact:
  "m < inf_code f32_fmt \<Longrightarrow> f32_round s (mval f32_fmt m) st = (f32_pack s m, st)"
  by (simp add: f32_round_def f32.ieee_round_exact flag_bits_def)

lemma f64_round_exact:
  "m < inf_code f64_fmt \<Longrightarrow> f64_round s (mval f64_fmt m) st = (f64_pack s m, st)"
  by (simp add: f64_round_def f64.ieee_round_exact flag_bits_def)

lemma clz_spec_norm:
  assumes "clz_spec w a c" "a < 2 ^ (w - j)" "j < w"
  shows "\<exists>k. c = j + k \<and> 2 ^ (w - 1 - j) \<le> a * 2 ^ k \<and> a * 2 ^ k < 2 ^ (w - j)"
proof -
  have c: "c < w" "2 ^ (w - 1 - c) \<le> a" "a < 2 ^ (w - c)" using assms(1) by (simp_all add: clz_spec_def)
  have "(2 :: nat) ^ (w - 1 - c) < 2 ^ (w - j)" using c(2) assms(2) by (rule le_less_trans)
  then have "w - 1 - c < w - j" by (rule power_less_imp_less_exp [rotated]) simp
  then have jc: "j \<le> c" using assms(3) by linarith
  then have "(2 :: nat) ^ (w - 1 - j) = 2 ^ (w - 1 - c) * 2 ^ (c - j)" "(2 :: nat) ^ (w - j) = 2 ^ (w - c) * 2 ^ (c - j)"
    using c(1) by (simp_all flip: power_add)
  then show ?thesis using c jc by (intro exI [of _ "c - j"]) simp
qed

lemma clz32_norm:
  fixes sig :: u64
  assumes sig: "0 < unat sig" "unat sig < 2 ^ (32 - j)" "j < 32"
  obtains k where "uint (softfloat_countLeadingZeros32 (ucast sig)) = int (j + k)"
    "unat (push_bit k sig) = unat sig * 2 ^ k"
    "2 ^ (31 - j) \<le> unat sig * 2 ^ k" "unat sig * 2 ^ k < 2 ^ (32 - j)"
proof -
  have "(2 :: nat) ^ (32 - j) \<le> 2 ^ 32" by (rule power_increasing) simp_all
  then have u: "unat (ucast sig :: u32) = unat sig" using sig(2) by (simp add: unat_ucast_down32)
  then have "(ucast sig :: u32) \<noteq> 0" using sig(1) by (intro notI) simp
  from softfloat_countLeadingZeros32_spec [OF this]
  have "clz_spec 32 (unat sig) (unat (softfloat_countLeadingZeros32 (ucast sig)))" by (simp only: u)
  from clz_spec_norm [OF this sig(2,3)] obtain k
    where k: "unat (softfloat_countLeadingZeros32 (ucast sig)) = j + k"
      "2 ^ (31 - j) \<le> unat sig * 2 ^ k" "unat sig * 2 ^ k < 2 ^ (32 - j)" by auto
  have "(2 :: nat) ^ (32 - j) \<le> 2 ^ 64" by (rule power_increasing) simp_all
  with k(3) have "unat (push_bit k sig) = unat sig * 2 ^ k" by (intro unat_push_bit) simp
  then show thesis using k by (intro that) (simp_all add: uint_nat)
qed

lemma normSubnormalF32_shift:
  assumes "0 < unat sig" "unat sig < 2 ^ 23"
  obtains k where "softfloat_normSubnormalF32Sig sig = (1 - int k, push_bit k sig)"
    "unat (push_bit k sig) = unat sig * 2 ^ k" "2 ^ 23 \<le> unat sig * 2 ^ k" "unat sig * 2 ^ k < 2 ^ 24"
proof -
  have "unat sig < 2 ^ (32 - 8)" using assms(2) by simp
  then obtain k
    where "uint (softfloat_countLeadingZeros32 (ucast sig)) = int (8 + k)"
      "unat (push_bit k sig) = unat sig * 2 ^ k"
      "2 ^ (31 - 8) \<le> unat sig * 2 ^ k" "unat sig * 2 ^ k < 2 ^ (32 - 8)"
    by (rule clz32_norm [OF assms(1)]) simp
  then show thesis by (intro that) (simp_all add: softfloat_normSubnormalF32Sig_def Let_def)
qed

theorem softfloat_normRoundPackToF32_round:
  assumes sig: "0 < unat sig" "unat sig < 2 ^ 31"
    and r: "real (unat sig) = r \<or> int (unat sig) = rodd r \<and> 2 ^ 25 \<le> unat sig"
    and e: "- (2 ^ 30) \<le> e" "e < 2 ^ 30"
  shows "softfloat_normRoundPackToF32 sign e sig st = f32_round sign (r * pow2 (e - 156)) st"
proof -
  have "unat sig < 2 ^ (32 - 1)" using sig(2) by simp
  then obtain k
    where c: "uint (softfloat_countLeadingZeros32 (ucast sig)) = int (1 + k)"
      and p: "unat (push_bit k sig) = unat sig * 2 ^ k"
      and b': "2 ^ (31 - 1) \<le> unat sig * 2 ^ k" "unat sig * 2 ^ k < 2 ^ (32 - 1)"
    by (rule clz32_norm [OF sig(1)]) simp
  have b: "2 ^ 30 \<le> unat sig * 2 ^ k" "unat sig * 2 ^ k < 2 ^ 31" using b' by simp_all
  have "2 ^ k \<le> unat sig * 2 ^ k" using sig(1) by simp
  then have "2 ^ k < (2 :: nat) ^ 31" using b(2) by (rule le_less_trans)
  then have k: "k < 31" by (rule power_less_imp_less_exp [rotated]) simp
  have x: "r * pow2 (e - 156) = r * 2 ^ k * pow2 (e - int k - 156)"
    using pow2_shift [of "e - 156" k] by (simp add: algebra_simps)
  have small: "real (unat sig) = r \<or> int (unat sig) = rodd r \<and> k < 6"
  proof -
    have "k < 6" if "2 ^ 25 \<le> unat sig"
    proof -
      have "2 ^ 25 * 2 ^ k \<le> unat sig * 2 ^ k" using that by simp
      then have "2 ^ (25 + k) < (2 :: nat) ^ 31" using b(2) by (simp only: power_add)
      then have "25 + k < 31" by (rule power_less_imp_less_exp [rotated]) simp
      then show ?thesis by simp
    qed
    then show ?thesis using r by blast
  qed
  show ?thesis
  proof (cases "7 \<le> k \<and> (e - int k) mod 2 ^ 32 < 0xFD")
    case True
    then obtain j where j: "k = 7 + j" by (auto simp: le_iff_add)
    have r': "r = real (unat sig)" using small j by auto
    have e': "0 \<le> e - int k" "e - int k < 0xFD" using mod_uint_small [OF conjunct2 [OF True]] e k by simp_all
    define q where "q = unat sig * 2 ^ j"
    have "unat sig * 2 ^ k = q * 2 ^ 7" by (simp add: q_def j power_add)
    then have q: "2 ^ 23 \<le> q" "q < 2 * 2 ^ 23" using b by simp_all
    have uq: "unat (push_bit j sig) = q" unfolding q_def using q by (intro unat_push_bit) (simp add: q_def)
    have "r * pow2 (e - 156) = real q * pow2 (ulp_exp f32_fmt (nat (e - int k)))"
      using e'(1) pow2_shift [of "e - 156" j] by (simp add: r' q_def ulp_exp_f32 j algebra_simps)
    also have "\<dots> = mval f32_fmt (nat (e - int k) * 2 ^ 23 + q)"
      using q f32.mval_code [of q] by simp
    finally have x: "r * pow2 (e - 156) = mval f32_fmt (nat (e - int k) * 2 ^ 23 + q)" .
    have "nat (e - int k) < 0xFD" using e' by (simp only: nat_less_iff)
    then have lt: "nat (e - int k) * 2 ^ 23 + q < inf_code f32_fmt" using q(2) by (simp add: inf_code_f32)
    have "sig \<noteq> 0" using sig(1) by (intro notI) simp
    then have "softfloat_normRoundPackToF32 sign e sig st = (ucast (packToF32UI sign (e - int k) (push_bit j sig)), st)"
      using True by (simp add: softfloat_normRoundPackToF32_def c j)
    also have "ucast (packToF32UI sign (e - int k) (push_bit j sig)) = f32_pack sign (nat (e - int k) * 2 ^ 23 + q)"
      using e' lt by (subst packToF32UI_pack) (simp_all add: uq inf_code_f32)
    finally show ?thesis unfolding x using f32_round_exact [OF lt] by simp
  next
    case False
    have ag: "agree (7 - 1) (real (unat (push_bit k sig))) (r * 2 ^ k)"
      using small
    proof
      assume "int (unat sig) = rodd r \<and> k < 6"
      moreover from this have "of_int (rodd r) = real (unat sig)" by (metis of_int_of_nat_eq)
      ultimately have "agree (6 - k) (real (unat sig)) r" "6 - k + k = 7 - 1"
        using agree_rodd [of "6 - k" r] by simp_all
      then show ?thesis using agree_scale [of "6 - k" k "real (unat sig)" r] by (simp add: p)
    qed (auto simp: p)
    have "real (2 ^ 30) \<le> real (unat sig * 2 ^ k)" "\<not> real (2 ^ 31) \<le> real (unat sig * 2 ^ k)"
      using b by (simp_all only: of_nat_le_iff not_le)
    then have "2 ^ 30 \<le> r * 2 ^ k" "r * 2 ^ k < 2 ^ 31"
      using agree_le_iff [OF ag, of "2 ^ 25"] agree_le_iff [OF ag, of "2 ^ 24"] p by simp_all
    moreover have "softfloat_normRoundPackToF32 sign e sig st = softfloat_roundPackToF32 sign (e - int k) (push_bit k sig) st"
      using False by (auto simp: softfloat_normRoundPackToF32_def c Let_def)
    ultimately show ?thesis
      unfolding x using ag e k by (simp only:) (rule softfloat_roundPackToF32_round, simp_all)
  qed
qed

lemma clz64_norm:
  fixes sig :: u64
  assumes sig: "0 < unat sig" "unat sig < 2 ^ (64 - j)" "j < 64"
  obtains k where "uint (softfloat_countLeadingZeros64 sig) = int (j + k)"
    "unat (push_bit k sig) = unat sig * 2 ^ k"
    "2 ^ (63 - j) \<le> unat sig * 2 ^ k" "unat sig * 2 ^ k < 2 ^ (64 - j)"
proof -
  have "sig \<noteq> 0" using sig(1) by (intro notI) simp
  then have "clz_spec 64 (unat sig) (unat (softfloat_countLeadingZeros64 sig))"
    by (rule softfloat_countLeadingZeros64_spec)
  from clz_spec_norm [OF this sig(2,3)] obtain k
    where k: "unat (softfloat_countLeadingZeros64 sig) = j + k"
      "2 ^ (63 - j) \<le> unat sig * 2 ^ k" "unat sig * 2 ^ k < 2 ^ (64 - j)" by auto
  have "(2 :: nat) ^ (64 - j) \<le> 2 ^ 64" by (rule power_increasing) simp_all
  with k(3) have "unat (push_bit k sig) = unat sig * 2 ^ k" by (intro unat_push_bit) simp
  then show thesis using k by (intro that) (simp_all add: uint_nat)
qed

lemma normSubnormalF64_shift:
  assumes "0 < unat sig" "unat sig < 2 ^ 52"
  obtains k where "softfloat_normSubnormalF64Sig sig = (1 - int k, push_bit k sig)"
    "unat (push_bit k sig) = unat sig * 2 ^ k" "2 ^ 52 \<le> unat sig * 2 ^ k" "unat sig * 2 ^ k < 2 ^ 53"
proof -
  have "unat sig < 2 ^ (64 - 11)" using assms(2) by simp
  then obtain k
    where "uint (softfloat_countLeadingZeros64 sig) = int (11 + k)"
      "unat (push_bit k sig) = unat sig * 2 ^ k"
      "2 ^ (63 - 11) \<le> unat sig * 2 ^ k" "unat sig * 2 ^ k < 2 ^ (64 - 11)"
    by (rule clz64_norm [OF assms(1)]) simp
  then show thesis by (intro that) (simp_all add: softfloat_normSubnormalF64Sig_def Let_def)
qed

theorem softfloat_normRoundPackToF64_round:
  assumes sig: "0 < unat sig" "unat sig < 2 ^ 63"
    and r: "real (unat sig) = r \<or> int (unat sig) = rodd r \<and> 2 ^ 54 \<le> unat sig"
    and e: "- (2 ^ 14) \<le> e" "e < 2 ^ 14"
  shows "softfloat_normRoundPackToF64 sign e sig st = f64_round sign (r * pow2 (e - 1084)) st"
proof -
  have "unat sig < 2 ^ (64 - 1)" using sig(2) by simp
  then obtain k
    where c: "uint (softfloat_countLeadingZeros64 sig) = int (1 + k)"
      and p: "unat (push_bit k sig) = unat sig * 2 ^ k"
      and b': "2 ^ (63 - 1) \<le> unat sig * 2 ^ k" "unat sig * 2 ^ k < 2 ^ (64 - 1)"
    by (rule clz64_norm [OF sig(1)]) simp
  have b: "2 ^ 62 \<le> unat sig * 2 ^ k" "unat sig * 2 ^ k < 2 ^ 63" using b' by simp_all
  have "2 ^ k \<le> unat sig * 2 ^ k" using sig(1) by simp
  then have "2 ^ k < (2 :: nat) ^ 63" using b(2) by (rule le_less_trans)
  then have k: "k < 63" by (rule power_less_imp_less_exp [rotated]) simp
  have x: "r * pow2 (e - 1084) = r * 2 ^ k * pow2 (e - int k - 1084)"
    using pow2_shift [of "e - 1084" k] by (simp add: algebra_simps)
  have small: "real (unat sig) = r \<or> int (unat sig) = rodd r \<and> k < 9"
  proof -
    have "k < 9" if "2 ^ 54 \<le> unat sig"
    proof -
      have "2 ^ 54 * 2 ^ k \<le> unat sig * 2 ^ k" using that by simp
      then have "2 ^ (54 + k) < (2 :: nat) ^ 63" using b(2) by (simp only: power_add)
      then have "54 + k < 63" by (rule power_less_imp_less_exp [rotated]) simp
      then show ?thesis by simp
    qed
    then show ?thesis using r by blast
  qed
  show ?thesis
  proof (cases "10 \<le> k \<and> (e - int k) mod 2 ^ 32 < 0x7FD")
    case True
    then obtain j where j: "k = 10 + j" by (auto simp: le_iff_add)
    have r': "r = real (unat sig)" using small j by auto
    have e': "0 \<le> e - int k" "e - int k < 0x7FD" using mod_uint_small [OF conjunct2 [OF True]] e k by simp_all
    define q where "q = unat sig * 2 ^ j"
    have "unat sig * 2 ^ k = q * 2 ^ 10" by (simp add: q_def j power_add)
    then have q: "2 ^ 52 \<le> q" "q < 2 * 2 ^ 52" using b by simp_all
    have uq: "unat (push_bit j sig) = q" unfolding q_def using q by (intro unat_push_bit) (simp add: q_def)
    have "r * pow2 (e - 1084) = real q * pow2 (ulp_exp f64_fmt (nat (e - int k)))"
      using e'(1) pow2_shift [of "e - 1084" j] by (simp add: r' q_def ulp_exp_f64 j algebra_simps)
    also have "\<dots> = mval f64_fmt (nat (e - int k) * 2 ^ 52 + q)"
      using q f64.mval_code [of q] by simp
    finally have x: "r * pow2 (e - 1084) = mval f64_fmt (nat (e - int k) * 2 ^ 52 + q)" .
    have "nat (e - int k) < 0x7FD" using e' by (simp only: nat_less_iff)
    then have lt: "nat (e - int k) * 2 ^ 52 + q < inf_code f64_fmt" using q(2) by (simp add: inf_code_f64)
    have "sig \<noteq> 0" using sig(1) by (intro notI) simp
    then have "softfloat_normRoundPackToF64 sign e sig st = ((packToF64UI sign (e - int k) (push_bit j sig)), st)"
      using True by (simp add: softfloat_normRoundPackToF64_def c j)
    also have "(packToF64UI sign (e - int k) (push_bit j sig)) = f64_pack sign (nat (e - int k) * 2 ^ 52 + q)"
      using e' lt by (subst packToF64UI_pack) (simp_all add: uq inf_code_f64)
    finally show ?thesis unfolding x using f64_round_exact [OF lt] by simp
  next
    case False
    have ag: "agree (10 - 1) (real (unat (push_bit k sig))) (r * 2 ^ k)"
      using small
    proof
      assume "int (unat sig) = rodd r \<and> k < 9"
      moreover from this have "of_int (rodd r) = real (unat sig)" by (metis of_int_of_nat_eq)
      ultimately have "agree (9 - k) (real (unat sig)) r" "9 - k + k = 10 - 1"
        using agree_rodd [of "9 - k" r] by simp_all
      then show ?thesis using agree_scale [of "9 - k" k "real (unat sig)" r] by (simp add: p)
    qed (auto simp: p)
    have "real (2 ^ 62) \<le> real (unat sig * 2 ^ k)" "\<not> real (2 ^ 63) \<le> real (unat sig * 2 ^ k)"
      using b by (simp_all only: of_nat_le_iff not_le)
    then have "2 ^ 62 \<le> r * 2 ^ k" "r * 2 ^ k < 2 ^ 63"
      using agree_le_iff [OF ag, of "2 ^ 54"] agree_le_iff [OF ag, of "2 ^ 53"] p by simp_all
    moreover have "softfloat_normRoundPackToF64 sign e sig st = softfloat_roundPackToF64 sign (e - int k) (push_bit k sig) st"
      using False by (auto simp: softfloat_normRoundPackToF64_def c Let_def)
    ultimately show ?thesis
      unfolding x using ag e k by (simp only:) (rule softfloat_roundPackToF64_round, simp_all)
  qed
qed

text \<open>The last normalisation step of sums and products: a significand below \<open>2 ^ 30\<close> is doubled.\<close>

lemma softfloat_roundPackToF32_norm1:
  assumes n: "int (unat z) = rodd r" and r: "2 ^ 29 \<le> r" "r < 2 ^ 31"
    and e: "- (2 ^ 14) \<le> e" "e < 2 ^ 14"
  shows "(if z < 0x40000000 then softfloat_roundPackToF32 s (e - 1) (push_bit 1 z) st
          else softfloat_roundPackToF32 s e z st) = f32_round s (r * pow2 (e - 156)) st"
proof -
  have "of_int (rodd r) = real (unat z)" by (metis n of_int_of_nat_eq)
  then have ag: "agree j (real (unat z)) r" if "0 < j" for j using agree_rodd [OF that, of r] by simp
  have "real (2 ^ 30) \<le> real (unat z) \<longleftrightarrow> 2 ^ 30 \<le> r"
    using agree_le_iff [OF ag [of 1], of "2 ^ 29"] by simp
  then have thr: "z < 0x40000000 \<longleftrightarrow> r < 2 ^ 30"
    by (simp only: of_nat_le_iff word_less_nat_alt) auto
  show ?thesis
  proof (cases "z < 0x40000000")
    case True
    then have "unat (push_bit 1 z) = unat z * 2 ^ 1" by (intro unat_push_bit) (simp add: word_less_nat_alt)
    then have "agree (7 - 1) (real (unat (push_bit 1 z))) (r * 2 ^ 1)"
      using agree_scale [of "6 - 1" 1 "real (unat z)" r] ag [of "6 - 1"] by simp
    moreover have "2 ^ 30 \<le> r * 2 ^ 1" "r * 2 ^ 1 < 2 ^ 31" using True thr r by simp_all
    ultimately have "softfloat_roundPackToF32 s (e - 1) (push_bit 1 z) st = f32_round s (r * 2 ^ 1 * pow2 (e - 1 - 156)) st"
      using e by (intro softfloat_roundPackToF32_round) simp_all
    also have "r * 2 ^ 1 * pow2 (e - 1 - 156) = r * pow2 (e - 156)"
      using pow2_shift [of "e - 156" 1] by (simp add: algebra_simps)
    finally show ?thesis using True by simp
  next
    case False
    then have "softfloat_roundPackToF32 s e z st = f32_round s (r * pow2 (e - 156)) st"
      using e r thr ag [of "7 - 1"] by (intro softfloat_roundPackToF32_round) simp_all
    with False show ?thesis by simp
  qed
qed

text \<open>The last normalisation step of sums and products: a significand below \<open>2 ^ 62\<close> is doubled.\<close>

lemma softfloat_roundPackToF64_norm1:
  assumes n: "int (unat z) = rodd r" and r: "2 ^ 61 \<le> r" "r < 2 ^ 63"
    and e: "- (2 ^ 14) \<le> e" "e < 2 ^ 14"
  shows "(if z < 0x4000000000000000 then softfloat_roundPackToF64 s (e - 1) (push_bit 1 z) st
          else softfloat_roundPackToF64 s e z st) = f64_round s (r * pow2 (e - 1084)) st"
proof -
  have "of_int (rodd r) = real (unat z)" by (metis n of_int_of_nat_eq)
  then have ag: "agree j (real (unat z)) r" if "0 < j" for j using agree_rodd [OF that, of r] by simp
  have "real (2 ^ 62) \<le> real (unat z) \<longleftrightarrow> 2 ^ 62 \<le> r"
    using agree_le_iff [OF ag [of 1], of "2 ^ 61"] by simp
  then have thr: "z < 0x4000000000000000 \<longleftrightarrow> r < 2 ^ 62"
    by (simp only: of_nat_le_iff word_less_nat_alt) auto
  show ?thesis
  proof (cases "z < 0x4000000000000000")
    case True
    then have "unat (push_bit 1 z) = unat z * 2 ^ 1" by (intro unat_push_bit) (simp add: word_less_nat_alt)
    then have "agree (10 - 1) (real (unat (push_bit 1 z))) (r * 2 ^ 1)"
      using agree_scale [of "9 - 1" 1 "real (unat z)" r] ag [of "9 - 1"] by simp
    moreover have "2 ^ 62 \<le> r * 2 ^ 1" "r * 2 ^ 1 < 2 ^ 63" using True thr r by simp_all
    ultimately have "softfloat_roundPackToF64 s (e - 1) (push_bit 1 z) st = f64_round s (r * 2 ^ 1 * pow2 (e - 1 - 1084)) st"
      using e by (intro softfloat_roundPackToF64_round) simp_all
    also have "r * 2 ^ 1 * pow2 (e - 1 - 1084) = r * pow2 (e - 1084)"
      using pow2_shift [of "e - 1084" 1] by (simp add: algebra_simps)
    finally show ?thesis using True by simp
  next
    case False
    then have "softfloat_roundPackToF64 s e z st = f64_round s (r * pow2 (e - 1084)) st"
      using e r thr ag [of "10 - 1"] by (intro softfloat_roundPackToF64_round) simp_all
    with False show ?thesis by simp
  qed
qed

end
