(* ===== verification/SF_AddSub.thy ===== *)
theory SF_AddSub
  imports SF_RoundPack
begin

text \<open>
  Addition and subtraction (\<open>source/s_addMagsF*.c\<close>, \<open>s_subMagsF*.c\<close>, \<open>f32_add.c\<close>, \<open>f32_sub.c\<close>,
  \<open>f64_add.c\<close>, \<open>f64_sub.c\<close>). For finite operands the result is the exact sum or difference,
  rounded once; the other operands give the infinities, the default NaN with the invalid
  exception, or a propagated NaN.
\<close>

subsection \<open>The routines\<close>

text \<open>The join of the two branches of \<open>softfloat_addMagsF32\<close> with different exponents.\<close>

definition addMagsF32_tail :: "bool \<Rightarrow> int \<Rightarrow> u64 \<Rightarrow> u64 \<Rightarrow> softfloat_state \<Rightarrow> u32 \<times> softfloat_state" where
  "addMagsF32_tail signZ expZ sigA sigB st =
     (let sigZ = 0x20000000 + sigA + sigB
      in if sigZ < 0x40000000
         then softfloat_roundPackToF32 signZ (expZ - 1) (push_bit 1 sigZ) st
         else softfloat_roundPackToF32 signZ expZ sigZ st)"

definition softfloat_addMagsF32 :: "u64 \<Rightarrow> u64 \<Rightarrow> softfloat_state \<Rightarrow> u32 \<times> softfloat_state" where
  "softfloat_addMagsF32 uiA uiB st =
     (let expA = expF32UI uiA;
          sigA = fracF32UI uiA;
          expB = expF32UI uiB;
          sigB = fracF32UI uiB;
          propagateNaN = (case softfloat_propagateNaNF32UI uiA uiB st of (uiZ, st) \<Rightarrow> (ucast uiZ, st));
          expDiff = expA - expB
      in if expDiff = 0 then
           if expA = 0 then (ucast (uiA + sigB), st)
           else if expA = 0xFF then
             if sigA OR sigB \<noteq> 0 then propagateNaN else (ucast uiA, st)
           else
             let signZ = signF32UI uiA;
                 expZ = expA;
                 sigZ = 0x01000000 + sigA + sigB
             in if sigZ AND 1 = 0 \<and> expZ < 0xFE
                then (ucast (packToF32UI signZ expZ (drop_bit 1 sigZ)), st)
                else softfloat_roundPackToF32 signZ expZ (push_bit 6 sigZ) st
         else
           let signZ = signF32UI uiA;
               sigA = push_bit 6 sigA;
               sigB = push_bit 6 sigB
           in if expDiff < 0 then
                if expB = 0xFF then
                  if sigB \<noteq> 0 then propagateNaN else (ucast (packToF32UI signZ 0xFF 0), st)
                else
                  let expZ = expB;
                      sigA = sigA + (if expA \<noteq> 0 then 0x20000000 else sigA);
                      sigA = ucast (softfloat_shiftRightJam32 (ucast sigA) (word_of_int (- expDiff)))
                  in addMagsF32_tail signZ expZ sigA sigB st
              else
                if expA = 0xFF then
                  if sigA \<noteq> 0 then propagateNaN else (ucast uiA, st)
                else
                  let expZ = expA;
                      sigB = sigB + (if expB \<noteq> 0 then 0x20000000 else sigB);
                      sigB = ucast (softfloat_shiftRightJam32 (ucast sigB) (word_of_int expDiff))
                  in addMagsF32_tail signZ expZ sigA sigB st)"

definition softfloat_subMagsF32 :: "u64 \<Rightarrow> u64 \<Rightarrow> softfloat_state \<Rightarrow> u32 \<times> softfloat_state" where
  "softfloat_subMagsF32 uiA uiB st =
     (let expA = expF32UI uiA;
          sigA = fracF32UI uiA;
          expB = expF32UI uiB;
          sigB = fracF32UI uiB;
          propagateNaN = (case softfloat_propagateNaNF32UI uiA uiB st of (uiZ, st) \<Rightarrow> (ucast uiZ, st));
          expDiff = expA - expB
      in if expDiff = 0 then
           if expA = 0xFF then
             if sigA OR sigB \<noteq> 0 then propagateNaN
             else (ucast defaultNaNF32UI, softfloat_raiseFlags softfloat_flag_invalid st)
           else
             let sigDiff = sint (sigA - sigB)
             in if sigDiff = 0 then
                  (ucast (packToF32UI (softfloat_roundingMode st = softfloat_round_min) 0 0), st)
                else
                  let expA = (if expA \<noteq> 0 then expA - 1 else expA);
                      signZ = signF32UI uiA;
                      (signZ, sigDiff) = (if sigDiff < 0 then (\<not> signZ, - sigDiff) else (signZ, sigDiff));
                      shiftDist = uint (softfloat_countLeadingZeros32 (word_of_int sigDiff)) - 8;
                      expZ = expA - shiftDist;
                      (shiftDist, expZ) = (if expZ < 0 then (expA, 0) else (shiftDist, expZ))
                  in (ucast (packToF32UI signZ expZ (push_bit (nat shiftDist) (word_of_int sigDiff))), st)
         else
           let signZ = signF32UI uiA;
               sigA = push_bit 7 sigA;
               sigB = push_bit 7 sigB
           in if expDiff < 0 then
                let signZ = (\<not> signZ)
                in if expB = 0xFF then
                     if sigB \<noteq> 0 then propagateNaN else (ucast (packToF32UI signZ 0xFF 0), st)
                   else
                     let expZ = expB - 1;
                         sigX = sigB OR 0x40000000;
                         sigY = sigA + (if expA \<noteq> 0 then 0x40000000 else sigA);
                         expDiff = - expDiff
                     in softfloat_normRoundPackToF32 signZ expZ
                          (sigX - ucast (softfloat_shiftRightJam32 (ucast sigY) (word_of_int expDiff))) st
              else
                if expA = 0xFF then
                  if sigA \<noteq> 0 then propagateNaN else (ucast uiA, st)
                else
                  let expZ = expA - 1;
                      sigX = sigA OR 0x40000000;
                      sigY = sigB + (if expB \<noteq> 0 then 0x40000000 else sigB)
                  in softfloat_normRoundPackToF32 signZ expZ
                       (sigX - ucast (softfloat_shiftRightJam32 (ucast sigY) (word_of_int expDiff))) st)"

definition f32_add :: "u32 \<Rightarrow> u32 \<Rightarrow> softfloat_state \<Rightarrow> u32 \<times> softfloat_state" where
  "f32_add a b st =
     (let uiA = ucast a; uiB = ucast b
      in if signF32UI (uiA XOR uiB) then softfloat_subMagsF32 uiA uiB st
         else softfloat_addMagsF32 uiA uiB st)"

definition f32_sub :: "u32 \<Rightarrow> u32 \<Rightarrow> softfloat_state \<Rightarrow> u32 \<times> softfloat_state" where
  "f32_sub a b st =
     (let uiA = ucast a; uiB = ucast b
      in if signF32UI (uiA XOR uiB) then softfloat_addMagsF32 uiA uiB st
         else softfloat_subMagsF32 uiA uiB st)"

text \<open>The join of the two branches of \<open>softfloat_addMagsF64\<close> with different exponents.\<close>

definition addMagsF64_tail :: "bool \<Rightarrow> int \<Rightarrow> u64 \<Rightarrow> u64 \<Rightarrow> softfloat_state \<Rightarrow> u64 \<times> softfloat_state" where
  "addMagsF64_tail signZ expZ sigA sigB st =
     (let sigZ = 0x2000000000000000 + sigA + sigB
      in if sigZ < 0x4000000000000000
         then softfloat_roundPackToF64 signZ (expZ - 1) (push_bit 1 sigZ) st
         else softfloat_roundPackToF64 signZ expZ sigZ st)"

definition softfloat_addMagsF64 :: "u64 \<Rightarrow> u64 \<Rightarrow> bool \<Rightarrow> softfloat_state \<Rightarrow> u64 \<times> softfloat_state" where
  "softfloat_addMagsF64 uiA uiB signZ st =
     (let expA = expF64UI uiA;
          sigA = fracF64UI uiA;
          expB = expF64UI uiB;
          sigB = fracF64UI uiB;
          propagateNaN = (case softfloat_propagateNaNF64UI uiA uiB st of (uiZ, st) \<Rightarrow> (uiZ, st));
          expDiff = expA - expB
      in if expDiff = 0 then
           if expA = 0 then ((uiA + sigB), st)
           else if expA = 0x7FF then
             if sigA OR sigB \<noteq> 0 then propagateNaN else (uiA, st)
           else
             let expZ = expA;
                 sigZ = 0x0020000000000000 + sigA + sigB
             in softfloat_roundPackToF64 signZ expZ (push_bit 9 sigZ) st
         else
           let sigA = push_bit 9 sigA;
               sigB = push_bit 9 sigB
           in if expDiff < 0 then
                if expB = 0x7FF then
                  if sigB \<noteq> 0 then propagateNaN else ((packToF64UI signZ 0x7FF 0), st)
                else
                  let expZ = expB;
                      sigA = (if expA \<noteq> 0 then sigA + 0x2000000000000000 else push_bit 1 sigA);
                      sigA = softfloat_shiftRightJam64 sigA (word_of_int (- expDiff))
                  in addMagsF64_tail signZ expZ sigA sigB st
              else
                if expA = 0x7FF then
                  if sigA \<noteq> 0 then propagateNaN else (uiA, st)
                else
                  let expZ = expA;
                      sigB = (if expB \<noteq> 0 then sigB + 0x2000000000000000 else push_bit 1 sigB);
                      sigB = softfloat_shiftRightJam64 sigB (word_of_int expDiff)
                  in addMagsF64_tail signZ expZ sigA sigB st)"

definition softfloat_subMagsF64 :: "u64 \<Rightarrow> u64 \<Rightarrow> bool \<Rightarrow> softfloat_state \<Rightarrow> u64 \<times> softfloat_state" where
  "softfloat_subMagsF64 uiA uiB signZ st =
     (let expA = expF64UI uiA;
          sigA = fracF64UI uiA;
          expB = expF64UI uiB;
          sigB = fracF64UI uiB;
          propagateNaN = (case softfloat_propagateNaNF64UI uiA uiB st of (uiZ, st) \<Rightarrow> (uiZ, st));
          expDiff = expA - expB
      in if expDiff = 0 then
           if expA = 0x7FF then
             if sigA OR sigB \<noteq> 0 then propagateNaN
             else (defaultNaNF64UI, softfloat_raiseFlags softfloat_flag_invalid st)
           else
             let sigDiff = sint (sigA - sigB)
             in if sigDiff = 0 then
                  ((packToF64UI (softfloat_roundingMode st = softfloat_round_min) 0 0), st)
                else
                  let expA = (if expA \<noteq> 0 then expA - 1 else expA);
                      (signZ, sigDiff) = (if sigDiff < 0 then (\<not> signZ, - sigDiff) else (signZ, sigDiff));
                      shiftDist = uint (softfloat_countLeadingZeros64 (word_of_int sigDiff)) - 11;
                      expZ = expA - shiftDist;
                      (shiftDist, expZ) = (if expZ < 0 then (expA, 0) else (shiftDist, expZ))
                  in ((packToF64UI signZ expZ (push_bit (nat shiftDist) (word_of_int sigDiff))), st)
         else
           let sigA = push_bit 10 sigA;
               sigB = push_bit 10 sigB
           in if expDiff < 0 then
                let signZ = (\<not> signZ)
                in if expB = 0x7FF then
                     if sigB \<noteq> 0 then propagateNaN else ((packToF64UI signZ 0x7FF 0), st)
                   else
                     let sigA = sigA + (if expA \<noteq> 0 then 0x4000000000000000 else sigA);
                         sigA = softfloat_shiftRightJam64 sigA (word_of_int (- expDiff));
                         sigB = sigB OR 0x4000000000000000;
                         expZ = expB;
                         sigZ = sigB - sigA
                     in softfloat_normRoundPackToF64 signZ (expZ - 1) sigZ st
              else
                if expA = 0x7FF then
                  if sigA \<noteq> 0 then propagateNaN else (uiA, st)
                else
                  let sigB = sigB + (if expB \<noteq> 0 then 0x4000000000000000 else sigB);
                      sigB = softfloat_shiftRightJam64 sigB (word_of_int expDiff);
                      sigA = sigA OR 0x4000000000000000;
                      expZ = expA;
                      sigZ = sigA - sigB
                  in softfloat_normRoundPackToF64 signZ (expZ - 1) sigZ st)"

definition f64_add :: "u64 \<Rightarrow> u64 \<Rightarrow> softfloat_state \<Rightarrow> u64 \<times> softfloat_state" where
  "f64_add a b st =
     (let signA = signF64UI a; signB = signF64UI b
      in if signA = signB then softfloat_addMagsF64 a b signA st
         else softfloat_subMagsF64 a b signA st)"

definition f64_sub :: "u64 \<Rightarrow> u64 \<Rightarrow> softfloat_state \<Rightarrow> u64 \<times> softfloat_state" where
  "f64_sub a b st =
     (let signA = signF64UI a; signB = signF64UI b
      in if signA = signB then softfloat_subMagsF64 a b signA st
         else softfloat_addMagsF64 a b signA st)"

subsection \<open>Significands and exponents of finite numbers\<close>

text \<open>
  The significand of a magnitude code, for the exponent as it is stored: a subnormal number
  has a stored exponent that is one too small, so its fraction counts twice.
\<close>

definition fsig :: "nat \<Rightarrow> nat \<Rightarrow> nat" where
  "fsig P m = (if m div 2 ^ P = 0 then 2 * (m mod 2 ^ P) else 2 ^ P + m mod 2 ^ P)"

lemma fsig_less: "fsig P m < 2 * 2 ^ P"
  by (simp add: fsig_def)

lemma fsig_ge: "m div 2 ^ P \<noteq> 0 \<Longrightarrow> 2 ^ P \<le> fsig P m"
  by (simp add: fsig_def)

lemma mval_f32_fsig: "mval f32_fmt m = real (fsig 23 m) * pow2 (int (m div 2 ^ 23) - 150)"
proof (cases "m div 2 ^ 23 = 0")
  case True
  have "pow2 (- 149) = 2 * pow2 (- 150)" using pow2_shift [of "- 149" 1] by simp
  with True show ?thesis by (simp add: mval_def fsig_def ulp_exp_f32 Let_def)
next
  case False
  then have "int (m div 2 ^ 23 - 1) - 149 = int (m div 2 ^ 23) - 150" by linarith
  with False show ?thesis by (simp add: mval_def fsig_def ulp_exp_f32 Let_def)
qed

lemma jam32_rodd:
  assumes "0 < d" "d < 2 ^ 64" "unat s < 2 ^ 32"
  shows "int (unat (ucast (softfloat_shiftRightJam32 (ucast s) (word_of_int d)) :: u64)) = rodd (real (unat (s :: u64)) / 2 ^ nat d)"
proof -
  have d: "unat (word_of_int d :: u64) = nat d" using assms by (intro unat_word_of_int) simp_all
  then have "(word_of_int d :: u64) \<noteq> 0" using assms(1) by (intro notI) simp
  then show ?thesis
    using assms(3) softfloat_shiftRightJam32_rodd [of "word_of_int d" "ucast s"]
    by (simp add: d unat_ucast32 unat_ucast_down32)
qed

lemma addMagsF32_tail_round:
  assumes n: "int (2 ^ 29 + unat sigA + unat sigB) = rodd r" and r: "2 ^ 29 \<le> r" "r < 2 ^ 31"
    and e: "0 \<le> e" "e \<le> 0x7FF"
  shows "addMagsF32_tail s e sigA sigB st = f32_round s (r * pow2 (e - 156)) st"
proof -
  have "rodd r < 2 ^ 31" using r(2) by (intro rodd_less_even) simp_all
  then have lt: "2 ^ 29 + unat sigA + unat sigB < 2 ^ 31"
    unfolding n [symmetric] by (metis of_nat_less_iff of_nat_numeral of_nat_power)
  then have "unat (0x20000000 + sigA + sigB) = 2 ^ 29 + unat sigA + unat sigB" by (simp add: unat_plus)
  then show ?thesis
    unfolding addMagsF32_tail_def Let_def using n r e by (intro softfloat_roundPackToF32_norm1) simp_all
qed

lemma mval_f64_fsig: "mval f64_fmt m = real (fsig 52 m) * pow2 (int (m div 2 ^ 52) - 1075)"
proof (cases "m div 2 ^ 52 = 0")
  case True
  have "pow2 (- 1074) = 2 * pow2 (- 1075)" using pow2_shift [of "- 1074" 1] by simp
  with True show ?thesis by (simp add: mval_def fsig_def ulp_exp_f64 Let_def)
next
  case False
  then have "int (m div 2 ^ 52 - 1) - 1074 = int (m div 2 ^ 52) - 1075" by linarith
  with False show ?thesis by (simp add: mval_def fsig_def ulp_exp_f64 Let_def)
qed

lemma jam64_rodd:
  assumes "0 < d" "d < 2 ^ 64"
  shows "int (unat (softfloat_shiftRightJam64 s (word_of_int d))) = rodd (real (unat s) / 2 ^ nat d)"
proof -
  have d: "unat (word_of_int d :: u64) = nat d" using assms by (intro unat_word_of_int) simp_all
  then have "(word_of_int d :: u64) \<noteq> 0" using assms(1) by (intro notI) simp
  then show ?thesis
    using softfloat_shiftRightJam64_rodd [of "word_of_int d" s]
    by (simp add: d)
qed

lemma addMagsF64_tail_round:
  assumes n: "int (2 ^ 61 + unat sigA + unat sigB) = rodd r" and r: "2 ^ 61 \<le> r" "r < 2 ^ 63"
    and e: "0 \<le> e" "e \<le> 0x7FF"
  shows "addMagsF64_tail s e sigA sigB st = f64_round s (r * pow2 (e - 1084)) st"
proof -
  have "rodd r < 2 ^ 63" using r(2) by (intro rodd_less_even) simp_all
  then have lt: "2 ^ 61 + unat sigA + unat sigB < 2 ^ 63"
    unfolding n [symmetric] by (metis of_nat_less_iff of_nat_numeral of_nat_power)
  then have "unat (0x2000000000000000 + sigA + sigB) = 2 ^ 61 + unat sigA + unat sigB" by (simp add: unat_plus)
  then show ?thesis
    unfolding addMagsF64_tail_def Let_def using n r e by (intro softfloat_roundPackToF64_norm1) simp_all
qed

subsection \<open>Addition of magnitudes\<close>

lemma f32_finite_exp: "f32_finite a \<longleftrightarrow> f32_mag a div 2 ^ 23 < 0xFF"
  by (simp add: f32_finite_def inf_code_f32 div_less_iff_less_mult)

text \<open>Aligning the smaller operand: its significand, moved up by \<open>j\<close> bits.\<close>

lemma addMagsF32_align:
  fixes sig :: u64
  assumes "unat sig = m mod 2 ^ 23"
  shows "unat (push_bit 6 sig + (if int (m div 2 ^ 23) \<noteq> 0 then 0x20000000 else push_bit 6 sig))
         = fsig 23 m * 2 ^ 6"
proof -
  define f where "f = m mod 2 ^ 23"
  have lt: "f < 2 ^ 23" by (simp add: f_def)
  have sig: "unat sig = f" using assms by (simp add: f_def)
  have sh: "unat (push_bit 6 sig) = f * 2 ^ 6" using lt by (subst unat_push_bit) (simp_all add: sig)
  show ?thesis
    unfolding fsig_def f_def [symmetric]
    using lt unat_plus [of "push_bit 6 sig" "push_bit 6 sig"] unat_plus [of "push_bit 6 sig" "0x20000000"]
    by (cases "m div 2 ^ 23 = 0") (simp_all add: sh)
qed

lemma addMagsF32_diff:
  assumes big: "unat sigA = m mod 2 ^ 23" "m div 2 ^ 23 = eA" "eA \<noteq> 0" "eA < 0xFF"
    and small: "unat jam = nat (rodd (real (fsig 23 n * 2 ^ 6) / 2 ^ (eA - eB)))" "n div 2 ^ 23 = eB" "eB < eA"
  shows "addMagsF32_tail s (int eA) (push_bit 6 sigA) jam st = f32_round s (mval f32_fmt m + mval f32_fmt n) st"
    and "addMagsF32_tail s (int eA) jam (push_bit 6 sigA) st = f32_round s (mval f32_fmt m + mval f32_fmt n) st"
proof -
  define t where "t = real (fsig 23 n * 2 ^ 6) / 2 ^ (eA - eB)"
  define r where "r = of_int (int (fsig 23 m * 2 ^ 6)) + t"
  have m: "fsig 23 m = 2 ^ 23 + m mod 2 ^ 23" "m mod 2 ^ 23 < 2 ^ 23" using big by (simp_all add: fsig_def)
  have "m mod 2 ^ 23 * 2 ^ 6 < 2 ^ 23 * 2 ^ 6" using m(2) by (rule mult_strict_right_mono) simp
  then have sh: "unat (push_bit 6 sigA) = m mod 2 ^ 23 * 2 ^ 6"
    using unat_push_bit [of sigA 6] unfolding big(1) by simp
  have t: "0 \<le> t" "t < 2 ^ 29"
  proof -
    have "real (fsig 23 n * 2 ^ 6) < real (2 * 2 ^ 23 * 2 ^ 6)"
      using fsig_less [of 23 n] by (simp only: of_nat_less_iff) simp
    moreover have "(2 :: real) ^ 1 \<le> 2 ^ (eA - eB)" using small(3) by (intro power_increasing) simp_all
    ultimately show "t < 2 ^ 29" by (simp add: t_def pos_divide_less_eq)
  qed (simp add: t_def)
  have nn: "0 \<le> rodd t" using t(1) by (intro rodd_ge) simp
  have "rodd r = int (fsig 23 m * 2 ^ 6) + rodd t"
    unfolding r_def by (rule rodd_add_even) simp
  also have "\<dots> = int (2 ^ 29 + unat (push_bit 6 sigA) + unat jam)"
    using nn unfolding sh small(1) t_def [symmetric] m(1) by (simp add: distrib_right)
  finally have n: "int (2 ^ 29 + unat (push_bit 6 sigA) + unat jam) = rodd r" by simp
  have "real (m mod 2 ^ 23) < real (2 ^ 23)" using m(2) by (simp only: of_nat_less_iff)
  then have r: "2 ^ 29 \<le> r" "r < 2 ^ 31" using t by (simp_all add: r_def m)
  have "mval f32_fmt n = t * pow2 (int eA - 156)"
  proof -
    have "pow2 (int eB - 150) = 2 ^ 6 * pow2 (int eB - 156)" using pow2_shift [of "int eB - 150" 6] by simp
    moreover have "pow2 (int eA - 156) = 2 ^ (eA - eB) * pow2 (int eB - 156)"
      using pow2_shift [of "int eA - 156" "eA - eB"] small(3) by (simp add: of_nat_diff)
    ultimately show ?thesis unfolding mval_f32_fsig small(2) by (simp add: t_def)
  qed
  moreover have "mval f32_fmt m = real (fsig 23 m * 2 ^ 6) * pow2 (int eA - 156)"
    using pow2_shift [of "int eA - 150" 6] unfolding mval_f32_fsig big(2) by simp
  ultimately have x: "r * pow2 (int eA - 156) = mval f32_fmt m + mval f32_fmt n"
    by (simp add: r_def algebra_simps)
  show "addMagsF32_tail s (int eA) (push_bit 6 sigA) jam st = f32_round s (mval f32_fmt m + mval f32_fmt n) st"
    unfolding x [symmetric] using n r big(4) by (intro addMagsF32_tail_round) simp_all
  show "addMagsF32_tail s (int eA) jam (push_bit 6 sigA) st = f32_round s (mval f32_fmt m + mval f32_fmt n) st"
    unfolding x [symmetric] using n r big(4) by (intro addMagsF32_tail_round) (simp_all add: add_ac)
qed

lemma f64_finite_exp: "f64_finite a \<longleftrightarrow> f64_mag a div 2 ^ 52 < 0x7FF"
  by (simp add: f64_finite_def inf_code_f64 div_less_iff_less_mult)

text \<open>Aligning the smaller operand: its significand, moved up by \<open>j\<close> bits.\<close>

lemma addMagsF64_align:
  fixes sig :: u64
  assumes "unat sig = m mod 2 ^ 52"
  shows "unat (if int (m div 2 ^ 52) \<noteq> 0 then push_bit 9 sig + 0x2000000000000000 else push_bit 1 (push_bit 9 sig))
         = fsig 52 m * 2 ^ 9"
proof -
  define f where "f = m mod 2 ^ 52"
  have lt: "f < 2 ^ 52" by (simp add: f_def)
  have sig: "unat sig = f" using assms by (simp add: f_def)
  have sh: "unat (push_bit 9 sig) = f * 2 ^ 9" using lt by (subst unat_push_bit) (simp_all add: sig)
  show ?thesis
    unfolding fsig_def f_def [symmetric]
    using lt unat_push_bit [of "push_bit 9 sig" 1] unat_plus [of "push_bit 9 sig" "0x2000000000000000"]
    by (cases "m div 2 ^ 52 = 0") (simp_all add: sh)
qed

lemma addMagsF64_diff:
  assumes big: "unat sigA = m mod 2 ^ 52" "m div 2 ^ 52 = eA" "eA \<noteq> 0" "eA < 0x7FF"
    and small: "unat jam = nat (rodd (real (fsig 52 n * 2 ^ 9) / 2 ^ (eA - eB)))" "n div 2 ^ 52 = eB" "eB < eA"
  shows "addMagsF64_tail s (int eA) (push_bit 9 sigA) jam st = f64_round s (mval f64_fmt m + mval f64_fmt n) st"
    and "addMagsF64_tail s (int eA) jam (push_bit 9 sigA) st = f64_round s (mval f64_fmt m + mval f64_fmt n) st"
proof -
  define t where "t = real (fsig 52 n * 2 ^ 9) / 2 ^ (eA - eB)"
  define r where "r = of_int (int (fsig 52 m * 2 ^ 9)) + t"
  have m: "fsig 52 m = 2 ^ 52 + m mod 2 ^ 52" "m mod 2 ^ 52 < 2 ^ 52" using big by (simp_all add: fsig_def)
  have "m mod 2 ^ 52 * 2 ^ 9 < 2 ^ 52 * 2 ^ 9" using m(2) by (rule mult_strict_right_mono) simp
  then have sh: "unat (push_bit 9 sigA) = m mod 2 ^ 52 * 2 ^ 9"
    using unat_push_bit [of sigA 9] unfolding big(1) by simp
  have t: "0 \<le> t" "t < 2 ^ 61"
  proof -
    have "real (fsig 52 n * 2 ^ 9) < real (2 * 2 ^ 52 * 2 ^ 9)"
      using fsig_less [of 52 n] by (simp only: of_nat_less_iff) simp
    moreover have "(2 :: real) ^ 1 \<le> 2 ^ (eA - eB)" using small(3) by (intro power_increasing) simp_all
    ultimately show "t < 2 ^ 61" by (simp add: t_def pos_divide_less_eq)
  qed (simp add: t_def)
  have nn: "0 \<le> rodd t" using t(1) by (intro rodd_ge) simp
  have "rodd r = int (fsig 52 m * 2 ^ 9) + rodd t"
    unfolding r_def by (rule rodd_add_even) simp
  also have "\<dots> = int (2 ^ 61 + unat (push_bit 9 sigA) + unat jam)"
    using nn unfolding sh small(1) t_def [symmetric] m(1) by (simp add: distrib_right)
  finally have n: "int (2 ^ 61 + unat (push_bit 9 sigA) + unat jam) = rodd r" by simp
  have "real (m mod 2 ^ 52) < real (2 ^ 52)" using m(2) by (simp only: of_nat_less_iff)
  then have r: "2 ^ 61 \<le> r" "r < 2 ^ 63" using t by (simp_all add: r_def m)
  have "mval f64_fmt n = t * pow2 (int eA - 1084)"
  proof -
    have "pow2 (int eB - 1075) = 2 ^ 9 * pow2 (int eB - 1084)" using pow2_shift [of "int eB - 1075" 9] by simp
    moreover have "pow2 (int eA - 1084) = 2 ^ (eA - eB) * pow2 (int eB - 1084)"
      using pow2_shift [of "int eA - 1084" "eA - eB"] small(3) by (simp add: of_nat_diff)
    ultimately show ?thesis unfolding mval_f64_fsig small(2) by (simp add: t_def)
  qed
  moreover have "mval f64_fmt m = real (fsig 52 m * 2 ^ 9) * pow2 (int eA - 1084)"
    using pow2_shift [of "int eA - 1075" 9] unfolding mval_f64_fsig big(2) by simp
  ultimately have x: "r * pow2 (int eA - 1084) = mval f64_fmt m + mval f64_fmt n"
    by (simp add: r_def algebra_simps)
  show "addMagsF64_tail s (int eA) (push_bit 9 sigA) jam st = f64_round s (mval f64_fmt m + mval f64_fmt n) st"
    unfolding x [symmetric] using n r big(4) by (intro addMagsF64_tail_round) simp_all
  show "addMagsF64_tail s (int eA) jam (push_bit 9 sigA) st = f64_round s (mval f64_fmt m + mval f64_fmt n) st"
    unfolding x [symmetric] using n r big(4) by (intro addMagsF64_tail_round) (simp_all add: add_ac)
qed

lemma addMagsF32_subnormal:
  assumes e: "f32_mag a div 2 ^ 23 = 0" "f32_mag b div 2 ^ 23 = 0"
  shows "softfloat_addMagsF32 (ucast a) (ucast b) st =
         f32_round (f32_sign a) (mval f32_fmt (f32_mag a) + mval f32_fmt (f32_mag b)) st"
proof -
  define m n where "m = f32_mag a" and "n = f32_mag b"
  have mn: "m < 2 ^ 23" "n < 2 ^ 23" using e by (simp_all add: m_def n_def div_eq_0_iff)
  have sig: "unat (fracF32UI (ucast b)) = n" using mn by (simp add: f32_fields n_def [symmetric])
  have ua: "unat a = of_bool (f32_sign a) * 2 ^ 31 + m" unfolding m_def by (rule f32_unat)
  have "unat (ucast a + fracF32UI (ucast b)) = of_bool (f32_sign a) * 2 ^ 31 + (m + n)"
    using mn by (subst unat_plus) (simp_all add: unat_ucast32 sig ua)
  then have "ucast (ucast a + fracF32UI (ucast b)) = f32_pack (f32_sign a) (m + n)"
    using mn by (simp only: word_unat_eq_iff unat_ucast_down32) (simp add: unat_f32_pack of_bool_def)
  then have "softfloat_addMagsF32 (ucast a) (ucast b) st = (f32_pack (f32_sign a) (m + n), st)"
    using e by (simp only: softfloat_addMagsF32_def Let_def f32_fields) simp
  moreover have "mval f32_fmt m + mval f32_fmt n = mval f32_fmt (m + n)"
    using mn f32.mval_code [of m 0] f32.mval_code [of n 0] f32.mval_code [of "m + n" 0] by (simp add: algebra_simps)
  moreover have "m + n < inf_code f32_fmt" using mn by (simp add: inf_code_f32)
  ultimately show ?thesis by (simp add: m_def [symmetric] n_def [symmetric] f32_round_exact)
qed

lemma addMagsF32_equal:
  assumes e: "f32_mag a div 2 ^ 23 = eA" "f32_mag b div 2 ^ 23 = eA" "eA \<noteq> 0" "eA < 0xFF"
  shows "softfloat_addMagsF32 (ucast a) (ucast b) st =
         f32_round (f32_sign a) (mval f32_fmt (f32_mag a) + mval f32_fmt (f32_mag b)) st"
proof -
  define fA fB where "fA = f32_mag a mod 2 ^ 23" and "fB = f32_mag b mod 2 ^ 23"
  let ?z = "0x01000000 + fracF32UI (ucast a) + fracF32UI (ucast b)"
  define z where "z = 2 ^ 24 + fA + fB"
  have f: "fA < 2 ^ 23" "fB < 2 ^ 23" by (simp_all add: fA_def fB_def)
  have frac: "unat (fracF32UI (ucast a)) = fA" "unat (fracF32UI (ucast b)) = fB"
    by (simp_all only: f32_fields fA_def fB_def)
  have z: "unat ?z = z" using f by (simp add: unat_plus frac z_def)
  have zb: "2 ^ 24 \<le> z" "z < 2 ^ 24 * 2" using f by (simp_all add: z_def)
  have x: "mval f32_fmt (f32_mag a) + mval f32_fmt (f32_mag b) = real z * pow2 (int eA - 150)"
    using e(3) unfolding mval_f32_fsig fsig_def e(1,2) fA_def [symmetric] fB_def [symmetric]
    by (simp add: z_def algebra_simps)
  have sh: "unat (push_bit 6 ?z) = z * 2 ^ 6" using zb by (subst unat_push_bit) (simp_all only: z, simp_all)
  then have "softfloat_roundPackToF32 (f32_sign a) (int eA) (push_bit 6 ?z) st = f32_round (f32_sign a) (real (z * 2 ^ 6) * pow2 (int eA - 156)) st"
    using zb e(4) of_nat_le_iff [of "2 ^ 24" z, where 'a = real] of_nat_less_iff [of z "2 ^ 24 * 2", where 'a = real]
    by (intro softfloat_roundPackToF32_round) simp_all
  also have "real (z * 2 ^ 6) * pow2 (int eA - 156) = real z * pow2 (int eA - 150)"
    using pow2_shift [of "int eA - 150" 6] by simp
  finally have rp: "softfloat_roundPackToF32 (f32_sign a) (int eA) (push_bit 6 ?z) st = f32_round (f32_sign a) (real z * pow2 (int eA - 150)) st" .
  show ?thesis
  proof (cases "?z AND 1 = 0 \<and> int eA < 0xFE")
    case True
    then have "even z" using unat_and_mask [of ?z 1] by (simp add: z flip: unat_eq_0) presburger
    then obtain q where q: "z = 2 * q" by auto
    have lt: "eA * 2 ^ 23 + q < inf_code f32_fmt" using True zb q by (simp add: inf_code_f32)
    have "ucast (packToF32UI (f32_sign a) (int eA) (drop_bit 1 ?z)) = f32_pack (f32_sign a) (eA * 2 ^ 23 + q)"
      using True lt by (subst packToF32UI_pack) (simp_all add: nat_of_word z q inf_code_f32)
    moreover have "real z * pow2 (int eA - 150) = mval f32_fmt (eA * 2 ^ 23 + q)"
      using f32.mval_code [of q eA] zb q pow2_shift [of "int eA - 149" 1] by (simp add: ulp_exp_f32)
    ultimately show ?thesis
      using True e f32_round_exact [OF lt]
      by (simp only: x softfloat_addMagsF32_def Let_def f32_fields) simp
  next
    case False
    with rp e show ?thesis by (simp only: x softfloat_addMagsF32_def Let_def f32_fields) simp
  qed
qed

lemma addMagsF32_less:
  assumes less: "f32_mag a div 2 ^ 23 < f32_mag b div 2 ^ 23" and fin: "f32_finite b"
  shows "softfloat_addMagsF32 (ucast a) (ucast b) st =
         f32_round (f32_sign a) (mval f32_fmt (f32_mag a) + mval f32_fmt (f32_mag b)) st"
proof -
  define eA eB where "eA = f32_mag a div 2 ^ 23" and "eB = f32_mag b div 2 ^ 23"
  define sigA sigB where "sigA = fracF32UI (ucast a)" and "sigB = fracF32UI (ucast b)"
  have e: "eA < eB" "eB < 0xFF" using less fin by (simp_all only: f32_finite_exp eA_def eB_def)
  have exps: "expF32UI (ucast a) = int eA" "expF32UI (ucast b) = int eB"
    and sigs: "unat sigA = f32_mag a mod 2 ^ 23" "unat sigB = f32_mag b mod 2 ^ 23"
    by (simp_all only: f32_fields eA_def eB_def sigA_def sigB_def)
  let ?w = "push_bit 6 sigA + (if int eA \<noteq> 0 then 0x20000000 else push_bit 6 sigA)"
  let ?j = "ucast (softfloat_shiftRightJam32 (ucast ?w) (word_of_int (- (int eA - int eB)))) :: u64"
  have w: "unat ?w = fsig 23 (f32_mag a) * 2 ^ 6"
    unfolding eA_def by (rule addMagsF32_align [OF sigs(1)])
  have d: "0 < - (int eA - int eB)" "- (int eA - int eB) < 2 ^ 64" "nat (- (int eA - int eB)) = eB - eA"
    using e by simp_all
  have "int (unat ?j) = rodd (real (fsig 23 (f32_mag a) * 2 ^ 6) / 2 ^ (eB - eA))"
    using jam32_rodd [OF d(1,2), of ?w] fsig_less [of 23 "f32_mag a"] by (simp only: w d(3)) simp
  then have j: "unat ?j = nat (rodd (real (fsig 23 (f32_mag a) * 2 ^ 6) / 2 ^ (eB - eA)))"
    by (metis nat_int)
  have "softfloat_addMagsF32 (ucast a) (ucast b) st =
    addMagsF32_tail (f32_sign a) (int eB) (ucast (softfloat_shiftRightJam32 (ucast ?w) (word_of_int (- (int eA - int eB))))) (push_bit 6 sigB) st"
    using e by (simp only: softfloat_addMagsF32_def Let_def exps sigA_def [symmetric] sigB_def [symmetric] signF32UI_ucast) simp
  also have "\<dots> = f32_round (f32_sign a) (mval f32_fmt (f32_mag b) + mval f32_fmt (f32_mag a)) st"
    using e by (intro addMagsF32_diff(2) [OF sigs(2) _ _ _ j]) (simp_all only: eA_def eB_def)
  finally show ?thesis by (simp only: add.commute)
qed

lemma addMagsF32_greater:
  assumes less: "f32_mag b div 2 ^ 23 < f32_mag a div 2 ^ 23" and fin: "f32_finite a"
  shows "softfloat_addMagsF32 (ucast a) (ucast b) st =
         f32_round (f32_sign a) (mval f32_fmt (f32_mag a) + mval f32_fmt (f32_mag b)) st"
proof -
  define eA eB where "eA = f32_mag a div 2 ^ 23" and "eB = f32_mag b div 2 ^ 23"
  define sigA sigB where "sigA = fracF32UI (ucast a)" and "sigB = fracF32UI (ucast b)"
  have e: "eB < eA" "eA < 0xFF" using less fin by (simp_all only: f32_finite_exp eA_def eB_def)
  have exps: "expF32UI (ucast a) = int eA" "expF32UI (ucast b) = int eB"
    and sigs: "unat sigA = f32_mag a mod 2 ^ 23" "unat sigB = f32_mag b mod 2 ^ 23"
    by (simp_all only: f32_fields eA_def eB_def sigA_def sigB_def)
  let ?w = "push_bit 6 sigB + (if int eB \<noteq> 0 then 0x20000000 else push_bit 6 sigB)"
  let ?j = "ucast (softfloat_shiftRightJam32 (ucast ?w) (word_of_int (int eA - int eB))) :: u64"
  have w: "unat ?w = fsig 23 (f32_mag b) * 2 ^ 6"
    unfolding eB_def by (rule addMagsF32_align [OF sigs(2)])
  have d: "0 < int eA - int eB" "int eA - int eB < 2 ^ 64" "nat (int eA - int eB) = eA - eB"
    using e by simp_all
  have "int (unat ?j) = rodd (real (fsig 23 (f32_mag b) * 2 ^ 6) / 2 ^ (eA - eB))"
    using jam32_rodd [OF d(1,2), of ?w] fsig_less [of 23 "f32_mag b"] by (simp only: w d(3)) simp
  then have j: "unat ?j = nat (rodd (real (fsig 23 (f32_mag b) * 2 ^ 6) / 2 ^ (eA - eB)))"
    by (metis nat_int)
  have "softfloat_addMagsF32 (ucast a) (ucast b) st =
    addMagsF32_tail (f32_sign a) (int eA) (push_bit 6 sigA) (ucast (softfloat_shiftRightJam32 (ucast ?w) (word_of_int (int eA - int eB)))) st"
    using e by (simp only: softfloat_addMagsF32_def Let_def exps sigA_def [symmetric] sigB_def [symmetric] signF32UI_ucast) simp
  also have "\<dots> = f32_round (f32_sign a) (mval f32_fmt (f32_mag a) + mval f32_fmt (f32_mag b)) st"
    using e by (intro addMagsF32_diff(1) [OF sigs(1) _ _ _ j]) (simp_all only: eA_def eB_def)
  finally show ?thesis .
qed

theorem softfloat_addMagsF32_finite:
  assumes "f32_finite a" "f32_finite b"
  shows "softfloat_addMagsF32 (ucast a) (ucast b) st =
         f32_round (f32_sign a) (mval f32_fmt (f32_mag a) + mval f32_fmt (f32_mag b)) st"
  using addMagsF32_less [of a b] addMagsF32_greater [of b a] addMagsF32_subnormal [of a b]
    addMagsF32_equal [of a _ b] assms f32_finite_exp
  by (metis linorder_neqE_nat)

lemma addMagsF64_subnormal:
  assumes e: "f64_mag a div 2 ^ 52 = 0" "f64_mag b div 2 ^ 52 = 0"
  shows "softfloat_addMagsF64 a b (f64_sign a) st =
         f64_round (f64_sign a) (mval f64_fmt (f64_mag a) + mval f64_fmt (f64_mag b)) st"
proof -
  define m n where "m = f64_mag a" and "n = f64_mag b"
  have mn: "m < 2 ^ 52" "n < 2 ^ 52" using e by (simp_all add: m_def n_def div_eq_0_iff)
  have sig: "unat (fracF64UI b) = n" using mn by (simp add: f64_fields n_def [symmetric])
  have ua: "unat a = of_bool (f64_sign a) * 2 ^ 63 + m" unfolding m_def by (rule f64_unat)
  have "unat (a + fracF64UI b) = of_bool (f64_sign a) * 2 ^ 63 + (m + n)"
    using mn by (subst unat_plus) (simp_all add: sig ua)
  then have "a + fracF64UI b = f64_pack (f64_sign a) (m + n)"
    using mn by (simp only: word_unat_eq_iff) (simp add: unat_f64_pack of_bool_def)
  then have "softfloat_addMagsF64 a b (f64_sign a) st = (f64_pack (f64_sign a) (m + n), st)"
    using e by (simp only: softfloat_addMagsF64_def Let_def f64_fields) simp
  moreover have "mval f64_fmt m + mval f64_fmt n = mval f64_fmt (m + n)"
    using mn f64.mval_code [of m 0] f64.mval_code [of n 0] f64.mval_code [of "m + n" 0] by (simp add: algebra_simps)
  moreover have "m + n < inf_code f64_fmt" using mn by (simp add: inf_code_f64)
  ultimately show ?thesis by (simp add: m_def [symmetric] n_def [symmetric] f64_round_exact)
qed

lemma addMagsF64_equal:
  assumes e: "f64_mag a div 2 ^ 52 = eA" "f64_mag b div 2 ^ 52 = eA" "eA \<noteq> 0" "eA < 0x7FF"
  shows "softfloat_addMagsF64 a b (f64_sign a) st =
         f64_round (f64_sign a) (mval f64_fmt (f64_mag a) + mval f64_fmt (f64_mag b)) st"
proof -
  define fA fB where "fA = f64_mag a mod 2 ^ 52" and "fB = f64_mag b mod 2 ^ 52"
  let ?z = "0x0020000000000000 + fracF64UI a + fracF64UI b"
  define z where "z = 2 ^ 53 + fA + fB"
  have f: "fA < 2 ^ 52" "fB < 2 ^ 52" by (simp_all add: fA_def fB_def)
  have frac: "unat (fracF64UI a) = fA" "unat (fracF64UI b) = fB"
    by (simp_all only: f64_fields fA_def fB_def)
  have z: "unat ?z = z" using f by (simp add: unat_plus frac z_def)
  have zb: "2 ^ 53 \<le> z" "z < 2 ^ 53 * 2" using f by (simp_all add: z_def)
  have x: "mval f64_fmt (f64_mag a) + mval f64_fmt (f64_mag b) = real z * pow2 (int eA - 1075)"
    using e(3) unfolding mval_f64_fsig fsig_def e(1,2) fA_def [symmetric] fB_def [symmetric]
    by (simp add: z_def algebra_simps)
  have sh: "unat (push_bit 9 ?z) = z * 2 ^ 9" using zb by (subst unat_push_bit) (simp_all only: z, simp_all)
  then have "softfloat_roundPackToF64 (f64_sign a) (int eA) (push_bit 9 ?z) st = f64_round (f64_sign a) (real (z * 2 ^ 9) * pow2 (int eA - 1084)) st"
    using zb e(4) of_nat_le_iff [of "2 ^ 53" z, where 'a = real] of_nat_less_iff [of z "2 ^ 53 * 2", where 'a = real]
    by (intro softfloat_roundPackToF64_round) simp_all
  also have "real (z * 2 ^ 9) * pow2 (int eA - 1084) = real z * pow2 (int eA - 1075)"
    using pow2_shift [of "int eA - 1075" 9] by simp
  finally have rp: "softfloat_roundPackToF64 (f64_sign a) (int eA) (push_bit 9 ?z) st = f64_round (f64_sign a) (real z * pow2 (int eA - 1075)) st" .
  then show ?thesis using e by (simp only: x softfloat_addMagsF64_def Let_def f64_fields) simp
qed

lemma addMagsF64_less:
  assumes less: "f64_mag a div 2 ^ 52 < f64_mag b div 2 ^ 52" and fin: "f64_finite b"
  shows "softfloat_addMagsF64 a b (f64_sign a) st =
         f64_round (f64_sign a) (mval f64_fmt (f64_mag a) + mval f64_fmt (f64_mag b)) st"
proof -
  define eA eB where "eA = f64_mag a div 2 ^ 52" and "eB = f64_mag b div 2 ^ 52"
  define sigA sigB where "sigA = fracF64UI a" and "sigB = fracF64UI b"
  have e: "eA < eB" "eB < 0x7FF" using less fin by (simp_all only: f64_finite_exp eA_def eB_def)
  have exps: "expF64UI a = int eA" "expF64UI b = int eB"
    and sigs: "unat sigA = f64_mag a mod 2 ^ 52" "unat sigB = f64_mag b mod 2 ^ 52"
    by (simp_all only: f64_fields eA_def eB_def sigA_def sigB_def)
  let ?w = "if int eA \<noteq> 0 then push_bit 9 sigA + 0x2000000000000000 else push_bit 1 (push_bit 9 sigA)"
  let ?j = "softfloat_shiftRightJam64 ?w (word_of_int (- (int eA - int eB))) :: u64"
  have w: "unat ?w = fsig 52 (f64_mag a) * 2 ^ 9"
    unfolding eA_def by (rule addMagsF64_align [OF sigs(1)])
  have d: "0 < - (int eA - int eB)" "- (int eA - int eB) < 2 ^ 64" "nat (- (int eA - int eB)) = eB - eA"
    using e by simp_all
  have "int (unat ?j) = rodd (real (fsig 52 (f64_mag a) * 2 ^ 9) / 2 ^ (eB - eA))"
    using jam64_rodd [OF d(1,2), of ?w] fsig_less [of 52 "f64_mag a"] by (simp only: w d(3))
  then have j: "unat ?j = nat (rodd (real (fsig 52 (f64_mag a) * 2 ^ 9) / 2 ^ (eB - eA)))"
    by (metis nat_int)
  have "softfloat_addMagsF64 a b (f64_sign a) st =
    addMagsF64_tail (f64_sign a) (int eB) (softfloat_shiftRightJam64 ?w (word_of_int (- (int eA - int eB)))) (push_bit 9 sigB) st"
    using e by (simp only: softfloat_addMagsF64_def Let_def exps sigA_def [symmetric] sigB_def [symmetric]) simp
  also have "\<dots> = f64_round (f64_sign a) (mval f64_fmt (f64_mag b) + mval f64_fmt (f64_mag a)) st"
    using e by (intro addMagsF64_diff(2) [OF sigs(2) _ _ _ j]) (simp_all only: eA_def eB_def)
  finally show ?thesis by (simp only: add.commute)
qed

lemma addMagsF64_greater:
  assumes less: "f64_mag b div 2 ^ 52 < f64_mag a div 2 ^ 52" and fin: "f64_finite a"
  shows "softfloat_addMagsF64 a b (f64_sign a) st =
         f64_round (f64_sign a) (mval f64_fmt (f64_mag a) + mval f64_fmt (f64_mag b)) st"
proof -
  define eA eB where "eA = f64_mag a div 2 ^ 52" and "eB = f64_mag b div 2 ^ 52"
  define sigA sigB where "sigA = fracF64UI a" and "sigB = fracF64UI b"
  have e: "eB < eA" "eA < 0x7FF" using less fin by (simp_all only: f64_finite_exp eA_def eB_def)
  have exps: "expF64UI a = int eA" "expF64UI b = int eB"
    and sigs: "unat sigA = f64_mag a mod 2 ^ 52" "unat sigB = f64_mag b mod 2 ^ 52"
    by (simp_all only: f64_fields eA_def eB_def sigA_def sigB_def)
  let ?w = "if int eB \<noteq> 0 then push_bit 9 sigB + 0x2000000000000000 else push_bit 1 (push_bit 9 sigB)"
  let ?j = "softfloat_shiftRightJam64 ?w (word_of_int (int eA - int eB)) :: u64"
  have w: "unat ?w = fsig 52 (f64_mag b) * 2 ^ 9"
    unfolding eB_def by (rule addMagsF64_align [OF sigs(2)])
  have d: "0 < int eA - int eB" "int eA - int eB < 2 ^ 64" "nat (int eA - int eB) = eA - eB"
    using e by simp_all
  have "int (unat ?j) = rodd (real (fsig 52 (f64_mag b) * 2 ^ 9) / 2 ^ (eA - eB))"
    using jam64_rodd [OF d(1,2), of ?w] fsig_less [of 52 "f64_mag b"] by (simp only: w d(3))
  then have j: "unat ?j = nat (rodd (real (fsig 52 (f64_mag b) * 2 ^ 9) / 2 ^ (eA - eB)))"
    by (metis nat_int)
  have "softfloat_addMagsF64 a b (f64_sign a) st =
    addMagsF64_tail (f64_sign a) (int eA) (push_bit 9 sigA) (softfloat_shiftRightJam64 ?w (word_of_int (int eA - int eB))) st"
    using e by (simp only: softfloat_addMagsF64_def Let_def exps sigA_def [symmetric] sigB_def [symmetric]) simp
  also have "\<dots> = f64_round (f64_sign a) (mval f64_fmt (f64_mag a) + mval f64_fmt (f64_mag b)) st"
    using e by (intro addMagsF64_diff(1) [OF sigs(1) _ _ _ j]) (simp_all only: eA_def eB_def)
  finally show ?thesis .
qed

theorem softfloat_addMagsF64_finite:
  assumes "f64_finite a" "f64_finite b"
  shows "softfloat_addMagsF64 a b (f64_sign a) st =
         f64_round (f64_sign a) (mval f64_fmt (f64_mag a) + mval f64_fmt (f64_mag b)) st"
  using addMagsF64_less [of a b] addMagsF64_greater [of b a] addMagsF64_subnormal [of a b]
    addMagsF64_equal [of a _ b] assms f64_finite_exp
  by (metis linorder_neqE_nat)

subsection \<open>Subtraction of magnitudes\<close>

lemma subMagsF32_align:
  fixes sig :: u64
  assumes "unat sig = m mod 2 ^ 23"
  shows "unat (push_bit 7 sig + (if int (m div 2 ^ 23) \<noteq> 0 then 0x40000000 else push_bit 7 sig)) = fsig 23 m * 2 ^ 7"
proof -
  define f where "f = m mod 2 ^ 23"
  have lt: "f < 2 ^ 23" by (simp add: f_def)
  have sig: "unat sig = f" using assms by (simp add: f_def)
  have sh: "unat (push_bit 7 sig) = f * 2 ^ 7" using lt by (subst unat_push_bit) (simp_all add: sig)
  show ?thesis
    unfolding fsig_def f_def [symmetric]
    using lt unat_plus [of "push_bit 7 sig" "push_bit 7 sig"] unat_plus [of "push_bit 7 sig" "0x40000000"]
    by (cases "m div 2 ^ 23 = 0") (simp_all add: sh)
qed

lemma subMagsF32_diff:
  assumes big: "unat sigA = m mod 2 ^ 23" "m div 2 ^ 23 = eA" "eA \<noteq> 0" "eA < 0xFF"
    and small: "int (unat jam) = rodd (real (fsig 23 n * 2 ^ 7) / 2 ^ (eA - eB))" "n div 2 ^ 23 = eB" "eB < eA"
  shows "softfloat_normRoundPackToF32 s (int eA - 1) ((push_bit 7 sigA OR 0x40000000) - jam) st =
         f32_round s (mval f32_fmt m - mval f32_fmt n) st"
proof -
  define f where "f = m mod 2 ^ 23"
  define N where "N = fsig 23 m * 2 ^ 7"
  define d where "d = eA - eB - 1"
  define t where "t = real (fsig 23 n * 2 ^ 7) / 2 ^ Suc d"
  have d: "eA - eB = Suc d" using small(3) by (simp add: d_def)
  have f: "f < 2 ^ 23" "N = 2 ^ 30 + f * 2 ^ 7" using big(2,3) by (simp_all add: f_def N_def fsig_def)
  have "unat (push_bit 7 sigA) = f * 2 ^ 7" using f by (subst unat_push_bit) (simp_all only: big(1) f_def [symmetric], simp_all)
  then have X: "unat (push_bit 7 sigA OR 0x40000000) = N"
    using unat_or_exp [of "push_bit 7 sigA" 30] f by simp
  have N: "2 ^ 30 \<le> N" "N < 2 ^ 31" "even N" using f by simp_all
  have jam: "int (unat jam) = rodd t" using small(1) by (simp only: t_def d)
  have Y: "real (fsig 23 n * 2 ^ 7) < 2 ^ 31"
    using fsig_less [of 23 n] of_nat_less_iff [of "fsig 23 n" "2 ^ 24", where 'a = real] by simp
  have t_less: "t < 2 ^ (30 - c)" if "c \<le> d" "c \<le> 30" for c
  proof -
    have "(2 :: real) ^ 31 = 2 ^ (30 - c) * 2 ^ Suc c" using that(2) by (simp only: power_add [symmetric]) simp
    also have "\<dots> \<le> 2 ^ (30 - c) * 2 ^ Suc d" using that(1) by (intro mult_left_mono power_increasing) simp_all
    finally show ?thesis using Y by (simp only: t_def pos_divide_less_eq zero_less_power zero_less_numeral)
  qed
  have t0: "0 \<le> t" by (simp add: t_def)
  define r where "r = real N - t"
  have "rodd t < 2 ^ 30" using t_less [of 0] by (intro rodd_less_even) simp_all
  then have jl: "unat jam < 2 ^ 30" unfolding jam [symmetric] by (metis of_nat_less_iff of_nat_numeral of_nat_power)
  then have sub: "unat ((push_bit 7 sigA OR 0x40000000) - jam) = N - unat jam" using N X by (subst unat_minus) simp_all
  have "rodd (of_int (int N) - t) = int N - rodd t" using N(3) by (intro rodd_diff_even) simp
  then have rr: "int (N - unat jam) = rodd r" using jl N by (simp add: r_def jam of_nat_diff flip: jam)
  have sticky: "real (N - unat jam) = r \<or> int (N - unat jam) = rodd r \<and> 2 ^ 25 \<le> N - unat jam"
  proof (cases "d = 0")
    case True
    then have "t = of_int (int (fsig 23 n * 2 ^ 6))" by (simp add: t_def)
    then have "r = of_int (int N - int (fsig 23 n * 2 ^ 6))" by (simp add: r_def)
    then have "of_int (rodd r) = r" by (metis rodd_of_int)
    then show ?thesis using rr by (metis of_int_of_nat_eq)
  next
    case False
    then have "rodd t < 2 ^ 29" using t_less [of 1] by (intro rodd_less_even) simp_all
    then have "unat jam < 2 ^ 29" unfolding jam [symmetric] by (metis of_nat_less_iff of_nat_numeral of_nat_power)
    then have "2 ^ 25 \<le> N - unat jam" using N(1) by simp
    then show ?thesis using rr by blast
  qed
  have x: "r * pow2 (int eA - 1 - 156) = mval f32_fmt m - mval f32_fmt n"
  proof -
    have "pow2 (int eA - 150) = 2 ^ 7 * pow2 (int eA - 1 - 156)" using pow2_shift [of "int eA - 150" 7] by simp
    moreover have "int eA - 150 - int (Suc d) = int eB - 150" using d by linarith
    then have "pow2 (int eA - 150) = 2 ^ Suc d * pow2 (int eB - 150)"
      using pow2_shift [of "int eA - 150" "Suc d"] by (simp only:)
    ultimately show ?thesis
      unfolding mval_f32_fsig big(2) small(2) by (simp add: r_def N_def t_def field_simps)
  qed
  show ?thesis
    unfolding x [symmetric] using sticky jl N big(4)
    by (intro softfloat_normRoundPackToF32_round) (simp_all add: sub)
qed

lemma subMagsF32_less:
  assumes less: "f32_mag a div 2 ^ 23 < f32_mag b div 2 ^ 23" and fin: "f32_finite b"
  shows "softfloat_subMagsF32 (ucast a) (ucast b) st =
         f32_round (\<not> f32_sign a) (mval f32_fmt (f32_mag b) - mval f32_fmt (f32_mag a)) st"
proof -
  define eA eB where "eA = f32_mag a div 2 ^ 23" and "eB = f32_mag b div 2 ^ 23"
  define sigA sigB where "sigA = fracF32UI (ucast a)" and "sigB = fracF32UI (ucast b)"
  have e: "eA < eB" "eB < 0xFF" using less fin by (simp_all only: f32_finite_exp eA_def eB_def)
  have exps: "expF32UI (ucast a) = int eA" "expF32UI (ucast b) = int eB"
    and sigs: "unat sigA = f32_mag a mod 2 ^ 23" "unat sigB = f32_mag b mod 2 ^ 23"
    by (simp_all only: f32_fields eA_def eB_def sigA_def sigB_def)
  let ?w = "push_bit 7 sigA + (if int eA \<noteq> 0 then 0x40000000 else push_bit 7 sigA)"
  let ?j = "ucast (softfloat_shiftRightJam32 (ucast ?w) (word_of_int (- (int eA - int eB)))) :: u64"
  have w: "unat ?w = fsig 23 (f32_mag a) * 2 ^ 7"
    unfolding eA_def by (rule subMagsF32_align [OF sigs(1)])
  have d: "0 < - (int eA - int eB)" "- (int eA - int eB) < 2 ^ 64" "nat (- (int eA - int eB)) = eB - eA"
    using e by simp_all
  have j: "int (unat ?j) = rodd (real (fsig 23 (f32_mag a) * 2 ^ 7) / 2 ^ (eB - eA))"
    using jam32_rodd [OF d(1,2), of ?w] fsig_less [of 23 "f32_mag a"] by (simp only: w d(3)) simp
  have "softfloat_subMagsF32 (ucast a) (ucast b) st =
    softfloat_normRoundPackToF32 (\<not> f32_sign a) (int eB - 1) ((push_bit 7 sigB OR 0x40000000) - ?j) st"
    using e by (simp only: softfloat_subMagsF32_def Let_def exps sigA_def [symmetric] sigB_def [symmetric] signF32UI_ucast) simp
  also have "\<dots> = f32_round (\<not> f32_sign a) (mval f32_fmt (f32_mag b) - mval f32_fmt (f32_mag a)) st"
    using e by (intro subMagsF32_diff [OF sigs(2) _ _ _ j]) (simp_all only: eA_def eB_def)
  finally show ?thesis .
qed

lemma subMagsF32_greater:
  assumes less: "f32_mag b div 2 ^ 23 < f32_mag a div 2 ^ 23" and fin: "f32_finite a"
  shows "softfloat_subMagsF32 (ucast a) (ucast b) st =
         f32_round (f32_sign a) (mval f32_fmt (f32_mag a) - mval f32_fmt (f32_mag b)) st"
proof -
  define eA eB where "eA = f32_mag a div 2 ^ 23" and "eB = f32_mag b div 2 ^ 23"
  define sigA sigB where "sigA = fracF32UI (ucast a)" and "sigB = fracF32UI (ucast b)"
  have e: "eB < eA" "eA < 0xFF" using less fin by (simp_all only: f32_finite_exp eA_def eB_def)
  have exps: "expF32UI (ucast a) = int eA" "expF32UI (ucast b) = int eB"
    and sigs: "unat sigA = f32_mag a mod 2 ^ 23" "unat sigB = f32_mag b mod 2 ^ 23"
    by (simp_all only: f32_fields eA_def eB_def sigA_def sigB_def)
  let ?w = "push_bit 7 sigB + (if int eB \<noteq> 0 then 0x40000000 else push_bit 7 sigB)"
  let ?j = "ucast (softfloat_shiftRightJam32 (ucast ?w) (word_of_int (int eA - int eB))) :: u64"
  have w: "unat ?w = fsig 23 (f32_mag b) * 2 ^ 7"
    unfolding eB_def by (rule subMagsF32_align [OF sigs(2)])
  have d: "0 < int eA - int eB" "int eA - int eB < 2 ^ 64" "nat (int eA - int eB) = eA - eB"
    using e by simp_all
  have j: "int (unat ?j) = rodd (real (fsig 23 (f32_mag b) * 2 ^ 7) / 2 ^ (eA - eB))"
    using jam32_rodd [OF d(1,2), of ?w] fsig_less [of 23 "f32_mag b"] by (simp only: w d(3)) simp
  have "softfloat_subMagsF32 (ucast a) (ucast b) st =
    softfloat_normRoundPackToF32 (f32_sign a) (int eA - 1) ((push_bit 7 sigA OR 0x40000000) - ?j) st"
    using e by (simp only: softfloat_subMagsF32_def Let_def exps sigA_def [symmetric] sigB_def [symmetric] signF32UI_ucast) simp
  also have "\<dots> = f32_round (f32_sign a) (mval f32_fmt (f32_mag a) - mval f32_fmt (f32_mag b)) st"
    using e by (intro subMagsF32_diff [OF sigs(1) _ _ _ j]) (simp_all only: eA_def eB_def)
  finally show ?thesis .
qed

lemma subMagsF64_align:
  fixes sig :: u64
  assumes "unat sig = m mod 2 ^ 52"
  shows "unat (push_bit 10 sig + (if int (m div 2 ^ 52) \<noteq> 0 then 0x4000000000000000 else push_bit 10 sig)) = fsig 52 m * 2 ^ 10"
proof -
  define f where "f = m mod 2 ^ 52"
  have lt: "f < 2 ^ 52" by (simp add: f_def)
  have sig: "unat sig = f" using assms by (simp add: f_def)
  have sh: "unat (push_bit 10 sig) = f * 2 ^ 10" using lt by (subst unat_push_bit) (simp_all add: sig)
  show ?thesis
    unfolding fsig_def f_def [symmetric]
    using lt unat_plus [of "push_bit 10 sig" "push_bit 10 sig"] unat_plus [of "push_bit 10 sig" "0x4000000000000000"]
    by (cases "m div 2 ^ 52 = 0") (simp_all add: sh)
qed

lemma subMagsF64_diff:
  assumes big: "unat sigA = m mod 2 ^ 52" "m div 2 ^ 52 = eA" "eA \<noteq> 0" "eA < 0x7FF"
    and small: "int (unat jam) = rodd (real (fsig 52 n * 2 ^ 10) / 2 ^ (eA - eB))" "n div 2 ^ 52 = eB" "eB < eA"
  shows "softfloat_normRoundPackToF64 s (int eA - 1) ((push_bit 10 sigA OR 0x4000000000000000) - jam) st =
         f64_round s (mval f64_fmt m - mval f64_fmt n) st"
proof -
  define f where "f = m mod 2 ^ 52"
  define N where "N = fsig 52 m * 2 ^ 10"
  define d where "d = eA - eB - 1"
  define t where "t = real (fsig 52 n * 2 ^ 10) / 2 ^ Suc d"
  have d: "eA - eB = Suc d" using small(3) by (simp add: d_def)
  have f: "f < 2 ^ 52" "N = 2 ^ 62 + f * 2 ^ 10" using big(2,3) by (simp_all add: f_def N_def fsig_def)
  have "unat (push_bit 10 sigA) = f * 2 ^ 10" using f by (subst unat_push_bit) (simp_all only: big(1) f_def [symmetric], simp_all)
  then have X: "unat (push_bit 10 sigA OR 0x4000000000000000) = N"
    using unat_or_exp [of "push_bit 10 sigA" 62] f by simp
  have N: "2 ^ 62 \<le> N" "N < 2 ^ 63" "even N" using f by simp_all
  have jam: "int (unat jam) = rodd t" using small(1) by (simp only: t_def d)
  have Y: "real (fsig 52 n * 2 ^ 10) < 2 ^ 63"
    using fsig_less [of 52 n] of_nat_less_iff [of "fsig 52 n" "2 ^ 53", where 'a = real] by simp
  have t_less: "t < 2 ^ (62 - c)" if "c \<le> d" "c \<le> 62" for c
  proof -
    have "(2 :: real) ^ 63 = 2 ^ (62 - c) * 2 ^ Suc c" using that(2) by (simp only: power_add [symmetric]) simp
    also have "\<dots> \<le> 2 ^ (62 - c) * 2 ^ Suc d" using that(1) by (intro mult_left_mono power_increasing) simp_all
    finally show ?thesis using Y by (simp only: t_def pos_divide_less_eq zero_less_power zero_less_numeral)
  qed
  have t0: "0 \<le> t" by (simp add: t_def)
  define r where "r = real N - t"
  have "rodd t < 2 ^ 62" using t_less [of 0] by (intro rodd_less_even) simp_all
  then have jl: "unat jam < 2 ^ 62" unfolding jam [symmetric] by (metis of_nat_less_iff of_nat_numeral of_nat_power)
  then have sub: "unat ((push_bit 10 sigA OR 0x4000000000000000) - jam) = N - unat jam" using N X by (subst unat_minus) simp_all
  have "rodd (of_int (int N) - t) = int N - rodd t" using N(3) by (intro rodd_diff_even) simp
  then have rr: "int (N - unat jam) = rodd r" using jl N by (simp add: r_def jam of_nat_diff flip: jam)
  have sticky: "real (N - unat jam) = r \<or> int (N - unat jam) = rodd r \<and> 2 ^ 54 \<le> N - unat jam"
  proof (cases "d = 0")
    case True
    then have "t = of_int (int (fsig 52 n * 2 ^ 9))" by (simp add: t_def)
    then have "r = of_int (int N - int (fsig 52 n * 2 ^ 9))" by (simp add: r_def)
    then have "of_int (rodd r) = r" by (metis rodd_of_int)
    then show ?thesis using rr by (metis of_int_of_nat_eq)
  next
    case False
    then have "rodd t < 2 ^ 61" using t_less [of 1] by (intro rodd_less_even) simp_all
    then have "unat jam < 2 ^ 61" unfolding jam [symmetric] by (metis of_nat_less_iff of_nat_numeral of_nat_power)
    then have "2 ^ 54 \<le> N - unat jam" using N(1) by simp
    then show ?thesis using rr by blast
  qed
  have x: "r * pow2 (int eA - 1 - 1084) = mval f64_fmt m - mval f64_fmt n"
  proof -
    have "pow2 (int eA - 1075) = 2 ^ 10 * pow2 (int eA - 1 - 1084)" using pow2_shift [of "int eA - 1075" 10] by simp
    moreover have "int eA - 1075 - int (Suc d) = int eB - 1075" using d by linarith
    then have "pow2 (int eA - 1075) = 2 ^ Suc d * pow2 (int eB - 1075)"
      using pow2_shift [of "int eA - 1075" "Suc d"] by (simp only:)
    ultimately show ?thesis
      unfolding mval_f64_fsig big(2) small(2) by (simp add: r_def N_def t_def field_simps)
  qed
  show ?thesis
    unfolding x [symmetric] using sticky jl N big(4)
    by (intro softfloat_normRoundPackToF64_round) (simp_all add: sub)
qed

lemma subMagsF64_less:
  assumes less: "f64_mag a div 2 ^ 52 < f64_mag b div 2 ^ 52" and fin: "f64_finite b"
  shows "softfloat_subMagsF64 a b (f64_sign a) st =
         f64_round (\<not> f64_sign a) (mval f64_fmt (f64_mag b) - mval f64_fmt (f64_mag a)) st"
proof -
  define eA eB where "eA = f64_mag a div 2 ^ 52" and "eB = f64_mag b div 2 ^ 52"
  define sigA sigB where "sigA = fracF64UI a" and "sigB = fracF64UI b"
  have e: "eA < eB" "eB < 0x7FF" using less fin by (simp_all only: f64_finite_exp eA_def eB_def)
  have exps: "expF64UI a = int eA" "expF64UI b = int eB"
    and sigs: "unat sigA = f64_mag a mod 2 ^ 52" "unat sigB = f64_mag b mod 2 ^ 52"
    by (simp_all only: f64_fields eA_def eB_def sigA_def sigB_def)
  let ?w = "push_bit 10 sigA + (if int eA \<noteq> 0 then 0x4000000000000000 else push_bit 10 sigA)"
  let ?j = "softfloat_shiftRightJam64 ?w (word_of_int (- (int eA - int eB))) :: u64"
  have w: "unat ?w = fsig 52 (f64_mag a) * 2 ^ 10"
    unfolding eA_def by (rule subMagsF64_align [OF sigs(1)])
  have d: "0 < - (int eA - int eB)" "- (int eA - int eB) < 2 ^ 64" "nat (- (int eA - int eB)) = eB - eA"
    using e by simp_all
  have j: "int (unat ?j) = rodd (real (fsig 52 (f64_mag a) * 2 ^ 10) / 2 ^ (eB - eA))"
    using jam64_rodd [OF d(1,2), of ?w] fsig_less [of 52 "f64_mag a"] by (simp only: w d(3))
  have "softfloat_subMagsF64 a b (f64_sign a) st =
    softfloat_normRoundPackToF64 (\<not> f64_sign a) (int eB - 1) ((push_bit 10 sigB OR 0x4000000000000000) - ?j) st"
    using e by (simp only: softfloat_subMagsF64_def Let_def exps sigA_def [symmetric] sigB_def [symmetric]) simp
  also have "\<dots> = f64_round (\<not> f64_sign a) (mval f64_fmt (f64_mag b) - mval f64_fmt (f64_mag a)) st"
    using e by (intro subMagsF64_diff [OF sigs(2) _ _ _ j]) (simp_all only: eA_def eB_def)
  finally show ?thesis .
qed

lemma subMagsF64_greater:
  assumes less: "f64_mag b div 2 ^ 52 < f64_mag a div 2 ^ 52" and fin: "f64_finite a"
  shows "softfloat_subMagsF64 a b (f64_sign a) st =
         f64_round (f64_sign a) (mval f64_fmt (f64_mag a) - mval f64_fmt (f64_mag b)) st"
proof -
  define eA eB where "eA = f64_mag a div 2 ^ 52" and "eB = f64_mag b div 2 ^ 52"
  define sigA sigB where "sigA = fracF64UI a" and "sigB = fracF64UI b"
  have e: "eB < eA" "eA < 0x7FF" using less fin by (simp_all only: f64_finite_exp eA_def eB_def)
  have exps: "expF64UI a = int eA" "expF64UI b = int eB"
    and sigs: "unat sigA = f64_mag a mod 2 ^ 52" "unat sigB = f64_mag b mod 2 ^ 52"
    by (simp_all only: f64_fields eA_def eB_def sigA_def sigB_def)
  let ?w = "push_bit 10 sigB + (if int eB \<noteq> 0 then 0x4000000000000000 else push_bit 10 sigB)"
  let ?j = "softfloat_shiftRightJam64 ?w (word_of_int (int eA - int eB)) :: u64"
  have w: "unat ?w = fsig 52 (f64_mag b) * 2 ^ 10"
    unfolding eB_def by (rule subMagsF64_align [OF sigs(2)])
  have d: "0 < int eA - int eB" "int eA - int eB < 2 ^ 64" "nat (int eA - int eB) = eA - eB"
    using e by simp_all
  have j: "int (unat ?j) = rodd (real (fsig 52 (f64_mag b) * 2 ^ 10) / 2 ^ (eA - eB))"
    using jam64_rodd [OF d(1,2), of ?w] fsig_less [of 52 "f64_mag b"] by (simp only: w d(3))
  have "softfloat_subMagsF64 a b (f64_sign a) st =
    softfloat_normRoundPackToF64 (f64_sign a) (int eA - 1) ((push_bit 10 sigA OR 0x4000000000000000) - ?j) st"
    using e by (simp only: softfloat_subMagsF64_def Let_def exps sigA_def [symmetric] sigB_def [symmetric]) simp
  also have "\<dots> = f64_round (f64_sign a) (mval f64_fmt (f64_mag a) - mval f64_fmt (f64_mag b)) st"
    using e by (intro subMagsF64_diff [OF sigs(1) _ _ _ j]) (simp_all only: eA_def eB_def)
  finally show ?thesis .
qed

text \<open>Normalising the exact difference of two significands with the same exponent.\<close>

lemma subMagsF32_normalise:
  fixes D e :: nat
  assumes D: "0 < D" "D < 2 ^ 23" and e: "e < 0xFE"
  defines "c \<equiv> uint (softfloat_countLeadingZeros32 (word_of_int (int D))) - 8"
  defines "k \<equiv> (if int e - c < 0 then int e else c)" and "z \<equiv> (if int e - c < 0 then 0 else int e - c)"
  shows "(ucast (packToF32UI s z (push_bit (nat k) (word_of_int (int D)))), st) =
         f32_round s (real D * pow2 (int e - 149)) st"
proof -
  define w where "w = (word_of_nat D :: u64)"
  have w: "unat w = D" using D unfolding w_def by (intro unat_word_of_nat) simp
  have "0 < unat w" "unat w < 2 ^ (32 - 8)" using D w by simp_all
  then obtain j where j: "uint (softfloat_countLeadingZeros32 (ucast w)) = int (8 + j)"
    and jb: "2 ^ (31 - 8) \<le> unat w * 2 ^ j" "unat w * 2 ^ j < 2 ^ (32 - 8)"
    by (rule clz32_norm) simp
  have c: "c = int j" using j unfolding c_def w_def by (simp add: ucast_word_of_nat)
  have jb: "2 ^ 23 \<le> D * 2 ^ j" "D * 2 ^ j < 2 ^ 24" using jb w by simp_all
  define i where "i = min e j"
  have k: "k = int i" and z: "z = int (e - i)" by (simp_all add: k_def z_def c i_def)
  have "D * 2 ^ i \<le> D * 2 ^ j" by (simp add: i_def)
  then have q: "D * 2 ^ i < 2 ^ 24" using jb(2) by (rule le_less_trans)
  have qe: "2 ^ 23 \<le> D * 2 ^ i \<or> e - i = 0" using jb by (simp add: i_def min_def)
  have sh: "unat (push_bit i w) = D * 2 ^ i" using q w by (subst unat_push_bit) simp_all
  have lt: "(e - i) * 2 ^ 23 + D * 2 ^ i < inf_code f32_fmt" using q e by (simp add: inf_code_f32)
  have "real D * pow2 (int e - 149) = real (D * 2 ^ i) * pow2 (ulp_exp f32_fmt (e - i))"
    using pow2_shift [of "int e - 149" i] by (simp add: ulp_exp_f32 i_def of_nat_diff algebra_simps)
  also have "\<dots> = mval f32_fmt ((e - i) * 2 ^ 23 + D * 2 ^ i)"
    using q qe f32.mval_code [of "D * 2 ^ i" "e - i"] by simp
  finally have x: "real D * pow2 (int e - 149) = mval f32_fmt ((e - i) * 2 ^ 23 + D * 2 ^ i)" .
  have "ucast (packToF32UI s z (push_bit (nat k) w)) = f32_pack s ((e - i) * 2 ^ 23 + D * 2 ^ i)"
    unfolding k z using e lt by (subst packToF32UI_pack) (simp_all add: sh inf_code_f32)
  then show ?thesis unfolding x f32_round_exact [OF lt] by (simp add: w_def)
qed

lemma subMagsF32_equal:
  assumes e: "f32_mag a div 2 ^ 23 = eA" "f32_mag b div 2 ^ 23 = eA" "eA < 0xFF"
  shows "softfloat_subMagsF32 (ucast a) (ucast b) st =
         (if f32_mag a = f32_mag b then (f32_pack (softfloat_roundingMode st = softfloat_round_min) 0, st)
          else f32_round (f32_sign a = (f32_mag b < f32_mag a)) \<bar>mval f32_fmt (f32_mag a) - mval f32_fmt (f32_mag b)\<bar> st)"
proof -
  define fA fB where "fA = f32_mag a mod 2 ^ 23" and "fB = f32_mag b mod 2 ^ 23"
  have f: "fA < 2 ^ 23" "fB < 2 ^ 23" by (simp_all add: fA_def fB_def)
  have mag: "f32_mag a = eA * 2 ^ 23 + fA" "f32_mag b = eA * 2 ^ 23 + fB"
    using div_mult_mod_eq [of "f32_mag a" "2 ^ 23"] div_mult_mod_eq [of "f32_mag b" "2 ^ 23"]
    by (simp_all only: e fA_def fB_def)
  have frac: "unat (fracF32UI (ucast a)) = fA" "unat (fracF32UI (ucast b)) = fB"
    by (simp_all only: f32_fields fA_def fB_def)
  have sd: "sint (fracF32UI (ucast a) - fracF32UI (ucast b)) = int fA - int fB"
    using f by (subst sint_minus64) (simp_all add: frac)
  define x where "x = mval f32_fmt (f32_mag a) - mval f32_fmt (f32_mag b)"
  have x: "x = (real fA - real fB) * pow2 (int (eA - 1) - 149)"
  proof (cases "eA = 0")
    case True
    then show ?thesis
      using pow2_shift [of "- 149" 1] unfolding x_def mval_f32_fsig fsig_def e(1,2) fA_def [symmetric] fB_def [symmetric]
      by (simp add: algebra_simps)
  next
    case False
    then have "int (eA - 1) - 149 = int eA - 150" by linarith
    with False show ?thesis
      unfolding x_def mval_f32_fsig fsig_def e(1,2) fA_def [symmetric] fB_def [symmetric] by (simp add: algebra_simps)
  qed
  have eA2: "eA - 1 < 0xFE" using e(3) by simp
  have eA1: "(if int eA \<noteq> 0 then int eA - 1 else int eA) = int (eA - 1)" by auto
  consider "fA = fB" | "fB < fA" | "fA < fB" by linarith
  then show ?thesis
  proof cases
    case 1
    have "ucast (packToF32UI s 0 0) = f32_pack s 0" for s by (simp add: packToF32UI_pack)
    then show ?thesis using 1 e by (simp add: softfloat_subMagsF32_def Let_def f32_fields sd mag)
  next
    case 2
    then have D: "int fA - int fB = int (fA - fB)" "\<bar>x\<bar> = real (fA - fB) * pow2 (int (eA - 1) - 149)"
      by (simp_all add: x of_nat_diff abs_mult)
    have c: "(int eA = 0xFF) = False" "(int (fA - fB) = 0) = False" "(int (fA - fB) < 0) = False" "0 < fA - fB" "fA - fB < 2 ^ 23"
      using 2 f e(3) by simp_all
    have "softfloat_subMagsF32 (ucast a) (ucast b) st = f32_round (f32_sign a) \<bar>x\<bar> st"
      unfolding D(2) subMagsF32_normalise [OF c(4,5) eA2, symmetric]
      by (simp only: softfloat_subMagsF32_def Let_def f32_fields sd D(1) eA1 e diff_self simp_thms if_True if_False c case_if_pair prod.case)
    then show ?thesis using 2 by (simp add: mag x_def)
  next
    case 3
    then have D: "int fA - int fB = - int (fB - fA)" "\<bar>x\<bar> = real (fB - fA) * pow2 (int (eA - 1) - 149)"
      by (simp_all add: x of_nat_diff abs_mult)
    have c: "(int eA = 0xFF) = False" "(- int (fB - fA) = 0) = False" "(- int (fB - fA) < 0) = True" "0 < fB - fA" "fB - fA < 2 ^ 23"
      using 3 f e(3) by simp_all
    have "softfloat_subMagsF32 (ucast a) (ucast b) st = f32_round (\<not> f32_sign a) \<bar>x\<bar> st"
      unfolding D(2) subMagsF32_normalise [OF c(4,5) eA2, symmetric]
      by (simp only: softfloat_subMagsF32_def Let_def f32_fields sd D(1) eA1 e diff_self simp_thms if_True if_False c case_if_pair prod.case minus_minus)
    then show ?thesis using 3 by (simp add: mag x_def)
  qed
qed

text \<open>Normalising the exact difference of two significands with the same exponent.\<close>

lemma subMagsF64_normalise:
  fixes D e :: nat
  assumes D: "0 < D" "D < 2 ^ 52" and e: "e < 0x7FE"
  defines "c \<equiv> uint (softfloat_countLeadingZeros64 (word_of_int (int D))) - 11"
  defines "k \<equiv> (if int e - c < 0 then int e else c)" and "z \<equiv> (if int e - c < 0 then 0 else int e - c)"
  shows "((packToF64UI s z (push_bit (nat k) (word_of_int (int D)))), st) =
         f64_round s (real D * pow2 (int e - 1074)) st"
proof -
  define w where "w = (word_of_nat D :: u64)"
  have w: "unat w = D" using D unfolding w_def by (intro unat_word_of_nat) simp
  have "0 < unat w" "unat w < 2 ^ (64 - 11)" using D w by simp_all
  then obtain j where j: "uint (softfloat_countLeadingZeros64 w) = int (11 + j)"
    and jb: "2 ^ (63 - 11) \<le> unat w * 2 ^ j" "unat w * 2 ^ j < 2 ^ (64 - 11)"
    by (rule clz64_norm) simp
  have c: "c = int j" using j unfolding c_def w_def by (simp)
  have jb: "2 ^ 52 \<le> D * 2 ^ j" "D * 2 ^ j < 2 ^ 53" using jb w by simp_all
  define i where "i = min e j"
  have k: "k = int i" and z: "z = int (e - i)" by (simp_all add: k_def z_def c i_def)
  have "D * 2 ^ i \<le> D * 2 ^ j" by (simp add: i_def)
  then have q: "D * 2 ^ i < 2 ^ 53" using jb(2) by (rule le_less_trans)
  have qe: "2 ^ 52 \<le> D * 2 ^ i \<or> e - i = 0" using jb by (simp add: i_def min_def)
  have sh: "unat (push_bit i w) = D * 2 ^ i" using q w by (subst unat_push_bit) simp_all
  have lt: "(e - i) * 2 ^ 52 + D * 2 ^ i < inf_code f64_fmt" using q e by (simp add: inf_code_f64)
  have "real D * pow2 (int e - 1074) = real (D * 2 ^ i) * pow2 (ulp_exp f64_fmt (e - i))"
    using pow2_shift [of "int e - 1074" i] by (simp add: ulp_exp_f64 i_def of_nat_diff algebra_simps)
  also have "\<dots> = mval f64_fmt ((e - i) * 2 ^ 52 + D * 2 ^ i)"
    using q qe f64.mval_code [of "D * 2 ^ i" "e - i"] by simp
  finally have x: "real D * pow2 (int e - 1074) = mval f64_fmt ((e - i) * 2 ^ 52 + D * 2 ^ i)" .
  have "(packToF64UI s z (push_bit (nat k) w)) = f64_pack s ((e - i) * 2 ^ 52 + D * 2 ^ i)"
    unfolding k z using e lt by (subst packToF64UI_pack) (simp_all add: sh inf_code_f64)
  then show ?thesis unfolding x f64_round_exact [OF lt] by (simp add: w_def)
qed

lemma subMagsF64_equal:
  assumes e: "f64_mag a div 2 ^ 52 = eA" "f64_mag b div 2 ^ 52 = eA" "eA < 0x7FF"
  shows "softfloat_subMagsF64 a b (f64_sign a) st =
         (if f64_mag a = f64_mag b then (f64_pack (softfloat_roundingMode st = softfloat_round_min) 0, st)
          else f64_round (f64_sign a = (f64_mag b < f64_mag a)) \<bar>mval f64_fmt (f64_mag a) - mval f64_fmt (f64_mag b)\<bar> st)"
proof -
  define fA fB where "fA = f64_mag a mod 2 ^ 52" and "fB = f64_mag b mod 2 ^ 52"
  have f: "fA < 2 ^ 52" "fB < 2 ^ 52" by (simp_all add: fA_def fB_def)
  have mag: "f64_mag a = eA * 2 ^ 52 + fA" "f64_mag b = eA * 2 ^ 52 + fB"
    using div_mult_mod_eq [of "f64_mag a" "2 ^ 52"] div_mult_mod_eq [of "f64_mag b" "2 ^ 52"]
    by (simp_all only: e fA_def fB_def)
  have frac: "unat (fracF64UI a) = fA" "unat (fracF64UI b) = fB"
    by (simp_all only: f64_fields fA_def fB_def)
  have sd: "sint (fracF64UI a - fracF64UI b) = int fA - int fB"
    using f by (subst sint_minus64) (simp_all add: frac)
  define x where "x = mval f64_fmt (f64_mag a) - mval f64_fmt (f64_mag b)"
  have x: "x = (real fA - real fB) * pow2 (int (eA - 1) - 1074)"
  proof (cases "eA = 0")
    case True
    then show ?thesis
      using pow2_shift [of "- 1074" 1] unfolding x_def mval_f64_fsig fsig_def e(1,2) fA_def [symmetric] fB_def [symmetric]
      by (simp add: algebra_simps)
  next
    case False
    then have "int (eA - 1) - 1074 = int eA - 1075" by linarith
    with False show ?thesis
      unfolding x_def mval_f64_fsig fsig_def e(1,2) fA_def [symmetric] fB_def [symmetric] by (simp add: algebra_simps)
  qed
  have eA2: "eA - 1 < 0x7FE" using e(3) by simp
  have eA1: "(if int eA \<noteq> 0 then int eA - 1 else int eA) = int (eA - 1)" by auto
  consider "fA = fB" | "fB < fA" | "fA < fB" by linarith
  then show ?thesis
  proof cases
    case 1
    have "(packToF64UI s 0 0) = f64_pack s 0" for s by (simp add: packToF64UI_pack)
    then show ?thesis using 1 e by (simp add: softfloat_subMagsF64_def Let_def f64_fields sd mag)
  next
    case 2
    then have D: "int fA - int fB = int (fA - fB)" "\<bar>x\<bar> = real (fA - fB) * pow2 (int (eA - 1) - 1074)"
      by (simp_all add: x of_nat_diff abs_mult)
    have c: "(int eA = 0x7FF) = False" "(int (fA - fB) = 0) = False" "(int (fA - fB) < 0) = False" "0 < fA - fB" "fA - fB < 2 ^ 52"
      using 2 f e(3) by simp_all
    have "softfloat_subMagsF64 a b (f64_sign a) st = f64_round (f64_sign a) \<bar>x\<bar> st"
      unfolding D(2) subMagsF64_normalise [OF c(4,5) eA2, symmetric]
      by (simp only: softfloat_subMagsF64_def Let_def f64_fields sd D(1) eA1 e diff_self simp_thms if_True if_False c case_if_pair prod.case)
    then show ?thesis using 2 by (simp add: mag x_def)
  next
    case 3
    then have D: "int fA - int fB = - int (fB - fA)" "\<bar>x\<bar> = real (fB - fA) * pow2 (int (eA - 1) - 1074)"
      by (simp_all add: x of_nat_diff abs_mult)
    have c: "(int eA = 0x7FF) = False" "(- int (fB - fA) = 0) = False" "(- int (fB - fA) < 0) = True" "0 < fB - fA" "fB - fA < 2 ^ 52"
      using 3 f e(3) by simp_all
    have "softfloat_subMagsF64 a b (f64_sign a) st = f64_round (\<not> f64_sign a) \<bar>x\<bar> st"
      unfolding D(2) subMagsF64_normalise [OF c(4,5) eA2, symmetric]
      by (simp only: softfloat_subMagsF64_def Let_def f64_fields sd D(1) eA1 e diff_self simp_thms if_True if_False c case_if_pair prod.case minus_minus)
    then show ?thesis using 3 by (simp add: mag x_def)
  qed
qed

theorem softfloat_subMagsF32_finite:
  assumes "f32_finite a" "f32_finite b"
  shows "softfloat_subMagsF32 (ucast a) (ucast b) st =
         (if f32_mag a = f32_mag b then (f32_pack (softfloat_roundingMode st = softfloat_round_min) 0, st)
          else f32_round (f32_sign a = (f32_mag b < f32_mag a)) \<bar>mval f32_fmt (f32_mag a) - mval f32_fmt (f32_mag b)\<bar> st)"
proof -
  have less: "m < n" if "m div 2 ^ 23 < n div 2 ^ 23" for m n :: nat
    using that by (meson div_le_mono leD leI)
  consider "f32_mag a div 2 ^ 23 = f32_mag b div 2 ^ 23" | "f32_mag a div 2 ^ 23 < f32_mag b div 2 ^ 23"
    | "f32_mag b div 2 ^ 23 < f32_mag a div 2 ^ 23" by linarith
  then show ?thesis
  proof cases
    case 1
    then show ?thesis using assms by (intro subMagsF32_equal) (simp_all only: f32_finite_exp)
  next
    case 2
    then show ?thesis using subMagsF32_less [OF 2 assms(2)] less [OF 2] by (simp add: abs_if)
  next
    case 3
    then show ?thesis using subMagsF32_greater [OF 3 assms(1)] less [OF 3] by (simp add: abs_if)
  qed
qed

theorem softfloat_subMagsF64_finite:
  assumes "f64_finite a" "f64_finite b"
  shows "softfloat_subMagsF64 a b (f64_sign a) st =
         (if f64_mag a = f64_mag b then (f64_pack (softfloat_roundingMode st = softfloat_round_min) 0, st)
          else f64_round (f64_sign a = (f64_mag b < f64_mag a)) \<bar>mval f64_fmt (f64_mag a) - mval f64_fmt (f64_mag b)\<bar> st)"
proof -
  have less: "m < n" if "m div 2 ^ 52 < n div 2 ^ 52" for m n :: nat
    using that by (meson div_le_mono leD leI)
  consider "f64_mag a div 2 ^ 52 = f64_mag b div 2 ^ 52" | "f64_mag a div 2 ^ 52 < f64_mag b div 2 ^ 52"
    | "f64_mag b div 2 ^ 52 < f64_mag a div 2 ^ 52" by linarith
  then show ?thesis
  proof cases
    case 1
    then show ?thesis using assms by (intro subMagsF64_equal) (simp_all only: f64_finite_exp)
  next
    case 2
    then show ?thesis using subMagsF64_less [OF 2 assms(2)] less [OF 2] by (simp add: abs_if)
  next
    case 3
    then show ?thesis using subMagsF64_greater [OF 3 assms(1)] less [OF 3] by (simp add: abs_if)
  qed
qed

subsection \<open>Finite sums and differences\<close>

text \<open>Rounding a signed real number; \<open>s\<close> is the sign that an exact zero gets.\<close>

definition f32_round_signed :: "bool \<Rightarrow> real \<Rightarrow> softfloat_state \<Rightarrow> u32 \<times> softfloat_state" where
  "f32_round_signed s x st = f32_round (if x = 0 then s else x < 0) \<bar>x\<bar> st"

lemma f32_round_0: "f32_round s 0 st = (f32_pack s 0, st)"
  using f32_round_exact [of 0 s st] by (simp add: inf_code_f32)

lemma f32_round_signed_sgn: "0 \<le> x \<Longrightarrow> f32_round_signed s (sgn_val s x) st = f32_round s x st"
  by (cases s) (auto simp: f32_round_signed_def sgn_val_def)

lemma f32_sign_bit: "f32_sign a \<longleftrightarrow> bit a 31"
proof -
  have "unat (drop_bit 31 a) < 2" using unat_bound [of a] by (simp add: nat_of_word less_mult_imp_div_less)
  then have "drop_bit 31 a = 0 \<or> drop_bit 31 a = 1" by (simp add: word_unat_eq_iff less_2_cases_iff)
  then show ?thesis using drop_bit_neq_0 [of 31 a] by (auto simp: f32_sign_def bit_iff_odd_drop_bit)
qed

lemma sign_xor_f32: "signF32UI (ucast (a :: u32) XOR ucast (b :: u32)) \<longleftrightarrow> f32_sign a \<noteq> f32_sign b"
proof -
  have "ucast (a :: u32) XOR ucast (b :: u32) = (ucast (a XOR b) :: u64)"
    by (simp add: unsigned_xor_eq)
  then show ?thesis by (simp add: signF32UI_ucast f32_sign_bit bit_xor_iff)
qed

lemma addMagsF32_signed:
  assumes fin: "f32_finite a" "f32_finite b"
  shows "softfloat_addMagsF32 (ucast a) (ucast b) st =
         f32_round_signed (f32_sign a) (f32_val a + sgn_val (f32_sign a) (mval f32_fmt (f32_mag b))) st"
proof -
  have "f32_val a + sgn_val (f32_sign a) (mval f32_fmt (f32_mag b)) =
        sgn_val (f32_sign a) (mval f32_fmt (f32_mag a) + mval f32_fmt (f32_mag b))"
    by (simp add: f32_val_def sgn_val_def)
  then show ?thesis by (simp add: softfloat_addMagsF32_finite [OF fin] f32_round_signed_sgn)
qed

lemma subMagsF32_signed:
  assumes fin: "f32_finite a" "f32_finite b"
  shows "softfloat_subMagsF32 (ucast a) (ucast b) st =
         f32_round_signed (st_rmode st = RDN) (f32_val a - sgn_val (f32_sign a) (mval f32_fmt (f32_mag b))) st"
proof (cases "f32_mag a = f32_mag b")
  case True
  then show ?thesis
    unfolding softfloat_subMagsF32_finite [OF fin] f32_round_signed_def f32_val_def sgn_val_def
    by (simp add: f32_round_0 sf_rmode_simps)
next
  case False
  then have "mval f32_fmt (f32_mag b) < mval f32_fmt (f32_mag a) \<longleftrightarrow> f32_mag b < f32_mag a"
    "mval f32_fmt (f32_mag b) \<noteq> mval f32_fmt (f32_mag a)" "(\<not> f32_mag b < f32_mag a) = (f32_mag a < f32_mag b)" by auto
  with False show ?thesis
    unfolding softfloat_subMagsF32_finite [OF fin] f32_round_signed_def f32_val_def sgn_val_def
    by (cases "f32_sign a") (auto simp: abs_minus_commute)
qed

definition f64_round_signed :: "bool \<Rightarrow> real \<Rightarrow> softfloat_state \<Rightarrow> u64 \<times> softfloat_state" where
  "f64_round_signed s x st = f64_round (if x = 0 then s else x < 0) \<bar>x\<bar> st"

lemma f64_round_0: "f64_round s 0 st = (f64_pack s 0, st)"
  using f64_round_exact [of 0 s st] by (simp add: inf_code_f64)

lemma f64_round_signed_sgn: "0 \<le> x \<Longrightarrow> f64_round_signed s (sgn_val s x) st = f64_round s x st"
  by (cases s) (auto simp: f64_round_signed_def sgn_val_def)

lemma f64_sign_bit: "f64_sign a \<longleftrightarrow> bit a 63"
proof -
  have "unat (drop_bit 63 a) < 2" using unat_bound [of a] by (simp add: nat_of_word less_mult_imp_div_less)
  then have "drop_bit 63 a = 0 \<or> drop_bit 63 a = 1" by (simp add: word_unat_eq_iff less_2_cases_iff)
  then show ?thesis using drop_bit_neq_0 [of 63 a] by (auto simp: f64_sign_def bit_iff_odd_drop_bit)
qed

lemma addMagsF64_signed:
  assumes fin: "f64_finite a" "f64_finite b"
  shows "softfloat_addMagsF64 a b (f64_sign a) st =
         f64_round_signed (f64_sign a) (f64_val a + sgn_val (f64_sign a) (mval f64_fmt (f64_mag b))) st"
proof -
  have "f64_val a + sgn_val (f64_sign a) (mval f64_fmt (f64_mag b)) =
        sgn_val (f64_sign a) (mval f64_fmt (f64_mag a) + mval f64_fmt (f64_mag b))"
    by (simp add: f64_val_def sgn_val_def)
  then show ?thesis by (simp add: softfloat_addMagsF64_finite [OF fin] f64_round_signed_sgn)
qed

lemma subMagsF64_signed:
  assumes fin: "f64_finite a" "f64_finite b"
  shows "softfloat_subMagsF64 a b (f64_sign a) st =
         f64_round_signed (st_rmode st = RDN) (f64_val a - sgn_val (f64_sign a) (mval f64_fmt (f64_mag b))) st"
proof (cases "f64_mag a = f64_mag b")
  case True
  then show ?thesis
    unfolding softfloat_subMagsF64_finite [OF fin] f64_round_signed_def f64_val_def sgn_val_def
    by (simp add: f64_round_0 sf_rmode_simps)
next
  case False
  then have "mval f64_fmt (f64_mag b) < mval f64_fmt (f64_mag a) \<longleftrightarrow> f64_mag b < f64_mag a"
    "mval f64_fmt (f64_mag b) \<noteq> mval f64_fmt (f64_mag a)" "(\<not> f64_mag b < f64_mag a) = (f64_mag a < f64_mag b)" by auto
  with False show ?thesis
    unfolding softfloat_subMagsF64_finite [OF fin] f64_round_signed_def f64_val_def sgn_val_def
    by (cases "f64_sign a") (auto simp: abs_minus_commute)
qed

theorem f32_add_finite:
  assumes "f32_finite a" "f32_finite b"
  shows "f32_add a b st =
         f32_round_signed (if f32_sign a = f32_sign b then f32_sign a else st_rmode st = RDN)
           (f32_val a + f32_val b) st"
proof -
  have "sgn_val (\<not> s) x = - sgn_val s x" for s x by (simp add: sgn_val_def)
  then show ?thesis
    using addMagsF32_signed [OF assms] subMagsF32_signed [OF assms]
    by (cases "f32_sign a = f32_sign b") (auto simp: f32_add_def Let_def sign_xor_f32 f32_val_def [of b])
qed

theorem f32_sub_finite:
  assumes "f32_finite a" "f32_finite b"
  shows "f32_sub a b st =
         f32_round_signed (if f32_sign a \<noteq> f32_sign b then f32_sign a else st_rmode st = RDN)
           (f32_val a - f32_val b) st"
proof -
  have "sgn_val (\<not> s) x = - sgn_val s x" for s x by (simp add: sgn_val_def)
  then show ?thesis
    using addMagsF32_signed [OF assms] subMagsF32_signed [OF assms]
    by (cases "f32_sign a = f32_sign b") (auto simp: f32_sub_def Let_def sign_xor_f32 f32_val_def [of b])
qed

theorem f64_add_finite:
  assumes "f64_finite a" "f64_finite b"
  shows "f64_add a b st =
         f64_round_signed (if f64_sign a = f64_sign b then f64_sign a else st_rmode st = RDN)
           (f64_val a + f64_val b) st"
proof -
  have "sgn_val (\<not> s) x = - sgn_val s x" for s x by (simp add: sgn_val_def)
  then show ?thesis
    using addMagsF64_signed [OF assms] subMagsF64_signed [OF assms]
    by (cases "f64_sign a = f64_sign b") (auto simp: f64_add_def Let_def signF64UI_eq f64_val_def [of b])
qed

theorem f64_sub_finite:
  assumes "f64_finite a" "f64_finite b"
  shows "f64_sub a b st =
         f64_round_signed (if f64_sign a \<noteq> f64_sign b then f64_sign a else st_rmode st = RDN)
           (f64_val a - f64_val b) st"
proof -
  have "sgn_val (\<not> s) x = - sgn_val s x" for s x by (simp add: sgn_val_def)
  then show ?thesis
    using addMagsF64_signed [OF assms] subMagsF64_signed [OF assms]
    by (cases "f64_sign a = f64_sign b") (auto simp: f64_sub_def Let_def signF64UI_eq f64_val_def [of b])
qed

subsection \<open>Infinities and NaNs\<close>

lemma push_bit_eq_0_small:
  fixes w :: u64
  assumes "unat w < 2 ^ 52" "n \<le> 10"
  shows "push_bit n w = 0 \<longleftrightarrow> w = 0"
proof -
  have "(2 :: nat) ^ 52 \<le> 2 ^ (64 - n)" using assms(2) by (intro power_increasing) simp_all
  then have "unat w mod 2 ^ (64 - n) = unat w" using assms(1) by simp
  then show ?thesis using push_bit_eq_0_iff_mod [of n w] assms(2) by (simp add: unat_eq_0)
qed

lemma fracF32_eq_0:
  "fracF32UI (ucast (a :: u32)) = 0 \<longleftrightarrow> f32_mag a mod 2 ^ 23 = 0"
  "n \<le> 10 \<Longrightarrow> push_bit n (fracF32UI (ucast (a :: u32))) = 0 \<longleftrightarrow> f32_mag a mod 2 ^ 23 = 0"
proof -
  have f: "unat (fracF32UI (ucast a)) = f32_mag a mod 2 ^ 23" by (rule fracF32UI_ucast)
  then show *: "fracF32UI (ucast a) = 0 \<longleftrightarrow> f32_mag a mod 2 ^ 23 = 0" by (simp only: unat_eq_0 [symmetric])
  have "f32_mag a mod 2 ^ 23 < 2 ^ 23" by simp
  also have "(2 :: nat) ^ 23 \<le> 2 ^ 52" by simp
  finally have lt: "unat (fracF32UI (ucast a)) < 2 ^ 52" unfolding f .
  show "push_bit n (fracF32UI (ucast a)) = 0 \<longleftrightarrow> f32_mag a mod 2 ^ 23 = 0" if "n \<le> 10"
    unfolding push_bit_eq_0_small [OF lt that] by (rule *)
qed

lemma f32_inf_pack: "f32_isinf a \<Longrightarrow> f32_pack (f32_sign a) (inf_code f32_fmt) = a"
  by (metis f32_isinf_def f32_pack_eq)

lemma packToF32UI_inf: "ucast (packToF32UI s 0xFF 0) = f32_pack s (inf_code f32_fmt)"
  by (simp add: packToF32UI_pack inf_code_f32)

lemma softfloat_addMagsF32_special:
  assumes "\<not> (f32_finite a \<and> f32_finite b)"
  shows "softfloat_addMagsF32 (ucast a) (ucast b) st =
         (if f32_isnan a \<or> f32_isnan b then f32_nan_result a b st
          else (if f32_isinf a then a else f32_pack (f32_sign a) (inf_code f32_fmt), st))"
proof -
  let ?eA = "f32_mag a div 2 ^ 23" and ?eB = "f32_mag b div 2 ^ 23"
  have lt: "?eA < 0xFF + 1" "?eB < 0xFF + 1" using f32_exp_less [of a] f32_exp_less [of b] by simp_all
  consider "?eA = 0xFF" "?eB = 0xFF" | "?eA = 0xFF" "?eB < 0xFF" | "?eA < 0xFF" "?eB = 0xFF"
    using assms lt unfolding f32_classes(1) by linarith
  then show ?thesis
  proof cases
    case 1
    then have c: "(int ?eA - int ?eB = 0) = True" "(int ?eA = 0) = False" "(int ?eA = 0xFF) = True" by simp_all
    show ?thesis
      using 1 unfolding f32_classes softfloat_propagateNaNF32UI_result [symmetric]
      by (simp only: softfloat_addMagsF32_def Let_def f32_fields c if_True if_False or_eq_0_iff fracF32_eq_0) simp
  next
    case 2
    then have c: "(int ?eA - int ?eB = 0) = False" "(int ?eA - int ?eB < 0) = False" "(int ?eA = 0xFF) = True" by simp_all
    show ?thesis
      using 2 unfolding f32_classes softfloat_propagateNaNF32UI_result [symmetric]
      by (simp only: softfloat_addMagsF32_def Let_def f32_fields c if_True if_False) (simp add: fracF32_eq_0)
  next
    case 3
    then have c: "(int ?eA - int ?eB = 0) = False" "(int ?eA - int ?eB < 0) = True" "(int ?eB = 0xFF) = True" by simp_all
    show ?thesis
      using 3 unfolding f32_classes softfloat_propagateNaNF32UI_result [symmetric]
      by (simp only: softfloat_addMagsF32_def Let_def f32_fields c if_True if_False packToF32UI_inf) (simp add: fracF32_eq_0)
  qed
qed

lemma softfloat_subMagsF32_special:
  assumes "\<not> (f32_finite a \<and> f32_finite b)"
  shows "softfloat_subMagsF32 (ucast a) (ucast b) st =
         (if f32_isnan a \<or> f32_isnan b then f32_nan_result a b st
          else if f32_isinf a \<and> f32_isinf b
          then (ucast defaultNaNF32UI, softfloat_raiseFlags softfloat_flag_invalid st)
          else (if f32_isinf a then a else f32_pack (\<not> f32_sign a) (inf_code f32_fmt), st))"
proof -
  let ?eA = "f32_mag a div 2 ^ 23" and ?eB = "f32_mag b div 2 ^ 23"
  have lt: "?eA < 0xFF + 1" "?eB < 0xFF + 1" using f32_exp_less [of a] f32_exp_less [of b] by simp_all
  consider "?eA = 0xFF" "?eB = 0xFF" | "?eA = 0xFF" "?eB < 0xFF" | "?eA < 0xFF" "?eB = 0xFF"
    using assms lt unfolding f32_classes(1) by linarith
  then show ?thesis
  proof cases
    case 1
    then have c: "(int ?eA - int ?eB = 0) = True" "(int ?eA = 0) = False" "(int ?eA = 0xFF) = True" by simp_all
    show ?thesis
      using 1 unfolding f32_classes softfloat_propagateNaNF32UI_result [symmetric]
      by (simp only: softfloat_subMagsF32_def Let_def f32_fields c if_True if_False or_eq_0_iff fracF32_eq_0) simp
  next
    case 2
    then have c: "(int ?eA - int ?eB = 0) = False" "(int ?eA - int ?eB < 0) = False" "(int ?eA = 0xFF) = True" by simp_all
    show ?thesis
      using 2 unfolding f32_classes softfloat_propagateNaNF32UI_result [symmetric]
      by (simp only: softfloat_subMagsF32_def Let_def f32_fields c if_True if_False) (simp add: fracF32_eq_0)
  next
    case 3
    then have c: "(int ?eA - int ?eB = 0) = False" "(int ?eA - int ?eB < 0) = True" "(int ?eB = 0xFF) = True" by simp_all
    show ?thesis
      using 3 unfolding f32_classes softfloat_propagateNaNF32UI_result [symmetric]
      by (simp only: softfloat_subMagsF32_def Let_def f32_fields c if_True if_False packToF32UI_inf) (simp add: fracF32_eq_0)
  qed
qed

lemma fracF64_eq_0:
  "fracF64UI a = 0 \<longleftrightarrow> f64_mag a mod 2 ^ 52 = 0"
  "n \<le> 10 \<Longrightarrow> push_bit n (fracF64UI a) = 0 \<longleftrightarrow> f64_mag a mod 2 ^ 52 = 0"
proof -
  have f: "unat (fracF64UI a) = f64_mag a mod 2 ^ 52" by (rule fracF64UI_eq)
  then show *: "fracF64UI a = 0 \<longleftrightarrow> f64_mag a mod 2 ^ 52 = 0" by (simp only: unat_eq_0 [symmetric])
  have lt: "unat (fracF64UI a) < 2 ^ 52" unfolding f by simp
  show "push_bit n (fracF64UI a) = 0 \<longleftrightarrow> f64_mag a mod 2 ^ 52 = 0" if "n \<le> 10"
    unfolding push_bit_eq_0_small [OF lt that] by (rule *)
qed

lemma f64_inf_pack: "f64_isinf a \<Longrightarrow> f64_pack (f64_sign a) (inf_code f64_fmt) = a"
  by (metis f64_isinf_def f64_pack_eq)

lemma packToF64UI_inf: "(packToF64UI s 0x7FF 0) = f64_pack s (inf_code f64_fmt)"
  by (simp add: packToF64UI_pack inf_code_f64)

lemma softfloat_addMagsF64_special:
  assumes "\<not> (f64_finite a \<and> f64_finite b)"
  shows "softfloat_addMagsF64 a b s st =
         (if f64_isnan a \<or> f64_isnan b then f64_nan_result a b st
          else (if f64_isinf a then a else f64_pack s (inf_code f64_fmt), st))"
proof -
  let ?eA = "f64_mag a div 2 ^ 52" and ?eB = "f64_mag b div 2 ^ 52"
  have lt: "?eA < 0x7FF + 1" "?eB < 0x7FF + 1" using f64_exp_less [of a] f64_exp_less [of b] by simp_all
  consider "?eA = 0x7FF" "?eB = 0x7FF" | "?eA = 0x7FF" "?eB < 0x7FF" | "?eA < 0x7FF" "?eB = 0x7FF"
    using assms lt unfolding f64_classes(1) by linarith
  then show ?thesis
  proof cases
    case 1
    then have c: "(int ?eA - int ?eB = 0) = True" "(int ?eA = 0) = False" "(int ?eA = 0x7FF) = True" by simp_all
    show ?thesis
      using 1 unfolding f64_classes softfloat_propagateNaNF64UI_result [symmetric]
      by (simp only: softfloat_addMagsF64_def Let_def f64_fields c if_True if_False or_eq_0_iff fracF64_eq_0) simp
  next
    case 2
    then have c: "(int ?eA - int ?eB = 0) = False" "(int ?eA - int ?eB < 0) = False" "(int ?eA = 0x7FF) = True" by simp_all
    show ?thesis
      using 2 unfolding f64_classes softfloat_propagateNaNF64UI_result [symmetric]
      by (simp only: softfloat_addMagsF64_def Let_def f64_fields c if_True if_False) (simp add: fracF64_eq_0)
  next
    case 3
    then have c: "(int ?eA - int ?eB = 0) = False" "(int ?eA - int ?eB < 0) = True" "(int ?eB = 0x7FF) = True" by simp_all
    show ?thesis
      using 3 unfolding f64_classes softfloat_propagateNaNF64UI_result [symmetric]
      by (simp only: softfloat_addMagsF64_def Let_def f64_fields c if_True if_False packToF64UI_inf) (simp add: fracF64_eq_0)
  qed
qed

lemma softfloat_subMagsF64_special:
  assumes "\<not> (f64_finite a \<and> f64_finite b)"
  shows "softfloat_subMagsF64 a b s st =
         (if f64_isnan a \<or> f64_isnan b then f64_nan_result a b st
          else if f64_isinf a \<and> f64_isinf b
          then (defaultNaNF64UI, softfloat_raiseFlags softfloat_flag_invalid st)
          else (if f64_isinf a then a else f64_pack (\<not> s) (inf_code f64_fmt), st))"
proof -
  let ?eA = "f64_mag a div 2 ^ 52" and ?eB = "f64_mag b div 2 ^ 52"
  have lt: "?eA < 0x7FF + 1" "?eB < 0x7FF + 1" using f64_exp_less [of a] f64_exp_less [of b] by simp_all
  consider "?eA = 0x7FF" "?eB = 0x7FF" | "?eA = 0x7FF" "?eB < 0x7FF" | "?eA < 0x7FF" "?eB = 0x7FF"
    using assms lt unfolding f64_classes(1) by linarith
  then show ?thesis
  proof cases
    case 1
    then have c: "(int ?eA - int ?eB = 0) = True" "(int ?eA = 0) = False" "(int ?eA = 0x7FF) = True" by simp_all
    show ?thesis
      using 1 unfolding f64_classes softfloat_propagateNaNF64UI_result [symmetric]
      by (simp only: softfloat_subMagsF64_def Let_def f64_fields c if_True if_False or_eq_0_iff fracF64_eq_0) simp
  next
    case 2
    then have c: "(int ?eA - int ?eB = 0) = False" "(int ?eA - int ?eB < 0) = False" "(int ?eA = 0x7FF) = True" by simp_all
    show ?thesis
      using 2 unfolding f64_classes softfloat_propagateNaNF64UI_result [symmetric]
      by (simp only: softfloat_subMagsF64_def Let_def f64_fields c if_True if_False) (simp add: fracF64_eq_0)
  next
    case 3
    then have c: "(int ?eA - int ?eB = 0) = False" "(int ?eA - int ?eB < 0) = True" "(int ?eB = 0x7FF) = True" by simp_all
    show ?thesis
      using 3 unfolding f64_classes softfloat_propagateNaNF64UI_result [symmetric]
      by (simp only: softfloat_subMagsF64_def Let_def f64_fields c if_True if_False packToF64UI_inf) (simp add: fracF64_eq_0)
  qed
qed

theorem f32_add_special:
  assumes "\<not> (f32_finite a \<and> f32_finite b)"
  shows "f32_add a b st =
         (if f32_isnan a \<or> f32_isnan b then f32_nan_result a b st
          else if f32_isinf a \<and> f32_isinf b \<and> f32_sign a \<noteq> f32_sign b
          then (ucast defaultNaNF32UI, softfloat_raiseFlags softfloat_flag_invalid st)
          else (if f32_isinf a then a else b, st))"
proof -
  have inf: "f32_isinf b" if "\<not> f32_isnan a" "\<not> f32_isnan b" "\<not> f32_isinf a"
    using assms that by (auto simp: f32_classes)
  show ?thesis
    unfolding f32_add_def Let_def sign_xor_f32 softfloat_addMagsF32_special [OF assms] softfloat_subMagsF32_special [OF assms]
    using inf f32_inf_pack [of b] by (cases "f32_sign a = f32_sign b") (auto split: if_splits)
qed

theorem f32_sub_special:
  assumes "\<not> (f32_finite a \<and> f32_finite b)"
  shows "f32_sub a b st =
         (if f32_isnan a \<or> f32_isnan b then f32_nan_result a b st
          else if f32_isinf a \<and> f32_isinf b \<and> f32_sign a = f32_sign b
          then (ucast defaultNaNF32UI, softfloat_raiseFlags softfloat_flag_invalid st)
          else (if f32_isinf a then a else f32_pack (\<not> f32_sign b) (inf_code f32_fmt), st))"
  unfolding f32_sub_def Let_def sign_xor_f32 softfloat_addMagsF32_special [OF assms] softfloat_subMagsF32_special [OF assms]
  by (cases "f32_sign a = f32_sign b") auto

theorem f64_add_special:
  assumes "\<not> (f64_finite a \<and> f64_finite b)"
  shows "f64_add a b st =
         (if f64_isnan a \<or> f64_isnan b then f64_nan_result a b st
          else if f64_isinf a \<and> f64_isinf b \<and> f64_sign a \<noteq> f64_sign b
          then (defaultNaNF64UI, softfloat_raiseFlags softfloat_flag_invalid st)
          else (if f64_isinf a then a else b, st))"
proof -
  have inf: "f64_isinf b" if "\<not> f64_isnan a" "\<not> f64_isnan b" "\<not> f64_isinf a"
    using assms that by (auto simp: f64_classes)
  show ?thesis
    unfolding f64_add_def Let_def signF64UI_eq softfloat_addMagsF64_special [OF assms] softfloat_subMagsF64_special [OF assms]
    using inf f64_inf_pack [of b] by (cases "f64_sign a = f64_sign b") (auto split: if_splits)
qed

theorem f64_sub_special:
  assumes "\<not> (f64_finite a \<and> f64_finite b)"
  shows "f64_sub a b st =
         (if f64_isnan a \<or> f64_isnan b then f64_nan_result a b st
          else if f64_isinf a \<and> f64_isinf b \<and> f64_sign a = f64_sign b
          then (defaultNaNF64UI, softfloat_raiseFlags softfloat_flag_invalid st)
          else (if f64_isinf a then a else f64_pack (\<not> f64_sign b) (inf_code f64_fmt), st))"
  unfolding f64_sub_def Let_def signF64UI_eq softfloat_addMagsF64_special [OF assms] softfloat_subMagsF64_special [OF assms]
  by (cases "f64_sign a = f64_sign b") auto

end
