(* ===== verification/SF_Mul.thy ===== *)
theory SF_Mul
  imports SF_AddSub
begin

text \<open>
  Multiplication (\<open>source/f32_mul.c\<close>, \<open>f64_mul.c\<close>): the product of the two exact values, rounded
  once, and the results for infinities, NaNs and zero times infinity.
\<close>

definition f32_mul :: "u32 \<Rightarrow> u32 \<Rightarrow> softfloat_state \<Rightarrow> u32 \<times> softfloat_state" where
  "f32_mul a b st =
     (let uiA = ucast a;
          signA = signF32UI uiA;
          expA = expF32UI uiA;
          sigA = fracF32UI uiA;
          uiB = ucast b;
          signB = signF32UI uiB;
          expB = expF32UI uiB;
          sigB = fracF32UI uiB;
          signZ = (signA \<noteq> signB);
          propagateNaN = (case softfloat_propagateNaNF32UI uiA uiB st of (uiZ, st) \<Rightarrow> (ucast uiZ, st));
          infArg = (\<lambda>magBits :: u64.
            if magBits = 0 then (ucast defaultNaNF32UI, softfloat_raiseFlags softfloat_flag_invalid st)
            else (ucast (packToF32UI signZ 0xFF 0), st));
          zero = (ucast (packToF32UI signZ 0 0), st)
      in if expA = 0xFF then
           if sigA \<noteq> 0 \<or> expB = 0xFF \<and> sigB \<noteq> 0 then propagateNaN
           else infArg (word_of_int expB OR sigB)
         else if expB = 0xFF then
           if sigB \<noteq> 0 then propagateNaN
           else infArg (word_of_int expA OR sigA)
         else if expA = 0 \<and> sigA = 0 then zero
         else
           let (expA, sigA) = (if expA = 0 then softfloat_normSubnormalF32Sig sigA else (expA, sigA))
           in if expB = 0 \<and> sigB = 0 then zero
              else
                let (expB, sigB) = (if expB = 0 then softfloat_normSubnormalF32Sig sigB else (expB, sigB));
                    expZ = expA + expB - 0x7F;
                    sigA = push_bit 7 (sigA OR 0x00800000);
                    sigB = push_bit 8 (sigB OR 0x00800000);
                    sigZ = softfloat_shortShiftRightJam64 (sigA * sigB) 32
                in if sigZ < 0x40000000
                   then softfloat_roundPackToF32 signZ (expZ - 1) (push_bit 1 sigZ) st
                   else softfloat_roundPackToF32 signZ expZ sigZ st)"

definition f64_mul :: "u64 \<Rightarrow> u64 \<Rightarrow> softfloat_state \<Rightarrow> u64 \<times> softfloat_state" where
  "f64_mul a b st =
     (let uiA = a;
          signA = signF64UI uiA;
          expA = expF64UI uiA;
          sigA = fracF64UI uiA;
          uiB = b;
          signB = signF64UI uiB;
          expB = expF64UI uiB;
          sigB = fracF64UI uiB;
          signZ = (signA \<noteq> signB);
          propagateNaN = (case softfloat_propagateNaNF64UI uiA uiB st of (uiZ, st) \<Rightarrow> (uiZ, st));
          infArg = (\<lambda>magBits :: u64.
            if magBits = 0 then (defaultNaNF64UI, softfloat_raiseFlags softfloat_flag_invalid st)
            else ((packToF64UI signZ 0x7FF 0), st));
          zero = ((packToF64UI signZ 0 0), st)
      in if expA = 0x7FF then
           if sigA \<noteq> 0 \<or> expB = 0x7FF \<and> sigB \<noteq> 0 then propagateNaN
           else infArg (word_of_int expB OR sigB)
         else if expB = 0x7FF then
           if sigB \<noteq> 0 then propagateNaN
           else infArg (word_of_int expA OR sigA)
         else if expA = 0 \<and> sigA = 0 then zero
         else
           let (expA, sigA) = (if expA = 0 then softfloat_normSubnormalF64Sig sigA else (expA, sigA))
           in if expB = 0 \<and> sigB = 0 then zero
              else
                let (expB, sigB) = (if expB = 0 then softfloat_normSubnormalF64Sig sigB else (expB, sigB));
                    expZ = expA + expB - 0x3FF;
                    sigA = push_bit 10 (sigA OR 0x0010000000000000);
                    sigB = push_bit 11 (sigB OR 0x0010000000000000);
                    sig128Z = softfloat_mul64To128 sigA sigB;
                    sigZ = v64 sig128Z OR of_bool (v0 sig128Z \<noteq> 0)
                in if sigZ < 0x4000000000000000
                   then softfloat_roundPackToF64 signZ (expZ - 1) (push_bit 1 sigZ) st
                   else softfloat_roundPackToF64 signZ expZ sigZ st)"

subsection \<open>Normalised operands\<close>

text \<open>
  The operands as multiplication and division see them: a significand with its leading bit
  at bit 23 or 52, and an exponent that may be below 1.
\<close>

lemma normF32_operand:
  assumes fin: "f32_finite a" and nz: "\<not> (expF32UI (ucast a) = 0 \<and> fracF32UI (ucast a) = 0)"
  obtains e sig S where
    "(if expF32UI (ucast a) = 0 then softfloat_normSubnormalF32Sig (fracF32UI (ucast a)) else (expF32UI (ucast a), fracF32UI (ucast a))) = (e, sig)"
    "unat (sig OR 0x00800000) = S" "2 ^ 23 \<le> S" "S < 2 ^ 24"
    "mval f32_fmt (f32_mag a) = real S * pow2 (e - 150)" "- 23 \<le> e" "e < 0xFF"
proof (cases "f32_mag a div 2 ^ 23 = 0")
  case True
  define f where "f = f32_mag a mod 2 ^ 23"
  have e0: "expF32UI (ucast a) = 0" using True by (simp only: f32_fields of_nat_0)
  have uf: "unat (fracF32UI (ucast a)) = f" by (simp only: f32_fields f_def)
  have "fracF32UI (ucast a) \<noteq> 0" using nz e0 by simp
  then have "unat (fracF32UI (ucast a)) \<noteq> 0" by (simp only: unat_eq_0 not_False_eq_True)
  then have f: "0 < f" "f < 2 ^ 23" unfolding uf by (simp_all add: f_def)
  then obtain k where k: "softfloat_normSubnormalF32Sig (fracF32UI (ucast a)) = (1 - int k, push_bit k (fracF32UI (ucast a)))"
    "unat (push_bit k (fracF32UI (ucast a))) = f * 2 ^ k" "2 ^ 23 \<le> f * 2 ^ k" "f * 2 ^ k < 2 ^ 24"
    using normSubnormalF32_shift [of "fracF32UI (ucast a)"] unfolding uf by metis
  have "2 ^ k \<le> f * 2 ^ k" using f(1) by simp
  then have "(2 :: nat) ^ k < 2 ^ 24" using k(4) by (rule le_less_trans)
  then have kP: "k < 24" by (rule power_less_imp_less_exp [rotated]) simp
  have "f * 2 ^ k div 2 ^ 23 = 1" using k(3,4) by (intro div_nat_eqI) simp_all
  then have S: "unat (push_bit k (fracF32UI (ucast a)) OR 0x00800000) = f * 2 ^ k"
    using unat_or_bit_cases [of 23 "push_bit k (fracF32UI (ucast a))"] k(2) by simp
  have "mval f32_fmt (f32_mag a) = real (2 * f) * pow2 (- 150)"
    unfolding mval_f32_fsig fsig_def f_def [symmetric] True by simp
  also have "\<dots> = real (f * 2 ^ k) * pow2 (1 - int k - 150)"
    using pow2_shift_subnormal [of 150 k] by (simp only: of_nat_mult of_nat_power of_nat_numeral mult_ac)
  finally show thesis using k S kP e0 by (intro that [of "1 - int k" "push_bit k (fracF32UI (ucast a))" "f * 2 ^ k"]) simp_all
next
  case False
  define f where "f = f32_mag a mod 2 ^ 23"
  have uf: "unat (fracF32UI (ucast a)) = f" by (simp only: f32_fields f_def)
  have f: "f < 2 ^ 23" by (simp add: f_def)
  have S: "unat (fracF32UI (ucast a) OR 0x00800000) = f + 2 ^ 23"
    using unat_or_exp [of "fracF32UI (ucast a)" 23] f uf by simp
  have e: "expF32UI (ucast a) = int (f32_mag a div 2 ^ 23)" by (simp only: f32_fields)
  have "mval f32_fmt (f32_mag a) = real (f + 2 ^ 23) * pow2 (expF32UI (ucast a) - 150)"
    unfolding mval_f32_fsig fsig_def f_def [symmetric] e using False by simp
  moreover have "expF32UI (ucast a) < 0xFF" "expF32UI (ucast a) \<noteq> 0" "0 \<le> expF32UI (ucast a)"
    unfolding e using fin False by (simp_all add: f32_finite_exp)
  ultimately show thesis using S f by (intro that [of "expF32UI (ucast a)" "fracF32UI (ucast a)" "f + 2 ^ 23"]) simp_all
qed

lemma normF64_operand:
  assumes fin: "f64_finite a" and nz: "\<not> (expF64UI a = 0 \<and> fracF64UI a = 0)"
  obtains e sig S where
    "(if expF64UI a = 0 then softfloat_normSubnormalF64Sig (fracF64UI a) else (expF64UI a, fracF64UI a)) = (e, sig)"
    "unat (sig OR 0x0010000000000000) = S" "2 ^ 52 \<le> S" "S < 2 ^ 53"
    "mval f64_fmt (f64_mag a) = real S * pow2 (e - 1075)" "- 52 \<le> e" "e < 0x7FF"
proof (cases "f64_mag a div 2 ^ 52 = 0")
  case True
  define f where "f = f64_mag a mod 2 ^ 52"
  have e0: "expF64UI a = 0" using True by (simp only: f64_fields of_nat_0)
  have uf: "unat (fracF64UI a) = f" by (simp only: f64_fields f_def)
  have "fracF64UI a \<noteq> 0" using nz e0 by simp
  then have "unat (fracF64UI a) \<noteq> 0" by (simp only: unat_eq_0 not_False_eq_True)
  then have f: "0 < f" "f < 2 ^ 52" unfolding uf by (simp_all add: f_def)
  then obtain k where k: "softfloat_normSubnormalF64Sig (fracF64UI a) = (1 - int k, push_bit k (fracF64UI a))"
    "unat (push_bit k (fracF64UI a)) = f * 2 ^ k" "2 ^ 52 \<le> f * 2 ^ k" "f * 2 ^ k < 2 ^ 53"
    using normSubnormalF64_shift [of "fracF64UI a"] unfolding uf by metis
  have "2 ^ k \<le> f * 2 ^ k" using f(1) by simp
  then have "(2 :: nat) ^ k < 2 ^ 53" using k(4) by (rule le_less_trans)
  then have kP: "k < 53" by (rule power_less_imp_less_exp [rotated]) simp
  have "f * 2 ^ k div 2 ^ 52 = 1" using k(3,4) by (intro div_nat_eqI) simp_all
  then have S: "unat (push_bit k (fracF64UI a) OR 0x0010000000000000) = f * 2 ^ k"
    using unat_or_bit_cases [of 52 "push_bit k (fracF64UI a)"] k(2) by simp
  have "mval f64_fmt (f64_mag a) = real (2 * f) * pow2 (- 1075)"
    unfolding mval_f64_fsig fsig_def f_def [symmetric] True by simp
  also have "\<dots> = real (f * 2 ^ k) * pow2 (1 - int k - 1075)"
    using pow2_shift_subnormal [of 1075 k] by (simp only: of_nat_mult of_nat_power of_nat_numeral mult_ac)
  finally show thesis using k S kP e0 by (intro that [of "1 - int k" "push_bit k (fracF64UI a)" "f * 2 ^ k"]) simp_all
next
  case False
  define f where "f = f64_mag a mod 2 ^ 52"
  have uf: "unat (fracF64UI a) = f" by (simp only: f64_fields f_def)
  have f: "f < 2 ^ 52" by (simp add: f_def)
  have S: "unat (fracF64UI a OR 0x0010000000000000) = f + 2 ^ 52"
    using unat_or_exp [of "fracF64UI a" 52] f uf by simp
  have e: "expF64UI a = int (f64_mag a div 2 ^ 52)" by (simp only: f64_fields)
  have "mval f64_fmt (f64_mag a) = real (f + 2 ^ 52) * pow2 (expF64UI a - 1075)"
    unfolding mval_f64_fsig fsig_def f_def [symmetric] e using False by simp
  moreover have "expF64UI a < 0x7FF" "expF64UI a \<noteq> 0" "0 \<le> expF64UI a"
    unfolding e using fin False by (simp_all add: f64_finite_exp)
  ultimately show thesis using S f by (intro that [of "expF64UI a" "fracF64UI a" "f + 2 ^ 52"]) simp_all
qed

subsection \<open>Products\<close>

text \<open>The significand of the product, with the lost bits jammed.\<close>

lemma mulF32_sig:
  fixes u v :: u64
  assumes u: "unat u = S" "2 ^ 23 \<le> S" "S < 2 ^ 24" and v: "unat v = T" "2 ^ 23 \<le> T" "T < 2 ^ 24"
  defines "z \<equiv> softfloat_shortShiftRightJam64 (push_bit 7 u * push_bit 8 v) 32"
    and "r \<equiv> real (S * T) / 2 ^ 17"
  shows "int (unat z) = rodd r" "2 ^ 29 \<le> r" "r < 2 ^ 31"
proof -
  have up: "unat (push_bit 7 u) = S * 2 ^ 7" using u by (subst unat_push_bit) simp_all
  have vp: "unat (push_bit 8 v) = T * 2 ^ 8" using v by (subst unat_push_bit) simp_all
  have lt: "S * T < 2 ^ 24 * 2 ^ 24" using u(3) v(3) by (rule mult_strict_mono') simp_all
  have ge: "2 ^ 23 * 2 ^ 23 \<le> S * T" using u(2) v(2) by (rule mult_le_mono)
  have prod: "S * 2 ^ 7 * (T * 2 ^ 8) = S * T * 2 ^ 15" by simp
  have div: "real (S * T * 2 ^ 15) / 2 ^ 32 = r" by (simp add: r_def)
  have "unat (push_bit 7 u * push_bit 8 v) = S * T * 2 ^ 15"
    using lt unfolding prod [symmetric] by (simp add: unat_word_ariths up vp)
  moreover have "unat (32 :: u8) < 64" by simp
  from softfloat_shortShiftRightJam64_rodd [OF this]
  have "int (unat z) = rodd (real (unat (push_bit 7 u * push_bit 8 v)) / 2 ^ 32)" unfolding z_def by simp
  ultimately show "int (unat z) = rodd r" by (simp only: div)
  have "real (2 ^ 23 * 2 ^ 23) \<le> real (S * T)" "real (S * T) < real (2 ^ 24 * 2 ^ 24)"
    using ge lt by (simp_all only: of_nat_le_iff of_nat_less_iff)
  then show "2 ^ 29 \<le> r" "r < 2 ^ 31" by (simp_all add: r_def pos_le_divide_eq pos_divide_less_eq)
qed

theorem f32_mul_finite:
  assumes fin: "f32_finite a" "f32_finite b"
  shows "f32_mul a b st = f32_round_signed (f32_sign a \<noteq> f32_sign b) (f32_val a * f32_val b) st"
proof -
  let ?s = "f32_sign a \<noteq> f32_sign b" and ?x = "mval f32_fmt (f32_mag a) * mval f32_fmt (f32_mag b)"
  have "f32_val a * f32_val b = sgn_val ?s ?x" by (simp add: f32_val_def sgn_val_def)
  then have spec: "f32_round_signed ?s (f32_val a * f32_val b) st = f32_round ?s ?x st"
    by (simp add: f32_round_signed_sgn)
  let ?uA = "ucast a :: u64" and ?uB = "ucast b :: u64"
  have c: "(expF32UI ?uA = 0xFF) = False" "(expF32UI ?uB = 0xFF) = False"
    using fin by (simp_all only: f32_fields f32_finite_exp) simp_all
  have zero: "ucast (packToF32UI s 0 0) = f32_pack s 0" for s by (simp add: packToF32UI_pack)
  have mag0: "mval f32_fmt (f32_mag d) = 0" if "expF32UI (ucast d) = 0 \<and> fracF32UI (ucast d) = 0" for d
    using that by (simp add: f32_fields fracF32_eq_0 mval_f32_fsig fsig_def)
  note code = f32_mul_def Let_def c if_False signF32UI_ucast
  show ?thesis
  proof (cases "(expF32UI ?uA = 0 \<and> fracF32UI ?uA = 0) \<or> (expF32UI ?uB = 0 \<and> fracF32UI ?uB = 0)")
    case True
    then have x0: "?x = 0" using mag0 [of a] mag0 [of b] by auto
    have "f32_mul a b st = (f32_pack ?s 0, st)"
      using True by (auto simp only: code zero simp_thms if_True if_cancel split: prod.split)
    then show ?thesis unfolding spec x0 by (simp only: f32_round_0)
  next
    case False
    then have nz: "\<not> (expF32UI ?uA = 0 \<and> fracF32UI ?uA = 0)" "\<not> (expF32UI ?uB = 0 \<and> fracF32UI ?uB = 0)" by blast+
    obtain eA sA S where A: "(if expF32UI ?uA = 0 then softfloat_normSubnormalF32Sig (fracF32UI ?uA) else (expF32UI ?uA, fracF32UI ?uA)) = (eA, sA)"
      "unat (sA OR 0x00800000) = S" "2 ^ 23 \<le> S" "S < 2 ^ 24"
      "mval f32_fmt (f32_mag a) = real S * pow2 (eA - 150)" "- 23 \<le> eA" "eA < 0xFF"
      using normF32_operand [OF fin(1) nz(1)] .
    obtain eB sB T where B: "(if expF32UI ?uB = 0 then softfloat_normSubnormalF32Sig (fracF32UI ?uB) else (expF32UI ?uB, fracF32UI ?uB)) = (eB, sB)"
      "unat (sB OR 0x00800000) = T" "2 ^ 23 \<le> T" "T < 2 ^ 24"
      "mval f32_fmt (f32_mag b) = real T * pow2 (eB - 150)" "- 23 \<le> eB" "eB < 0xFF"
      using normF32_operand [OF fin(2) nz(2)] .
    note sig = mulF32_sig [OF A(2-4) B(2-4), unfolded Let_def]
    have "?x = real (S * T) * (pow2 (eA - 150) * pow2 (eB - 150))" by (simp add: A(5) B(5))
    also have "pow2 (eA - 150) * pow2 (eB - 150) = pow2 (eA + eB - 300)" by (simp add: algebra_simps flip: pow2_add)
    also have "\<dots> = pow2 (eA + eB - 0x7F - 156) / 2 ^ 17"
      using pow2_shift [of "eA + eB - 0x7F - 156" 17] by (simp add: algebra_simps)
    finally have x: "real (S * T) / 2 ^ 17 * pow2 (eA + eB - 0x7F - 156) = ?x" by simp
    show ?thesis
      unfolding spec x [symmetric] code
      using nz by (simp only: A(1) B(1) if_False prod.case)
        (rule softfloat_roundPackToF32_norm1 [OF sig], use A(6,7) B(6,7) in simp_all)
  qed
qed

text \<open>The significand of the product, with the lost bits jammed.\<close>

lemma mulF64_sig:
  fixes u v :: u64
  assumes u: "unat u = S" "2 ^ 52 \<le> S" "S < 2 ^ 53" and v: "unat v = T" "2 ^ 52 \<le> T" "T < 2 ^ 53"
  defines "z \<equiv> (let p = softfloat_mul64To128 (push_bit 10 u) (push_bit 11 v) in v64 p OR of_bool (v0 p \<noteq> 0))"
    and "r \<equiv> real (S * T) / 2 ^ 43"
  shows "int (unat z) = rodd r" "2 ^ 61 \<le> r" "r < 2 ^ 63"
proof -
  have up: "unat (push_bit 10 u) = S * 2 ^ 10" using u by (subst unat_push_bit) simp_all
  have vp: "unat (push_bit 11 v) = T * 2 ^ 11" using v by (subst unat_push_bit) simp_all
  have lt: "S * T < 2 ^ 53 * 2 ^ 53" using u(3) v(3) by (rule mult_strict_mono') simp_all
  have ge: "2 ^ 52 * 2 ^ 52 \<le> S * T" using u(2) v(2) by (rule mult_le_mono)
  have prod: "S * 2 ^ 10 * (T * 2 ^ 11) = S * T * 2 ^ 21" by simp
  have div: "real (S * T * 2 ^ 21) / 2 ^ 64 = r" by (simp add: r_def)
  have p: "unat (v64 (softfloat_mul64To128 (push_bit 10 u) (push_bit 11 v))) = S * T * 2 ^ 21 div 2 ^ 64"
    "unat (v0 (softfloat_mul64To128 (push_bit 10 u) (push_bit 11 v))) = S * T * 2 ^ 21 mod 2 ^ 64"
    by (simp_all only: softfloat_mul64To128_prod up vp prod)
  have "int (unat z) = rodd (real (S * T * 2 ^ 21) / 2 ^ 64)"
    unfolding z_def Let_def rodd_nat_div unat_or_bit p unat_eq_0 [symmetric] by (rule refl)
  then show "int (unat z) = rodd r" by (simp only: div)
  have "real (2 ^ 52 * 2 ^ 52) \<le> real (S * T)" "real (S * T) < real (2 ^ 53 * 2 ^ 53)"
    using ge lt by (simp_all only: of_nat_le_iff of_nat_less_iff)
  then show "2 ^ 61 \<le> r" "r < 2 ^ 63" by (simp_all add: r_def pos_le_divide_eq pos_divide_less_eq)
qed

theorem f64_mul_finite:
  assumes fin: "f64_finite a" "f64_finite b"
  shows "f64_mul a b st = f64_round_signed (f64_sign a \<noteq> f64_sign b) (f64_val a * f64_val b) st"
proof -
  let ?s = "f64_sign a \<noteq> f64_sign b" and ?x = "mval f64_fmt (f64_mag a) * mval f64_fmt (f64_mag b)"
  have "f64_val a * f64_val b = sgn_val ?s ?x" by (simp add: f64_val_def sgn_val_def)
  then have spec: "f64_round_signed ?s (f64_val a * f64_val b) st = f64_round ?s ?x st"
    by (simp add: f64_round_signed_sgn)
  let ?uA = "a :: u64" and ?uB = "b :: u64"
  have c: "(expF64UI ?uA = 0x7FF) = False" "(expF64UI ?uB = 0x7FF) = False"
    using fin by (simp_all only: f64_fields f64_finite_exp) simp_all
  have zero: "(packToF64UI s 0 0) = f64_pack s 0" for s by (simp add: packToF64UI_pack)
  have mag0: "mval f64_fmt (f64_mag d) = 0" if "expF64UI d = 0 \<and> fracF64UI d = 0" for d
    using that by (simp add: f64_fields fracF64_eq_0 mval_f64_fsig fsig_def)
  note code = f64_mul_def Let_def c if_False signF64UI_eq
  show ?thesis
  proof (cases "(expF64UI ?uA = 0 \<and> fracF64UI ?uA = 0) \<or> (expF64UI ?uB = 0 \<and> fracF64UI ?uB = 0)")
    case True
    then have x0: "?x = 0" using mag0 [of a] mag0 [of b] by auto
    have "f64_mul a b st = (f64_pack ?s 0, st)"
      using True by (auto simp only: code zero simp_thms if_True if_cancel split: prod.split)
    then show ?thesis unfolding spec x0 by (simp only: f64_round_0)
  next
    case False
    then have nz: "\<not> (expF64UI ?uA = 0 \<and> fracF64UI ?uA = 0)" "\<not> (expF64UI ?uB = 0 \<and> fracF64UI ?uB = 0)" by blast+
    obtain eA sA S where A: "(if expF64UI ?uA = 0 then softfloat_normSubnormalF64Sig (fracF64UI ?uA) else (expF64UI ?uA, fracF64UI ?uA)) = (eA, sA)"
      "unat (sA OR 0x0010000000000000) = S" "2 ^ 52 \<le> S" "S < 2 ^ 53"
      "mval f64_fmt (f64_mag a) = real S * pow2 (eA - 1075)" "- 52 \<le> eA" "eA < 0x7FF"
      using normF64_operand [OF fin(1) nz(1)] .
    obtain eB sB T where B: "(if expF64UI ?uB = 0 then softfloat_normSubnormalF64Sig (fracF64UI ?uB) else (expF64UI ?uB, fracF64UI ?uB)) = (eB, sB)"
      "unat (sB OR 0x0010000000000000) = T" "2 ^ 52 \<le> T" "T < 2 ^ 53"
      "mval f64_fmt (f64_mag b) = real T * pow2 (eB - 1075)" "- 52 \<le> eB" "eB < 0x7FF"
      using normF64_operand [OF fin(2) nz(2)] .
    note sig = mulF64_sig [OF A(2-4) B(2-4), unfolded Let_def]
    have "?x = real (S * T) * (pow2 (eA - 1075) * pow2 (eB - 1075))" by (simp add: A(5) B(5))
    also have "pow2 (eA - 1075) * pow2 (eB - 1075) = pow2 (eA + eB - 2150)" by (simp add: algebra_simps flip: pow2_add)
    also have "\<dots> = pow2 (eA + eB - 0x3FF - 1084) / 2 ^ 43"
      using pow2_shift [of "eA + eB - 0x3FF - 1084" 43] by (simp add: algebra_simps)
    finally have x: "real (S * T) / 2 ^ 43 * pow2 (eA + eB - 0x3FF - 1084) = ?x" by simp
    show ?thesis
      unfolding spec x [symmetric] code
      using nz by (simp only: A(1) B(1) if_False prod.case)
        (rule softfloat_roundPackToF64_norm1 [OF sig], use A(6,7) B(6,7) in simp_all)
  qed
qed

lemma magbits32_eq_0:
  "word_of_int (expF32UI (ucast (a :: u32))) OR fracF32UI (ucast a) = 0 \<longleftrightarrow> f32_mag a = 0"
proof -
  have e: "unat (word_of_int (expF32UI (ucast a)) :: u64) = f32_mag a div 2 ^ 23"
    using f32_exp_less [of a] unfolding f32_fields by (subst unat_word_of_int) simp_all
  have "word_of_int (expF32UI (ucast a)) = (0 :: u64) \<longleftrightarrow> f32_mag a div 2 ^ 23 = 0"
    by (simp only: e unat_eq_0 [symmetric])
  then have "word_of_int (expF32UI (ucast a)) OR fracF32UI (ucast a) = 0 \<longleftrightarrow> f32_mag a div 2 ^ 23 = 0 \<and> f32_mag a mod 2 ^ 23 = 0"
    by (simp only: or_eq_0_iff fracF32_eq_0)
  then show ?thesis using div_mult_mod_eq [of "f32_mag a" "2 ^ 23"] by auto
qed

theorem f32_mul_special:
  assumes "\<not> (f32_finite a \<and> f32_finite b)"
  shows "f32_mul a b st =
         (if f32_isnan a \<or> f32_isnan b then f32_nan_result a b st
          else if f32_mag a = 0 \<or> f32_mag b = 0
          then (ucast defaultNaNF32UI, softfloat_raiseFlags softfloat_flag_invalid st)
          else (f32_pack (f32_sign a \<noteq> f32_sign b) (inf_code f32_fmt), st))"
proof -
  let ?eA = "f32_mag a div 2 ^ 23" and ?eB = "f32_mag b div 2 ^ 23"
  have nz: "f32_mag d \<noteq> 0" if "f32_mag d div 2 ^ 23 = 0xFF" for d using that by (intro notI) simp
  show ?thesis
  proof (cases "?eA = 0xFF")
    case True
    then have c: "(int ?eA = 0xFF) = True" "(int ?eB = 0xFF) = (?eB = 0xFF)" by simp_all
    show ?thesis
      using True nz unfolding f32_classes softfloat_propagateNaNF32UI_result [symmetric]
      by (simp only: f32_mul_def Let_def f32_fields magbits32_eq_0 [unfolded expF32UI_ucast] fracF32_eq_0 packToF32UI_inf c if_True) auto
  next
    case False
    then have c: "(int ?eA = 0xFF) = False" "(int ?eB = 0xFF) = True" "?eB = 0xFF"
      using assms unfolding f32_classes by simp_all
    show ?thesis
      using False nz [of b] c(3) unfolding f32_classes softfloat_propagateNaNF32UI_result [symmetric]
      by (simp only: f32_mul_def Let_def f32_fields magbits32_eq_0 [unfolded expF32UI_ucast] fracF32_eq_0 packToF32UI_inf c(1,2) if_True if_False) auto
  qed
qed

lemma magbits64_eq_0:
  "word_of_int (expF64UI a) OR fracF64UI a = 0 \<longleftrightarrow> f64_mag a = 0"
proof -
  have e: "unat (word_of_int (expF64UI a) :: u64) = f64_mag a div 2 ^ 52"
    using f64_exp_less [of a] unfolding f64_fields by (subst unat_word_of_int) simp_all
  have "word_of_int (expF64UI a) = (0 :: u64) \<longleftrightarrow> f64_mag a div 2 ^ 52 = 0"
    by (simp only: e unat_eq_0 [symmetric])
  then have "word_of_int (expF64UI a) OR fracF64UI a = 0 \<longleftrightarrow> f64_mag a div 2 ^ 52 = 0 \<and> f64_mag a mod 2 ^ 52 = 0"
    by (simp only: or_eq_0_iff fracF64_eq_0)
  then show ?thesis using div_mult_mod_eq [of "f64_mag a" "2 ^ 52"] by auto
qed

theorem f64_mul_special:
  assumes "\<not> (f64_finite a \<and> f64_finite b)"
  shows "f64_mul a b st =
         (if f64_isnan a \<or> f64_isnan b then f64_nan_result a b st
          else if f64_mag a = 0 \<or> f64_mag b = 0
          then (defaultNaNF64UI, softfloat_raiseFlags softfloat_flag_invalid st)
          else (f64_pack (f64_sign a \<noteq> f64_sign b) (inf_code f64_fmt), st))"
proof -
  let ?eA = "f64_mag a div 2 ^ 52" and ?eB = "f64_mag b div 2 ^ 52"
  have nz: "f64_mag d \<noteq> 0" if "f64_mag d div 2 ^ 52 = 0x7FF" for d using that by (intro notI) simp
  show ?thesis
  proof (cases "?eA = 0x7FF")
    case True
    then have c: "(int ?eA = 0x7FF) = True" "(int ?eB = 0x7FF) = (?eB = 0x7FF)" by simp_all
    show ?thesis
      using True nz unfolding f64_classes softfloat_propagateNaNF64UI_result [symmetric]
      by (simp only: f64_mul_def Let_def f64_fields magbits64_eq_0 [unfolded expF64UI_eq] fracF64_eq_0 packToF64UI_inf c if_True) auto
  next
    case False
    then have c: "(int ?eA = 0x7FF) = False" "(int ?eB = 0x7FF) = True" "?eB = 0x7FF"
      using assms unfolding f64_classes by simp_all
    show ?thesis
      using False nz [of b] c(3) unfolding f64_classes softfloat_propagateNaNF64UI_result [symmetric]
      by (simp only: f64_mul_def Let_def f64_fields magbits64_eq_0 [unfolded expF64UI_eq] fracF64_eq_0 packToF64UI_inf c(1,2) if_True if_False) auto
  qed
qed

end
