(* ===== verification/SF_Wide.thy ===== *)
theory SF_Wide
  imports SF_Mul
begin

text \<open>
  The 128-bit primitives of \<open>source/include/primitives.h\<close> and \<open>source/s_shiftRightJam128.c\<close>: a pair of 64-bit
  words as one number, its sum, difference and shifts. The right shifts round to odd, like
  the 64-bit ones.
\<close>

unbundle bit_operations_syntax

definition softfloat_shortShiftLeft128 :: "u64 \<Rightarrow> u64 \<Rightarrow> u8 \<Rightarrow> uint128" where
  "softfloat_shortShiftLeft128 a64 a0 d =
     \<lparr>v64 = push_bit (unat d) a64 OR drop_bit (unat (- d AND 63)) a0,
      v0 = push_bit (unat d) a0\<rparr>"

definition softfloat_shortShiftRightJam128 :: "u64 \<Rightarrow> u64 \<Rightarrow> u8 \<Rightarrow> uint128" where
  "softfloat_shortShiftRightJam128 a64 a0 d =
     (let negDist = - d
      in \<lparr>v64 = drop_bit (unat d) a64,
          v0 = push_bit (unat (negDist AND 63)) a64 OR drop_bit (unat d) a0
                 OR of_bool (push_bit (unat (negDist AND 63)) a0 \<noteq> 0)\<rparr>)"

definition softfloat_shiftRightJam128 :: "u64 \<Rightarrow> u64 \<Rightarrow> u64 \<Rightarrow> uint128" where
  "softfloat_shiftRightJam128 a64 a0 d =
     (if d < 64 then
        let u8NegDist = ucast (- d) :: u8
        in \<lparr>v64 = drop_bit (unat d) a64,
            v0 = push_bit (unat (u8NegDist AND 63)) a64 OR drop_bit (unat d) a0
                   OR of_bool (push_bit (unat (u8NegDist AND 63)) a0 \<noteq> 0)\<rparr>
      else
        \<lparr>v64 = 0,
         v0 = (if d < 127
               then drop_bit (unat (d AND 63)) a64
                      OR of_bool ((a64 AND (push_bit (unat (d AND 63)) 1 - 1)) OR a0 \<noteq> 0)
               else of_bool (a64 OR a0 \<noteq> 0))\<rparr>)"

definition softfloat_add128 :: "u64 \<Rightarrow> u64 \<Rightarrow> u64 \<Rightarrow> u64 \<Rightarrow> uint128" where
  "softfloat_add128 a64 a0 b64 b0 =
     (let z0 = a0 + b0
      in \<lparr>v64 = a64 + b64 + of_bool (z0 < a0), v0 = z0\<rparr>)"

definition softfloat_sub128 :: "u64 \<Rightarrow> u64 \<Rightarrow> u64 \<Rightarrow> u64 \<Rightarrow> uint128" where
  "softfloat_sub128 a64 a0 b64 b0 = \<lparr>v64 = a64 - b64 - of_bool (a0 < b0), v0 = a0 - b0\<rparr>"

text \<open>The number a pair of words stands for.\<close>

definition wide :: "u64 \<Rightarrow> u64 \<Rightarrow> nat" where
  "wide hi lo = unat hi * 2 ^ 64 + unat lo"

definition u128 :: "uint128 \<Rightarrow> nat" where
  "u128 z = wide (v64 z) (v0 z)"

lemma wide_less: "wide a b < 2 ^ 128"
  using unat_bound [of a] unat_bound [of b] by (simp add: wide_def)

lemma wide_inject: "wide a b = wide c d \<longleftrightarrow> a = c \<and> b = d"
proof -
  have "wide a b div 2 ^ 64 = unat a" "wide a b mod 2 ^ 64 = unat b" for a b
    using unat_bound [of b] by (simp_all add: wide_def)
  then show ?thesis by (metis word_unat_eq_iff)
qed

lemma u128_mul: "u128 (softfloat_mul64To128 a b) = unat a * unat b"
  by (simp only: u128_def wide_def softfloat_mul64To128_prod div_mult_mod_eq)

theorem u128_add:
  "u128 (softfloat_add128 a64 a0 b64 b0) = (wide a64 a0 + wide b64 b0) mod 2 ^ 128"
proof -
  define A B C D where "A = unat a64" and "B = unat a0" and "C = unat b64" and "D = unat b0"
  have lt: "A < 2 ^ 64" "B < 2 ^ 64" "C < 2 ^ 64" "D < 2 ^ 64"
    using unat_bound [of a64] unat_bound [of a0] unat_bound [of b64] unat_bound [of b0]
    by (simp_all add: A_def B_def C_def D_def)
  have c: "a0 + b0 < a0 \<longleftrightarrow> 2 ^ 64 \<le> B + D"
    using lt by (simp add: word_less_nat_alt unat_word_ariths B_def [symmetric] D_def [symmetric] mod_if) auto
  have "u128 (softfloat_add128 a64 a0 b64 b0) = (A + C + of_bool (2 ^ 64 \<le> B + D)) mod 2 ^ 64 * 2 ^ 64 + (B + D) mod 2 ^ 64"
    by (simp add: u128_def wide_def softfloat_add128_def Let_def c unat_word_ariths nat_of_word mod_add_left_eq
        A_def B_def C_def D_def)
  also have "\<dots> = ((A + C + of_bool (2 ^ 64 \<le> B + D)) * 2 ^ 64 + (B + D) mod 2 ^ 64) mod 2 ^ 128"
  proof -
    have "(x * 2 ^ 64 + y) mod 2 ^ 128 = x mod 2 ^ 64 * 2 ^ 64 + y" if "y < 2 ^ 64" for x y :: nat
      using that mod_mult2_eq [of "x * 2 ^ 64 + y" "2 ^ 64" "2 ^ 64"] by simp
    then show ?thesis by (metis mod_less_divisor zero_less_numeral zero_less_power)
  qed
  also have "(A + C + of_bool (2 ^ 64 \<le> B + D)) * 2 ^ 64 + (B + D) mod 2 ^ 64 = wide a64 a0 + wide b64 b0"
  proof -
    have "(B + D) mod 2 ^ 64 = (if 2 ^ 64 \<le> B + D then B + D - 2 ^ 64 else B + D)"
      using lt(2,4) by (simp add: le_mod_geq)
    then show ?thesis
      by (simp add: wide_def A_def [symmetric] B_def [symmetric] C_def [symmetric] D_def [symmetric])
  qed
  finally show ?thesis .
qed

lemma u128_sub_add:
  "wide a64 a0 = (u128 (softfloat_sub128 a64 a0 b64 b0) + wide b64 b0) mod 2 ^ 128"
proof -
  define z where "z = softfloat_sub128 a64 a0 b64 b0"
  have "softfloat_add128 (v64 z) (v0 z) b64 b0 = \<lparr>v64 = a64, v0 = a0\<rparr>"
  proof -
    have "a0 - b0 + b0 < a0 - b0 \<longleftrightarrow> a0 < b0"
      using unat_bound [of a0] unat_bound [of b0] by (auto simp: word_less_nat_alt unat_sub_if' split: if_splits)
    then show ?thesis by (simp add: z_def softfloat_sub128_def softfloat_add128_def Let_def)
  qed
  then show ?thesis
    using u128_add [of "v64 z" "v0 z" b64 b0] by (simp add: u128_def z_def)
qed

lemma u128_sub:
  assumes "wide b64 b0 \<le> wide a64 a0"
  shows "u128 (softfloat_sub128 a64 a0 b64 b0) = wide a64 a0 - wide b64 b0"
proof -
  have "u128 (softfloat_sub128 a64 a0 b64 b0) < 2 ^ 128" "wide b64 b0 < 2 ^ 128" by (simp_all only: u128_def wide_less)
  then show ?thesis using assms u128_sub_add [of a64 a0 b64 b0] by (simp add: mod_if split: if_splits)
qed

lemma u128_neg:
  assumes "wide b64 b0 \<noteq> 0"
  shows "u128 (softfloat_sub128 0 0 b64 b0) = 2 ^ 128 - wide b64 b0"
proof -
  have "u128 (softfloat_sub128 0 0 b64 b0) < 2 ^ 128" "wide b64 b0 < 2 ^ 128" by (simp_all only: u128_def wide_less)
  moreover have "wide 0 0 = 0" by (simp add: wide_def)
  ultimately show ?thesis using assms u128_sub_add [of 0 0 b64 b0] by (simp add: mod_if split: if_splits)
qed

lemma unat_or_disjoint:
  fixes x y :: "'a::len word"
  assumes "2 ^ k dvd unat x" "unat y < 2 ^ k"
  shows "unat (x OR y) = unat x + unat y"
proof -
  obtain a where a: "unat x = 2 ^ k * a" using assms(1) by (elim dvdE)
  have "unat (x OR y) = (unat x OR unat y)" by (rule unsigned_or_eq)
  also have "\<dots> = unat x + unat y"
  proof (rule disjunctive_add [symmetric])
    fix n
    have "\<not> bit (unat x) n" if "n < k"
      using that unfolding a mult.commute [of "2 ^ k"] push_bit_eq_mult [symmetric] by (simp only: bit_push_bit_iff) simp
    moreover have "\<not> bit (unat y) n" if "k \<le> n"
    proof -
      have "(2 :: nat) ^ k \<le> 2 ^ n" using that by (simp add: power_increasing)
      then have "unat y < 2 ^ n" using assms(2) by linarith
      then show ?thesis by (simp add: bit_iff_odd)
    qed
    ultimately show "\<not> bit (unat x) n \<or> \<not> bit (unat y) n" by linarith
  qed
  finally show ?thesis .
qed

lemma unat_push_bit_mod:
  fixes x :: u64
  assumes "d \<le> 64"
  shows "unat (push_bit (64 - d) x) = unat x mod 2 ^ d * 2 ^ (64 - d)"
proof -
  have "unat (push_bit (64 - d) x) = (unat x * 2 ^ (64 - d)) mod (2 ^ d * 2 ^ (64 - d))"
    using assms by (simp only: unsigned_push_bit_eq flip: power_add) (simp only: push_bit_eq_mult take_bit_eq_mod, simp)
  then show ?thesis by (simp only: mod_mult_mult2)
qed

lemma neg_and_mask6:
  fixes d :: "'a::len word"
  assumes "0 < unat d" "unat d < 64" "6 \<le> LENGTH('a)"
  shows "unat (- d AND 63) = 64 - unat d"
proof -
  have d: "0 < uint d" "uint d < 64" using assms(1,2) by (simp_all add: uint_nat)
  have m: "(63 :: 'a word) = mask 6" by (simp add: mask_eq_exp_minus_1)
  have "uint (- d AND mask 6) = (- uint d mod 2 ^ LENGTH('a)) mod 2 ^ 6"
    by (simp only: take_bit_eq_mask [symmetric] unsigned_take_bit_eq)
      (simp add: take_bit_eq_mod uint_word_ariths)
  also have "\<dots> = - uint d mod 2 ^ 6"
    using assms(3) by (intro mod_mod_cancel le_imp_power_dvd)
  also have "\<dots> = 64 - uint d"
    using d by (simp add: zmod_zminus1_eq_if)
  finally have "int (unat (- d AND mask 6)) = 64 - int (unat d)" by (simp only: uint_nat)
  then show ?thesis unfolding m by linarith
qed

text \<open>A right shift by less than a word.\<close>

lemma wide_shift_right:
  fixes d :: nat
  assumes "0 < d" "d < 64"
  shows "wide (drop_bit d a64) (push_bit (64 - d) a64 OR drop_bit d a0 OR of_bool b) = (wide a64 a0 div 2 ^ d OR of_bool b)"
proof -
  have p: "(2 :: nat) ^ d * 2 ^ (64 - d) = 2 ^ 64" using assms by (simp flip: power_add)
  have lo: "unat (drop_bit d a0) < 2 ^ (64 - d)"
    unfolding nat_of_word using unat_bound [of a0] p by (intro less_mult_imp_div_less) (simp add: mult.commute)
  have "unat (push_bit (64 - d) a64 OR drop_bit d a0) = unat a64 mod 2 ^ d * 2 ^ (64 - d) + unat a0 div 2 ^ d"
    using assms lo unat_or_disjoint [of "64 - d" "push_bit (64 - d) a64" "drop_bit d a0"]
    by (simp add: unat_push_bit_mod nat_of_word)
  moreover have "wide a64 a0 div 2 ^ d = unat a64 div 2 ^ d * 2 ^ 64 + (unat a64 mod 2 ^ d * 2 ^ (64 - d) + unat a0 div 2 ^ d)"
  proof -
    have "wide a64 a0 = (unat a64 div 2 ^ d * 2 ^ 64 + unat a64 mod 2 ^ d * 2 ^ (64 - d)) * 2 ^ d + unat a0"
    proof -
      have "(q * X + r) * (X * Y) = (q * (X * Y) + r * Y) * X" for q r X Y :: nat by (simp add: algebra_simps)
      from this [of "unat a64 div 2 ^ d" "2 ^ d" "unat a64 mod 2 ^ d" "2 ^ (64 - d)"]
      show ?thesis unfolding p div_mult_mod_eq by (simp only: wide_def)
    qed
    then show ?thesis by simp
  qed
  ultimately have "wide (drop_bit d a64) (push_bit (64 - d) a64 OR drop_bit d a0) = wide a64 a0 div 2 ^ d"
    by (simp add: wide_def nat_of_word)
  moreover have "wide x (y OR of_bool b) = (wide x y OR of_bool b)" for x y
  proof -
    have "m * 2 ^ 64 + (n OR of_bool b) = (m * 2 ^ 64 + n OR of_bool b)" for m n :: nat
      by (cases b) (simp_all only: of_bool_eq or_one_eq or.right_neutral, simp_all)
    then show ?thesis by (simp only: wide_def unat_or_bit)
  qed
  ultimately show ?thesis by (simp only: or.assoc [symmetric])
qed

lemma wide_mod:
  assumes "d \<le> 64"
  shows "wide a64 a0 mod 2 ^ d = unat a0 mod 2 ^ d"
proof -
  have "(2 :: nat) ^ 64 = 2 ^ (64 - d) * 2 ^ d" using assms by (simp flip: power_add)
  then have "wide a64 a0 = unat a0 + unat a64 * 2 ^ (64 - d) * 2 ^ d" by (simp only: wide_def mult.assoc add.commute)
  then show ?thesis by (simp only: mod_mult_self1)
qed

lemma wide_jam:
  fixes d :: nat
  assumes "0 < d" "d < 64"
  shows "int (wide (drop_bit d a64) (push_bit (64 - d) a64 OR drop_bit d a0 OR of_bool (push_bit (64 - d) a0 \<noteq> 0)))
    = rodd (real (wide a64 a0) / 2 ^ d)"
proof -
  have "push_bit (64 - d) a0 = 0 \<longleftrightarrow> wide a64 a0 mod 2 ^ d = 0"
    using push_bit_eq_0_iff_mod [of "64 - d" a0] assms by (simp add: wide_mod)
  then show ?thesis by (simp only: wide_shift_right [OF assms] rodd_nat_div)
qed

theorem u128_shortShiftRightJam:
  assumes "0 < unat d" "unat d < 64"
  shows "int (u128 (softfloat_shortShiftRightJam128 a64 a0 d)) = rodd (real (wide a64 a0) / 2 ^ unat d)"
  using wide_jam [OF assms, of a64 a0] assms by (simp add: softfloat_shortShiftRightJam128_def u128_def Let_def neg_and_mask6)

lemma wide_div_high: "wide a64 a0 div 2 ^ (64 + k) = unat a64 div 2 ^ k"
  using unat_bound [of a0] unfolding power_add div_mult2_eq by (simp add: wide_def)

lemma wide_mod_high: "wide a64 a0 mod 2 ^ (64 + k) \<noteq> 0 \<longleftrightarrow> unat a64 mod 2 ^ k \<noteq> 0 \<or> a0 \<noteq> 0"
  using unat_bound [of a0] unfolding power_add mod_mult2_eq by (simp add: wide_def unat_eq_0)

theorem u128_shiftRightJam:
  assumes d: "d \<noteq> 0"
  shows "int (u128 (softfloat_shiftRightJam128 a64 a0 d)) = rodd (real (wide a64 a0) / 2 ^ unat d)"
proof (cases "d < 64")
  case True
  then have d': "0 < unat d" "unat d < 64" using d by (simp_all add: word_less_nat_alt unat_gt_0)
  have "ucast (- d) AND 63 = (ucast (- d AND 63) :: u8)" by (simp add: unsigned_and_eq)
  then have "unat (ucast (- d) AND 63 :: u8) = 64 - unat d" using d' neg_and_mask6 [of d] by (simp add: unsigned_ucast_eq take_bit_nat_eq_self)
  then show ?thesis using True wide_jam [OF d', of a64 a0] by (simp add: softfloat_shiftRightJam128_def u128_def Let_def)
next
  case False
  then have d64: "64 \<le> unat d" by (simp add: word_less_nat_alt)
  have w0: "wide 0 x = unat x" for x by (simp add: wide_def)
  show ?thesis
  proof (cases "d < 127")
    case True
    then obtain k where k: "unat d = 64 + k" "k < 63" using d64 by (auto simp: word_less_nat_alt dest!: le_Suc_ex)
    have "unat (d AND 63) = unat d mod 2 ^ 6" using unat_and_mask [of d 6] by (simp add: mask_eq_exp_minus_1)
    then have k': "unat (d AND 63) = k" using k by simp
    have "(a64 AND (push_bit k 1 - 1)) OR a0 \<noteq> 0 \<longleftrightarrow> unat a64 mod 2 ^ k \<noteq> 0 \<or> a0 \<noteq> 0"
      by (simp only: or_eq_0_iff unat_and_mask [symmetric] mask_eq_exp_minus_1 push_bit_eq_mult unat_eq_0) simp
    then show ?thesis using False True wide_div_high [of a64 a0 k] wide_mod_high [of a64 a0 k] unfolding k(1) [symmetric]
      by (simp add: softfloat_shiftRightJam128_def u128_def Let_def k' w0 rodd_nat_div unat_or_bit nat_of_word del: push_bit_of_1)
  next
    case f: False
    then have "127 \<le> unat d" by (simp add: word_less_nat_alt)
    then have "(2 :: nat) ^ 128 \<le> 2 * 2 ^ unat d" using power_increasing [of 128 "Suc (unat d)" "2 :: nat"] by simp
    then have lt: "wide a64 a0 < 2 * 2 ^ unat d" using wide_less [of a64 a0] by linarith
    have z: "wide a64 a0 = 0 \<longleftrightarrow> a64 OR a0 = 0" by (simp add: wide_def or_eq_0_iff unat_eq_0)
    have "rodd (real (wide a64 a0) / 2 ^ unat d) = of_bool (wide a64 a0 \<noteq> 0)"
    proof (cases "wide a64 a0 < 2 ^ unat d")
      case True
      then show ?thesis by (simp add: rodd_nat_div)
    next
      case False
      then have "wide a64 a0 div 2 ^ unat d = 1" "wide a64 a0 \<noteq> 0" using lt by (auto simp: div_nat_eqI)
      then show ?thesis by (simp add: rodd_nat_div or_one_eq)
    qed
    then show ?thesis using False f
      by (simp add: softfloat_shiftRightJam128_def u128_def Let_def w0 unat_of_bool z)
  qed
qed

lemma jam128_rodd:
  assumes "0 < d" "d < 2 ^ 64"
  shows "int (u128 (softfloat_shiftRightJam128 a64 a0 (word_of_int d))) = rodd (real (wide a64 a0) / 2 ^ nat d)"
proof -
  have d: "unat (word_of_int d :: u64) = nat d" using assms by (intro unat_word_of_int) simp_all
  then have "(word_of_int d :: u64) \<noteq> 0" using assms(1) by (intro notI) simp
  then show ?thesis using u128_shiftRightJam [of "word_of_int d" a64 a0] by (simp add: d)
qed

theorem u128_shortShiftLeft:
  assumes d: "unat d < 64" "d = 0 \<Longrightarrow> a0 = 0" and lt: "wide a64 a0 * 2 ^ unat d < 2 ^ 128"
  shows "u128 (softfloat_shortShiftLeft128 a64 a0 d) = wide a64 a0 * 2 ^ unat d"
proof (cases "d = 0")
  case True
  then show ?thesis using d(2) by (simp add: softfloat_shortShiftLeft128_def u128_def wide_def)
next
  case False
  define k where "k = unat d"
  have k: "0 < k" "k < 64" using d(1) False by (simp_all add: k_def unat_gt_0)
  have p: "(2 :: nat) ^ (64 - k) * 2 ^ k = 2 ^ 64" using k by (simp flip: power_add)
  have n: "unat (- d AND 63) = 64 - k" using k neg_and_mask6 [of d] by (simp add: k_def)
  have a: "unat a64 * 2 ^ k < 2 ^ 64"
  proof -
    define m where "m = unat a64 * 2 ^ k"
    have "m * 2 ^ 64 \<le> wide a64 a0 * 2 ^ k" by (simp add: wide_def m_def distrib_right)
    then show ?thesis using lt unfolding k_def [symmetric] m_def [symmetric] by simp
  qed
  have hi: "unat (push_bit k a64) = unat a64 * 2 ^ k" using a by (intro unat_push_bit) simp
  have q: "unat a0 div 2 ^ (64 - k) < 2 ^ k"
    using unat_bound [of a0] p by (intro less_mult_imp_div_less) (simp add: mult.commute)
  have or: "unat (push_bit k a64 OR drop_bit (64 - k) a0) = unat a64 * 2 ^ k + unat a0 div 2 ^ (64 - k)"
    using q unat_or_disjoint [of k "push_bit k a64" "drop_bit (64 - k) a0"] by (simp add: hi nat_of_word)
  have lo: "unat (push_bit k a0) = unat a0 mod 2 ^ (64 - k) * 2 ^ k"
    using unat_push_bit_mod [of "64 - k" a0] k by simp
  have "u128 (softfloat_shortShiftLeft128 a64 a0 d) =
      (unat a64 * 2 ^ k + unat a0 div 2 ^ (64 - k)) * 2 ^ 64 + unat a0 mod 2 ^ (64 - k) * 2 ^ k"
    by (simp only: softfloat_shortShiftLeft128_def u128_def uint128.simps wide_def n k_def [symmetric] or lo)
  also have "\<dots> = wide a64 a0 * 2 ^ k"
  proof -
    have "(m * X + q) * (Y * X) + r * X = (m * (Y * X) + (q * Y + r)) * X" for m q r X Y :: nat by (simp add: algebra_simps)
    from this [of "unat a64" "2 ^ k" "unat a0 div 2 ^ (64 - k)" "2 ^ (64 - k)" "unat a0 mod 2 ^ (64 - k)"]
    show ?thesis unfolding p div_mult_mod_eq by (simp only: wide_def)
  qed
  finally show ?thesis by (simp add: k_def)
qed

end
