(* ===== verification/SF_Div.thy ===== *)
theory SF_Div
  imports SF_Mul
begin

text \<open>
  Division (\<open>source/f32_div.c\<close>, \<open>f64_div.c\<close>). The 32-bit routine divides with 64-bit integers; the
  64-bit routine builds the quotient from two 32-bit digits, each estimated with an
  approximate reciprocal that is at most three units too small, and corrects it only when the
  estimate comes near a rounding boundary. Both quotients are shown to agree with the exact
  one above the rounding bit.
\<close>

text \<open>\<open>softfloat_approxRecip32_1\<close>, with \<open>SOFTFLOAT_FAST_DIV64TO32\<close>.\<close>

definition softfloat_approxRecip32_1 :: "u32 \<Rightarrow> u32" where
  "softfloat_approxRecip32_1 a = ucast ((0x7FFFFFFFFFFFFFFF :: u64) div ucast a)"

text \<open>The quotient of the significands: \<open>f32_div.c\<close> after the exponents are known.\<close>

definition f32_div_sig :: "u64 \<Rightarrow> u64 \<Rightarrow> u64" where
  "f32_div_sig sig64A sigB =
     (let sigZ = sig64A div sigB
      in if sigZ AND 0x3F = 0 then sigZ OR of_bool (sigB * sigZ \<noteq> sig64A) else sigZ)"

text \<open>
  The quotient of the significands in \<open>f64_div.c\<close>: two digits of 32 bits, then the correction.
\<close>

definition f64_div_sig :: "u64 \<Rightarrow> u64 \<Rightarrow> u64" where
  "f64_div_sig sigA sigB =
     (let recip32 = softfloat_approxRecip32_1 (ucast (drop_bit 32 sigB)) - 2;
          sig32Z = ucast (drop_bit 32 (ucast (ucast (drop_bit 32 sigA) :: u32) * ucast recip32 :: u64)) :: u32;
          doubleTerm = push_bit 1 sig32Z;
          rem = push_bit 28 (sigA - ucast doubleTerm * ucast (ucast (drop_bit 32 sigB) :: u32))
                - ucast doubleTerm * ucast (drop_bit 4 (ucast sigB :: u32));
          q = ucast (drop_bit 32 (ucast (ucast (drop_bit 32 rem) :: u32) * ucast recip32 :: u64) + 4) :: u32;
          sigZ = push_bit 32 (ucast sig32Z) + push_bit 4 (ucast q)
      in if sigZ AND 0x1FF < push_bit 4 4 then
           let q = q AND NOT 7;
               sigZ = sigZ AND NOT 0x7F;
               doubleTerm = push_bit 1 q;
               rem = push_bit 28 (rem - ucast doubleTerm * ucast (ucast (drop_bit 32 sigB) :: u32))
                     - ucast doubleTerm * ucast (drop_bit 4 (ucast sigB :: u32))
           in if rem AND 0x8000000000000000 \<noteq> 0 then sigZ - push_bit 7 1
              else if rem \<noteq> 0 then sigZ OR 1
              else sigZ
         else sigZ)"

definition f32_div :: "u32 \<Rightarrow> u32 \<Rightarrow> softfloat_state \<Rightarrow> u32 \<times> softfloat_state" where
  "f32_div a b st =
     (let uiA = ucast a;
          signA = signF32UI uiA;
          expA = expF32UI uiA;
          sigA = fracF32UI uiA;
          uiB = ucast b;
          signB = signF32UI uiB;
          expB = expF32UI uiB;
          sigB = fracF32UI uiB;
          signZ = (signA \<noteq> signB);
          propagateNaN = (case softfloat_propagateNaNF32UI uiA uiB st of (uiZ, st) \<Rightarrow> (ucast uiZ, st));
          invalid = (ucast defaultNaNF32UI, softfloat_raiseFlags softfloat_flag_invalid st);
          infinity = (\<lambda>st. (ucast (packToF32UI signZ 0xFF 0), st));
          zero = (ucast (packToF32UI signZ 0 0), st)
      in if expA = 0xFF then
           if sigA \<noteq> 0 then propagateNaN
           else if expB = 0xFF then (if sigB \<noteq> 0 then propagateNaN else invalid)
           else infinity st
         else if expB = 0xFF then (if sigB \<noteq> 0 then propagateNaN else zero)
         else if expB = 0 \<and> sigB = 0 then
           if word_of_int expA OR sigA = 0 then invalid
           else infinity (softfloat_raiseFlags softfloat_flag_infinite st)
         else
           let (expB, sigB) = (if expB = 0 then softfloat_normSubnormalF32Sig sigB else (expB, sigB))
           in if expA = 0 \<and> sigA = 0 then zero
              else
                let (expA, sigA) = (if expA = 0 then softfloat_normSubnormalF32Sig sigA else (expA, sigA));
                    expZ = expA - expB + 0x7E;
                    sigA = sigA OR 0x00800000;
                    sigB = sigB OR 0x00800000;
                    (expZ, sigA) = (if sigA < sigB then (expZ - 1, push_bit 31 sigA) else (expZ, push_bit 30 sigA));
                    sigZ = f32_div_sig sigA sigB
                in softfloat_roundPackToF32 signZ expZ sigZ st)"

definition f64_div :: "u64 \<Rightarrow> u64 \<Rightarrow> softfloat_state \<Rightarrow> u64 \<times> softfloat_state" where
  "f64_div a b st =
     (let uiA = a;
          signA = signF64UI uiA;
          expA = expF64UI uiA;
          sigA = fracF64UI uiA;
          uiB = b;
          signB = signF64UI uiB;
          expB = expF64UI uiB;
          sigB = fracF64UI uiB;
          signZ = (signA \<noteq> signB);
          propagateNaN = (case softfloat_propagateNaNF64UI uiA uiB st of (uiZ, st) \<Rightarrow> (uiZ, st));
          invalid = (defaultNaNF64UI, softfloat_raiseFlags softfloat_flag_invalid st);
          infinity = (\<lambda>st. ((packToF64UI signZ 0x7FF 0), st));
          zero = ((packToF64UI signZ 0 0), st)
      in if expA = 0x7FF then
           if sigA \<noteq> 0 then propagateNaN
           else if expB = 0x7FF then (if sigB \<noteq> 0 then propagateNaN else invalid)
           else infinity st
         else if expB = 0x7FF then (if sigB \<noteq> 0 then propagateNaN else zero)
         else if expB = 0 \<and> sigB = 0 then
           if word_of_int expA OR sigA = 0 then invalid
           else infinity (softfloat_raiseFlags softfloat_flag_infinite st)
         else
           let (expB, sigB) = (if expB = 0 then softfloat_normSubnormalF64Sig sigB else (expB, sigB))
           in if expA = 0 \<and> sigA = 0 then zero
              else
                let (expA, sigA) = (if expA = 0 then softfloat_normSubnormalF64Sig sigA else (expA, sigA));
                    expZ = expA - expB + 0x3FE;
                    sigA = sigA OR 0x0010000000000000;
                    sigB = sigB OR 0x0010000000000000;
                    (expZ, sigA) = (if sigA < sigB then (expZ - 1, push_bit 11 sigA) else (expZ, push_bit 10 sigA));
                    sigZ = f64_div_sig sigA (push_bit 11 sigB)
                in softfloat_roundPackToF64 signZ expZ sigZ st)"

subsection \<open>Quotients of significands\<close>

text \<open>A quotient truncated, with a sticky bit that is set only when the last \<open>j\<close> bits are clear.\<close>

lemma agree_quotient:
  fixes N B :: nat
  assumes "0 < B" "0 < j"
  defines "q \<equiv> N div B"
  shows "agree j (real (if q mod 2 ^ j = 0 \<and> B * q \<noteq> N then q + 1 else q)) (real N / real B)"
proof -
  define z where "z = (if q mod 2 ^ j = 0 \<and> B * q \<noteq> N then q + 1 else q)"
  have fl: "\<lfloor>real N / real B\<rfloor> = int q" by (simp add: q_def floor_divide_of_nat_eq)
  have "real N / real B = real q \<longleftrightarrow> B * q = N"
    using assms(1) by (simp add: divide_eq_eq mult.commute) (metis of_nat_eq_iff of_nat_mult)
  then have int: "real N / real B \<in> \<int> \<longleftrightarrow> B * q = N"
    using fl by (metis Ints_of_nat floor_of_int Ints_cases of_int_of_nat_eq)
  have two: "2 \<le> (2 :: nat) ^ j" using power_increasing [of 1 j "2 :: nat"] assms(2) by simp
  have dz: "z div 2 ^ j = q div 2 ^ j"
  proof (cases "q mod 2 ^ j = 0 \<and> B * q \<noteq> N")
    case True
    then obtain c where "q = 2 ^ j * c" by auto
    moreover have "(2 ^ j * c + 1) div 2 ^ j = c" using two by (intro div_nat_eqI) simp_all
    ultimately show ?thesis using True two by (simp add: z_def)
  qed (auto simp: z_def)
  have mz: "z mod 2 ^ j = 0 \<longleftrightarrow> q mod 2 ^ j = 0 \<and> B * q = N"
  proof (cases "q mod 2 ^ j = 0 \<and> B * q \<noteq> N")
    case True
    then show ?thesis using two by (simp add: z_def mod_Suc)
  qed (auto simp: z_def)
  have "\<lfloor>real z / 2 ^ j\<rfloor> = int (z div 2 ^ j)" using floor_divide_of_nat_eq [of z "2 ^ j", where 'a = real] by simp
  moreover have "\<lfloor>real N / real B / 2 ^ j\<rfloor> = int (q div 2 ^ j)"
    unfolding floor_div_pow2 fl by (simp add: zdiv_int)
  moreover have "real N / real B / 2 ^ j \<in> \<int> \<longleftrightarrow> B * q = N \<and> q mod 2 ^ j = 0"
    unfolding Ints_div_pow2_iff fl int by (metis dvd_eq_mod_eq_0 of_nat_dvd_iff of_nat_numeral of_nat_power)
  ultimately show ?thesis unfolding z_def [symmetric] agree_def by (auto simp: dz mz Ints_nat_div_pow2)
qed

lemma f32_div_sig_agree:
  assumes B: "unat sigB = B" "0 < B" and N: "unat sig64A = N"
  shows "agree 6 (real (unat (f32_div_sig sig64A sigB))) (real N / real B)"
proof -
  define q where "q = N div B"
  have q: "unat (sig64A div sigB) = q" by (simp add: q_def unat_div B N)
  have m: "(0x3F :: u64) = mask 6" by (simp add: mask_eq_exp_minus_1)
  have z: "(sig64A div sigB) AND 0x3F = 0 \<longleftrightarrow> q mod 2 ^ 6 = 0"
    by (simp only: m unat_eq_0 [symmetric] unat_and_mask q)
  have "B * q \<le> N" by (simp add: q_def)
  then have "B * q < 2 ^ 64" using unat_bound [of sig64A] N by simp
  then have "unat (sigB * (sig64A div sigB)) = B * q" using unat_times [of sigB "sig64A div sigB"] by (simp only: q B) simp
  then have ne: "sigB * (sig64A div sigB) \<noteq> sig64A \<longleftrightarrow> B * q \<noteq> N" by (simp only: word_unat_eq_iff N)
  have or1: "q OR 1 = q + 1" if "q mod 2 ^ 6 = 0"
  proof -
    have "even q" using that mod_mod_pow2 [of 1 6 q] by simp presburger
    then show ?thesis using or_one_eq [of q] by (simp only: of_bool_eq)
  qed
  have "unat (f32_div_sig sig64A sigB) = (if q mod 2 ^ 6 = 0 \<and> B * q \<noteq> N then q + 1 else q)"
    unfolding f32_div_sig_def Let_def z ne
    using or1 unat_or_1 [of "sig64A div sigB"] by (auto simp: q)
  then show ?thesis using agree_quotient [of B 6 N] B by (simp only: q_def)
qed

text \<open>
  One digit of the 64-bit quotient: the product with the reciprocal is below the digit by less
  than five units.
\<close>

definition recip_minus_2 :: "nat \<Rightarrow> nat" where
  "recip_minus_2 b1 = (2 ^ 63 - 1) div b1 - 2"

lemma recip_bounds:
  assumes "2 ^ 31 \<le> b1" "b1 < 2 ^ 32"
  shows "(2 ^ 63 - 1) div b1 < 2 ^ 32" "2 \<le> (2 ^ 63 - 1) div b1"
    "recip_minus_2 b1 * (b1 + 1) < 2 ^ 63" "2 ^ 63 \<le> recip_minus_2 b1 * b1 + 3 * b1" "0 < recip_minus_2 b1"
proof -
  define d where "d = (2 ^ 63 - 1) div b1"
  have b1: "0 < b1" using assms(1) by simp
  have lo: "d * b1 \<le> 2 ^ 63 - 1" by (simp add: d_def)
  have hi: "2 ^ 63 - 1 < (d + 1) * b1" unfolding d_def using b1 dividend_less_div_times [of b1 "2 ^ 63 - 1"] by (simp add: algebra_simps)
  have "d * 2 ^ 31 \<le> d * b1" using assms(1) by (rule mult_left_mono) simp
  then have "d * 2 ^ 31 \<le> 2 ^ 63 - 1" using lo by (rule le_trans)
  then have d1: "d < 2 ^ 32" by simp
  have "(d + 1) * b1 \<le> (d + 1) * 2 ^ 32" using assms(2) by (intro mult_left_mono) simp_all
  then have d2: "2 ^ 31 - 1 \<le> d" using hi by simp
  show "(2 ^ 63 - 1) div b1 < 2 ^ 32" "2 \<le> (2 ^ 63 - 1) div b1" "0 < recip_minus_2 b1"
    unfolding recip_minus_2_def d_def [symmetric] using d1 d2 by simp_all
  obtain R where R: "d = R + 2" using d2 by (intro that [of "d - 2"]) simp
  have "recip_minus_2 b1 = R" by (simp only: recip_minus_2_def d_def [symmetric]) (simp add: R)
  moreover have "R * (b1 + 1) < 2 ^ 63" using lo d1 assms(1) by (simp add: R algebra_simps)
  moreover have "2 ^ 63 \<le> R * b1 + 3 * b1" using hi by (simp add: R algebra_simps)
  ultimately show "recip_minus_2 b1 * (b1 + 1) < 2 ^ 63" "2 ^ 63 \<le> recip_minus_2 b1 * b1 + 3 * b1" by simp_all
qed

lemma div_digit:
  fixes B x :: nat
  assumes B: "2 ^ 63 \<le> B" "B < 2 ^ 64" and x: "0 < x" "x < 2 ^ 64"
  defines "R \<equiv> recip_minus_2 (B div 2 ^ 32)" 
  defines "d \<equiv> x div 2 ^ 32 * R div 2 ^ 32"
  shows "d * B < 2 ^ 31 * x" "2 ^ 31 * x < (d + 5) * B"
proof -
  define b1 x1 where "b1 = B div 2 ^ 32" and "x1 = x div 2 ^ 32"
  have b1: "2 ^ 31 \<le> b1" "b1 < 2 ^ 32" using B by (simp_all add: b1_def less_mult_imp_div_less less_eq_div_iff_mult_less_eq)
  note R = recip_bounds [OF b1, folded R_def [folded b1_def]]
  have Bb: "b1 * 2 ^ 32 \<le> B" "B < (b1 + 1) * 2 ^ 32"
    using dividend_less_div_times [of "2 ^ 32" B] by (simp_all add: b1_def algebra_simps)
  have xb: "x1 * 2 ^ 32 \<le> x" "x < (x1 + 1) * 2 ^ 32" "x1 < 2 ^ 32"
    using dividend_less_div_times [of "2 ^ 32" x] x(2) by (simp_all add: x1_def algebra_simps less_mult_imp_div_less)
  have db: "d * 2 ^ 32 \<le> x1 * R" "x1 * R < (d + 1) * 2 ^ 32"
    using dividend_less_div_times [of "2 ^ 32" "x1 * R"] by (simp_all add: d_def x1_def algebra_simps)
  have "d * 2 ^ 32 * 2 ^ 32 \<le> x1 * R * 2 ^ 32" using db(1) by (rule mult_right_mono) simp
  also have "\<dots> \<le> x * R" using mult_right_mono [OF xb(1), of R] by (simp add: mult_ac)
  finally have dR: "d * 2 ^ 64 \<le> x * R" by simp
  have "R * B < R * ((b1 + 1) * 2 ^ 32)" using Bb(2) R(5) by simp
  also have "\<dots> \<le> 2 ^ 63 * 2 ^ 32" using mult_right_mono [OF less_imp_le [OF R(3)], of "2 ^ 32"] by (simp only: mult.assoc)
  finally have RB: "R * B < 2 ^ 95" by simp
  have "d * B * 2 ^ 64 \<le> x * (R * B)" using mult_right_mono [OF dR, of B] by (simp add: mult_ac)
  also have "\<dots> < x * 2 ^ 95" using x(1) RB by simp
  finally show "d * B < 2 ^ 31 * x" by (simp add: mult.commute)
  have "x1 * 2 ^ 63 \<le> x1 * (R * b1 + 3 * b1)" using R(4) by (rule mult_left_mono) simp
  also have "\<dots> = x1 * R * b1 + x1 * (3 * b1)" by (simp add: algebra_simps)
  also have "\<dots> \<le> (d + 1) * 2 ^ 32 * b1 + 2 ^ 32 * (3 * b1)"
    using db(2) xb(3) by (intro add_mono mult_right_mono) simp_all
  also have "\<dots> = (d + 4) * b1 * 2 ^ 32" by (simp add: algebra_simps)
  finally have "x1 * 2 ^ 31 \<le> (d + 4) * b1" by (simp add: mult.commute)
  then have "(x1 + 1) * 2 ^ 31 \<le> (d + 5) * b1" using b1(1) by (simp add: algebra_simps)
  then have "(x1 + 1) * 2 ^ 31 * 2 ^ 32 \<le> (d + 5) * b1 * 2 ^ 32" by (rule mult_right_mono) simp
  moreover have "(d + 5) * (b1 * 2 ^ 32) \<le> (d + 5) * B" using Bb(1) by (rule mult_left_mono) simp
  ultimately have "(x1 + 1) * 2 ^ 31 * 2 ^ 32 \<le> (d + 5) * B" by (simp only: mult.assoc)
  moreover have "2 ^ 31 * x < 2 ^ 31 * ((x1 + 1) * 2 ^ 32)" using xb(2) by (rule mult_strict_left_mono) simp
  ultimately show "2 ^ 31 * x < (d + 5) * B" by (simp only: mult_ac)
qed

text \<open>
  The two digits \<open>q1\<close> and \<open>q\<close> together, and the correction near a multiple of \<open>2 ^ 9\<close>; \<open>v\<close> has the
  sign of the exact quotient minus its estimate.
\<close>

lemma div_two_digits:
  fixes A B q1 r q0 :: nat
  assumes A: "2 ^ 31 * A = q1 * B + 8 * r" and q0: "q0 * B < 2 ^ 31 * r" "2 ^ 31 * r < (q0 + 5) * B"
  defines "z0 \<equiv> q1 * 2 ^ 32 + 16 * (q0 + 4)" and "X \<equiv> real A * 2 ^ 63 / real B"
  defines "q \<equiv> q0 + 4 - (q0 + 4) mod 8" and "M \<equiv> z0 - z0 mod 128"
  defines "v \<equiv> 2 ^ 31 * int r - int q * int B"
  shows "64 \<le> z0 mod 512 \<Longrightarrow> agree 9 (real z0) X"
    and "z0 mod 512 < 64 \<Longrightarrow> \<bar>v\<bar> < 4 * int B \<and> 512 dvd M \<and> (v < 0 \<longrightarrow> 128 \<le> M)"
    and "z0 mod 512 < 64 \<Longrightarrow> agree 9 (real (if v < 0 then M - 128 else if v \<noteq> 0 then M + 1 else M)) X"
proof -
  have B: "0 < real B" using q0 by (cases "B = 0") simp_all
  define w where "w = 2 ^ 31 * real r / real B"
  have "real (2 ^ 31 * A) = real (q1 * B + 8 * r)" by (simp only: A)
  then have "real A * 2 ^ 63 = (real q1 * 2 ^ 32 + 16 * w) * real B" using B by (simp add: w_def distrib_right)
  then have X: "X = real q1 * 2 ^ 32 + 16 * w" using B by (simp add: X_def)
  have "real (q0 * B) < real (2 ^ 31 * r)" "real (2 ^ 31 * r) < real ((q0 + 5) * B)"
    using q0 by (simp_all only: of_nat_less_iff)
  then have w: "real q0 < w" "w < real q0 + 5" using B by (simp_all add: w_def pos_less_divide_eq pos_divide_less_eq)
  have z0: "real z0 = real q1 * 2 ^ 32 + 16 * (real q0 + 4)" by (simp add: z0_def)
  have Xz: "real z0 - 64 < X" "X < real z0 + 16" using w by (simp_all add: X z0)
  define k l where "k = z0 div 512" and "l = z0 mod 512"
  have kl: "z0 = 512 * k + l" "l < 512" by (simp_all add: k_def l_def)
  have z16: "z0 = 16 * (q1 * 2 ^ 28 + (q0 + 4))" by (simp add: z0_def)
  have "l mod 16 = z0 mod 16" unfolding l_def by (rule mod_mod_cancel) simp
  also have "\<dots> = 0" unfolding z16 by simp
  finally obtain c where c: "l = 16 * c" by auto
  show "64 \<le> z0 mod 512 \<Longrightarrow> agree 9 (real z0) X"
  proof (rule agree_between [of "int k"])
    assume "64 \<le> z0 mod 512"
    then have "64 \<le> real l" by (simp add: l_def)
    moreover have "real l \<le> 496" using c kl(2) by simp
    moreover have "real z0 = 512 * real k + real l" by (simp add: kl(1))
    ultimately show "of_int (int k) * 2 ^ 9 < real z0" "real z0 < of_int (int k + 1) * 2 ^ 9"
      "of_int (int k) * 2 ^ 9 < X" "X < of_int (int k + 1) * 2 ^ 9" using Xz by simp_all
  qed
  assume small: "z0 mod 512 < 64"
  have l: "l \<le> 48" using small c by (simp add: l_def [symmetric])
  have "z0 mod 128 = l mod 128" unfolding l_def by (rule mod_mod_cancel [symmetric]) simp
  then have M: "M = 512 * k" using kl l by (simp add: M_def)
  have "l mod 128 = 16 * ((q0 + 4) mod 8)"
    using \<open>z0 mod 128 = l mod 128\<close> mult_mod_right [of 16 "q1 * 2 ^ 28 + (q0 + 4)" 8] mod_mult_self3 [of "q1 * 2 ^ 25" 8 "q0 + 4"]
    unfolding z16 by (simp add: mult.commute)
  then have lq: "l = 16 * ((q0 + 4) mod 8)" using l by simp
  then have q: "16 * q + l = 16 * (q0 + 4)" unfolding q_def by simp
  then have "real (16 * q + l) = real (16 * (q0 + 4))" by (simp only:)
  then have qr: "16 * real q + real l = 16 * (real q0 + 4)" by simp
  have "real z0 = real M + real l" by (simp add: kl(1) M)
  then have M2: "real M = real q1 * 2 ^ 32 + 16 * real q" using z0 qr by linarith
  have rv: "real_of_int v = (w - real q) * real B" using B by (simp add: v_def w_def left_diff_distrib)
  have XM: "X - real M = 16 * (w - real q)" by (simp add: X M2)
  have "0 \<le> real l" "real l \<le> 48" using l by simp_all
  then have wq: "w - real q < 4" "- 4 < w - real q" using w qr by simp_all
  have vB: "\<bar>v\<bar> < 4 * int B"
  proof -
    have "\<bar>real_of_int v\<bar> = \<bar>w - real q\<bar> * real B" unfolding rv using B by (simp add: abs_mult)
    also have "\<dots> < 4 * real B" using wq B by (intro mult_strict_right_mono) linarith+
    finally have "real_of_int \<bar>v\<bar> < real_of_int (4 * int B)" by simp
    then show ?thesis unfolding of_int_less_iff .
  qed
  have sgn: "v < 0 \<longleftrightarrow> X < real M" "v = 0 \<longleftrightarrow> X = real M"
  proof -
    have "real_of_int v < 0 \<longleftrightarrow> w - real q < 0" "real_of_int v = 0 \<longleftrightarrow> w - real q = 0"
      unfolding rv using B by (simp_all add: mult_less_0_iff)
    then show "v < 0 \<longleftrightarrow> X < real M" "v = 0 \<longleftrightarrow> X = real M" using XM by auto
  qed
  have Mk: "real M = 512 * real k" by (simp add: M)
  have k1: "1 \<le> k" if "v < 0"
  proof -
    have "0 \<le> X" by (simp add: X_def)
    then show ?thesis using that sgn Mk by (cases k) simp_all
  qed
  then show "\<bar>v\<bar> < 4 * int B \<and> 512 dvd M \<and> (v < 0 \<longrightarrow> 128 \<le> M)" using vB by (auto simp: M)
  consider "v < 0" | "v = 0" | "0 < v" by linarith
  then show "agree 9 (real (if v < 0 then M - 128 else if v \<noteq> 0 then M + 1 else M)) X"
  proof cases
    case 1
    then have "real (M - 128) = 512 * real k - 128" using k1 by (simp add: M of_nat_diff)
    then have "agree 9 (real (M - 128)) X"
      using 1 sgn XM wq Mk by (intro agree_between [of "int k - 1"]) simp_all
    then show ?thesis using 1 by simp
  next
    case 2
    then show ?thesis using sgn by simp
  next
    case 3
    then have "agree 9 (real (M + 1)) X"
      using sgn XM wq Mk by (intro agree_between [of "int k"]) simp_all
    then show ?thesis using 3 by simp
  qed
qed

text \<open>Partial remainders as words: computed modulo \<open>2 ^ 64\<close> from the two halves of the divisor.\<close>

lemma div64_rem_word:
  fixes x t sigB :: u64
  assumes "unat sigB = B" "16 dvd B"
  shows "push_bit 28 (x - t * ucast (ucast (drop_bit 32 sigB) :: u32)) - t * ucast (drop_bit 4 (ucast sigB :: u32))
         = word_of_int (2 ^ 28 * uint x - uint t * int (B div 16))"
proof -
  define h l where "h = B div 2 ^ 32" and "l = B mod 2 ^ 32"
  have "B < 2 ^ 64" using unat_bound [of sigB] assms(1) by simp
  then have hl: "h < 2 ^ 32" "l < 2 ^ 32" by (simp_all add: h_def l_def less_mult_imp_div_less)
  have "B = h * 2 ^ 32 + l" by (simp add: h_def l_def)
  moreover obtain b where b: "B = 16 * b" using assms(2) by auto
  ultimately have "16 * (b - h * 2 ^ 28) = l" by simp
  then have B: "B div 16 = 2 ^ 28 * h + l div 16" using b \<open>B = h * 2 ^ 32 + l\<close> by auto
  have "unat (ucast (ucast (drop_bit 32 sigB) :: u32) :: u64) = h"
    using hl by (simp add: unat_ucast_up unat_ucast_mod nat_of_word assms(1) h_def)
  then have H: "ucast (ucast (drop_bit 32 sigB) :: u32) = (word_of_int (int h) :: u64)"
    by (metis word_of_int_uint uint_nat)
  have "unat (ucast (drop_bit 4 (ucast sigB :: u32)) :: u64) = l div 16"
    by (simp add: unat_ucast_up unat_ucast_mod nat_of_word assms(1) l_def)
  then have L: "ucast (drop_bit 4 (ucast sigB :: u32)) = (word_of_int (int (l div 16)) :: u64)"
    by (metis word_of_int_uint uint_nat)
  have "push_bit 28 (x - t * word_of_int (int h)) - t * word_of_int (int (l div 16))
        = word_of_int ((uint x - uint t * int h) * 2 ^ 28 - uint t * int (l div 16))"
    by (simp only: push_bit_eq_mult of_int_mult of_int_diff of_int_power of_int_numeral word_of_int_uint)
  also have "(uint x - uint t * int h) * 2 ^ 28 - uint t * int (l div 16) = 2 ^ 28 * uint x - uint t * int (B div 16)"
    unfolding B by (simp add: algebra_simps)
  finally show ?thesis by (simp only: H L)
qed

lemma word_sign_bit:
  assumes "- (2 ^ 63) \<le> v" "v < 2 ^ 63"
  shows "(word_of_int v :: u64) AND 0x8000000000000000 \<noteq> 0 \<longleftrightarrow> v < 0"
    and "(word_of_int v :: u64) = 0 \<longleftrightarrow> v = 0"
proof -
  have s: "sint (word_of_int v :: u64) = v" using assms by (rule sint_word_of_int64)
  then show "(word_of_int v :: u64) = 0 \<longleftrightarrow> v = 0" by (metis of_int_0 signed_0)
  have e: "(0x8000000000000000 :: u64) = 2 ^ 63" by simp
  have "(word_of_int v :: u64) AND 0x8000000000000000 \<noteq> 0 \<longleftrightarrow> bit (word_of_int v :: u64) 63"
    unfolding e by (simp only: and_exp_eq_0_iff_not_bit simp_thms)
  also have "\<dots> \<longleftrightarrow> odd (v div 2 ^ 63)" by (simp add: bit_word_of_int_iff) (simp add: bit_iff_odd)
  also have "\<dots> \<longleftrightarrow> v < 0"
  proof (cases "v < 0")
    case True
    then have "v div 2 ^ 63 = - 1" using assms by (intro int_div_pos_eq [of _ _ _ "v + 2 ^ 63"]) simp_all
    then show ?thesis using True by simp
  next
    case False
    then have "v div 2 ^ 63 = 0" using assms by (intro div_pos_pos_trivial) simp_all
    then show ?thesis using False by simp
  qed
  finally show "(word_of_int v :: u64) AND 0x8000000000000000 \<noteq> 0 \<longleftrightarrow> v < 0" .
qed

lemma f64_div_recip:
  fixes sigB :: u64
  assumes "unat sigB = B" "2 ^ 63 \<le> B"
  shows "unat (softfloat_approxRecip32_1 (ucast (drop_bit 32 sigB)) - 2) = recip_minus_2 (B div 2 ^ 32)"
proof -
  define b1 where "b1 = B div 2 ^ 32"
  have "B < 2 ^ 64" using unat_bound [of sigB] assms(1) by simp
  then have b1: "2 ^ 31 \<le> b1" "b1 < 2 ^ 32" using assms(2) by (simp_all add: b1_def less_mult_imp_div_less less_eq_div_iff_mult_less_eq)
  note R = recip_bounds [OF b1]
  have "unat (ucast (ucast (drop_bit 32 sigB) :: u32) :: u64) = b1"
    using b1 by (simp add: unat_ucast_up unat_ucast_mod nat_of_word assms(1) b1_def)
  then have "unat ((0x7FFFFFFFFFFFFFFF :: u64) div ucast (ucast (drop_bit 32 sigB) :: u32)) = (2 ^ 63 - 1) div b1"
    by (simp add: unat_div)
  then have "unat (softfloat_approxRecip32_1 (ucast (drop_bit 32 sigB))) = (2 ^ 63 - 1) div b1"
    using R(1) by (simp only: softfloat_approxRecip32_1_def unat_ucast_mod) simp
  then show ?thesis unfolding b1_def [symmetric] recip_minus_2_def using R(2) by (simp add: unat_minus)
qed

lemma f64_div_digit_word:
  fixes x :: u64 and r32 :: u32
  assumes "unat x = n" "unat r32 = R"
  shows "unat (drop_bit 32 (ucast (ucast (drop_bit 32 x) :: u32) * ucast r32 :: u64)) = n div 2 ^ 32 * R div 2 ^ 32"
proof -
  have "n < 2 ^ 64" "R < 2 ^ 32" using unat_bound [of x] unat_bound [of r32] assms by simp_all
  then have n: "n div 2 ^ 32 < 2 ^ 32" by (simp add: less_mult_imp_div_less)
  then have u: "unat (ucast (ucast (drop_bit 32 x) :: u32) :: u64) = n div 2 ^ 32"
    by (simp add: unat_ucast_up unat_ucast_mod nat_of_word assms(1))
  have "n div 2 ^ 32 * R < 2 ^ 32 * 2 ^ 32" using n \<open>R < 2 ^ 32\<close> by (rule mult_strict_mono') simp_all
  moreover have "unat (ucast r32 :: u64) = R" by (simp add: unat_ucast_up assms(2))
  ultimately have "unat (ucast (ucast (drop_bit 32 x) :: u32) * ucast r32 :: u64) = n div 2 ^ 32 * R"
    using u by (subst unat_times) simp_all
  then show ?thesis by (simp only: nat_of_word)
qed

text \<open>The words of \<open>f64_div_sig\<close>, read as numbers.\<close>

lemma f64_div_words:
  fixes sigA sigB :: u64
  assumes B: "unat sigB = B" "2 ^ 63 \<le> B" "2 ^ 11 dvd B" and A: "unat sigA = A" "B \<le> 2 * A" "A < B"
  defines "recip32 \<equiv> softfloat_approxRecip32_1 (ucast (drop_bit 32 sigB)) - 2"
  defines "sig32Z \<equiv> ucast (drop_bit 32 (ucast (ucast (drop_bit 32 sigA) :: u32) * ucast recip32 :: u64)) :: u32"
  defines "dt \<equiv> push_bit 1 sig32Z"
  defines "rem \<equiv> push_bit 28 (sigA - ucast dt * ucast (ucast (drop_bit 32 sigB) :: u32))
                - ucast dt * ucast (drop_bit 4 (ucast sigB :: u32))"
  defines "q \<equiv> ucast (drop_bit 32 (ucast (ucast (drop_bit 32 rem) :: u32) * ucast recip32 :: u64) + 4) :: u32"
  obtains q1 r q0 where "unat sig32Z = q1" "unat rem = r" "unat q = q0 + 4"
    "2 ^ 31 * A = q1 * B + 8 * r" "q0 * B < 2 ^ 31 * r" "2 ^ 31 * r < (q0 + 5) * B" "q1 < 2 ^ 31" "q0 + 4 < 2 ^ 31"
proof -
  define R where "R = recip_minus_2 (B div 2 ^ 32)"
  define q1 where "q1 = A div 2 ^ 32 * R div 2 ^ 32"
  have B64: "B < 2 ^ 64" using unat_bound [of sigB] B(1) by simp
  have R: "unat recip32 = R" unfolding recip32_def R_def using B(1,2) by (rule f64_div_recip)
  have A0: "0 < A" "A < 2 ^ 64" using A B(2) B64 by simp_all
  have d1: "q1 * B < 2 ^ 31 * A" "2 ^ 31 * A < (q1 + 5) * B"
    unfolding q1_def R_def by (rule div_digit [OF B(2) B64 A0])+
  have "2 ^ 31 * A < 2 ^ 31 * B" using A(3) by simp
  then have "q1 * B < 2 ^ 31 * B" using d1(1) by (rule less_trans [rotated])
  then have q1: "q1 < 2 ^ 31" by simp
  have uz: "unat sig32Z = q1"
    using q1 unfolding sig32Z_def unat_ucast_mod f64_div_digit_word [OF A(1) R] q1_def [symmetric] by simp
  have "unat dt = q1 * 2 ^ 1" unfolding dt_def uz [symmetric] using q1 uz by (intro unat_push_bit) simp
  then have dt: "uint (ucast dt :: u64) = int (2 * q1)" unfolding uint_nat by (simp add: unat_ucast_up)
  obtain b where b: "B = 2 ^ 11 * b" using B(3) by auto
  define r where "r = (2 ^ 31 * A - q1 * B) div 8"
  have "2 ^ 31 * A - q1 * B = 8 * (2 ^ 28 * A - 2 ^ 8 * q1 * b)" by (simp add: b algebra_simps)
  then have r8: "2 ^ 31 * A - q1 * B = 8 * r" by (simp add: r_def)
  then have r: "2 ^ 31 * A = q1 * B + 8 * r" using d1(1) by simp
  have r0: "0 < r" "8 * r < 5 * B" using d1 r by (simp_all add: algebra_simps)
  have "rem = word_of_int (2 ^ 28 * uint sigA - uint (ucast dt :: u64) * int (B div 16))"
    unfolding rem_def by (rule div64_rem_word) (simp_all add: B b)
  also have "2 ^ 28 * uint sigA - uint (ucast dt :: u64) * int (B div 16) = int r"
  proof -
    have "8 * (2 ^ 28 * int A - int (2 * q1) * int (B div 16)) = int (2 ^ 31 * A) - int (q1 * B)" by (simp add: b)
    also have "\<dots> = 8 * int r" unfolding r by simp
    finally show ?thesis unfolding dt uint_nat [of sigA] A(1) by simp
  qed
  finally have ur: "unat rem = r" using r0 B64 by (simp add: unat_of_nat)
  define q0 where "q0 = r div 2 ^ 32 * R div 2 ^ 32"
  have "r < 2 ^ 64" using r0 B64 by simp
  then have d0: "q0 * B < 2 ^ 31 * r" "2 ^ 31 * r < (q0 + 5) * B"
    unfolding q0_def R_def by (rule div_digit [OF B(2) B64 r0(1)])+
  have "8 * (q0 * B) < 2 ^ 31 * (8 * r)" using d0(1) by (simp add: mult.commute)
  also have "\<dots> < 2 ^ 31 * (5 * B)" using r0(2) by (rule mult_strict_left_mono) simp
  finally have "8 * (q0 * B) < 2 ^ 31 * (5 * B)" .
  then have "8 * q0 * B < 2 ^ 31 * 5 * B" by (simp only: mult.assoc)
  then have q0: "8 * q0 < 2 ^ 31 * 5" by simp
  have "unat (drop_bit 32 (ucast (ucast (drop_bit 32 rem) :: u32) * ucast recip32 :: u64)) = q0"
    unfolding f64_div_digit_word [OF ur R] q0_def ..
  then have "unat q = q0 + 4"
    using q0 unfolding q_def unat_ucast_mod by (subst unat_plus) simp_all
  then show thesis using uz ur r d0 q1 q0 by (intro that [of q1 r q0]) simp_all
qed

lemma f64_div_sig_agree:
  fixes sigA sigB :: u64
  assumes B: "unat sigB = B" "2 ^ 63 \<le> B" "2 ^ 11 dvd B" and A: "unat sigA = A" "B \<le> 2 * A" "A < B"
  shows "agree 9 (real (unat (f64_div_sig sigA sigB))) (real A * 2 ^ 63 / real B)"
proof -
  define recip32 where "recip32 = softfloat_approxRecip32_1 (ucast (drop_bit 32 sigB)) - 2"
  define sig32Z where "sig32Z = (ucast (drop_bit 32 (ucast (ucast (drop_bit 32 sigA) :: u32) * ucast recip32 :: u64)) :: u32)"
  define rem where "rem = push_bit 28 (sigA - ucast (push_bit 1 sig32Z) * ucast (ucast (drop_bit 32 sigB) :: u32))
                - ucast (push_bit 1 sig32Z) * ucast (drop_bit 4 (ucast sigB :: u32))"
  define q where "q = (ucast (drop_bit 32 (ucast (ucast (drop_bit 32 rem) :: u32) * ucast recip32 :: u64) + 4) :: u32)"
  obtain q1 r q0 where u: "unat sig32Z = q1" "unat rem = r" "unat q = q0 + 4"
    and d: "2 ^ 31 * A = q1 * B + 8 * r" "q0 * B < 2 ^ 31 * r" "2 ^ 31 * r < (q0 + 5) * B"
    and lt: "q1 < 2 ^ 31" "q0 + 4 < 2 ^ 31"
    using f64_div_words [OF B A] unfolding q_def rem_def sig32Z_def recip32_def .
  let ?X = "real A * 2 ^ 63 / real B"
  let ?z = "push_bit 32 (ucast sig32Z) + push_bit 4 (ucast q) :: u64"
  define z0 where "z0 = q1 * 2 ^ 32 + 16 * (q0 + 4)"
  note two = div_two_digits [OF d, folded z0_def]
  have "unat (push_bit 32 (ucast sig32Z :: u64)) = q1 * 2 ^ 32"
    using lt(1) by (subst unat_push_bit) (simp_all add: unat_ucast_up u)
  moreover have "unat (push_bit 4 (ucast q :: u64)) = (q0 + 4) * 2 ^ 4"
    using lt(2) by (subst unat_push_bit) (simp_all add: unat_ucast_up u)
  ultimately have z: "unat ?z = z0" using lt by (subst unat_plus) (simp_all add: z0_def)
  have mask: "(0x1FF :: u64) = mask 9" "(0x7F :: u64) = mask 7" "(7 :: u32) = mask 3" by (simp_all add: mask_eq_exp_minus_1)
  have "unat (?z AND 0x1FF) = z0 mod 512" by (simp only: mask unat_and_mask z) simp
  then have c: "?z AND 0x1FF < push_bit 4 4 \<longleftrightarrow> z0 mod 512 < 64" by (simp add: word_less_nat_alt)
  show ?thesis
  proof (cases "z0 mod 512 < 64")
    case False
    then have "f64_div_sig sigA sigB = ?z"
      using c unfolding f64_div_sig_def Let_def recip32_def [symmetric] sig32Z_def [symmetric] rem_def [symmetric] q_def [symmetric]
      by (simp only: if_False)
    then show ?thesis using two(1) False z by simp
  next
    case True
    define q' where "q' = q0 + 4 - (q0 + 4) mod 8"
    define M where "M = z0 - z0 mod 128"
    define v where "v = 2 ^ 31 * int r - int q' * int B"
    have v: "\<bar>v\<bar> < 4 * int B" "512 dvd M" "v < 0 \<Longrightarrow> 128 \<le> M"
      and ag: "agree 9 (real (if v < 0 then M - 128 else if v \<noteq> 0 then M + 1 else M)) ?X"
      using two(2,3) [OF True] unfolding v_def M_def q'_def by blast+
    define q2 z2 where "q2 = q AND NOT 7" and "z2 = ?z AND NOT 0x7F"
    define rem2 where "rem2 = push_bit 28 (rem - ucast (push_bit 1 q2) * ucast (ucast (drop_bit 32 sigB) :: u32))
                       - ucast (push_bit 1 q2) * ucast (drop_bit 4 (ucast sigB :: u32))"
    have q2: "unat q2 = q'" unfolding q2_def mask unat_and_not_mask u q'_def by simp
    have z2: "unat z2 = M" unfolding z2_def mask unat_and_not_mask z M_def by simp
    have "q' < 2 ^ 31" using lt(2) unfolding q'_def by linarith
    then have "unat (push_bit 1 q2) = q' * 2 ^ 1" unfolding q2 [symmetric] by (intro unat_push_bit) simp
    then have dt: "uint (ucast (push_bit 1 q2) :: u64) = int (2 * q')" unfolding uint_nat by (simp add: unat_ucast_up)
    obtain b where b: "B = 2 ^ 11 * b" using B(3) by auto
    define v' where "v' = 2 ^ 28 * int r - int (2 * q') * int (B div 16)"
    have vv: "v = 8 * v'" by (simp add: v_def v'_def b)
    have "rem2 = word_of_int (2 ^ 28 * uint rem - uint (ucast (push_bit 1 q2) :: u64) * int (B div 16))"
      unfolding rem2_def by (rule div64_rem_word) (simp_all add: B b)
    then have rem2: "rem2 = word_of_int v'" unfolding dt v'_def uint_nat [of rem] u .
    have "int B < 2 ^ 64" using unat_bound [of sigB] B(1) by simp
    then have b63: "- (2 ^ 63) \<le> v'" "v' < 2 ^ 63" using v(1) unfolding vv by simp_all
    note sgn = word_sign_bit [OF b63, folded rem2]
    have "f64_div_sig sigA sigB = (if rem2 AND 0x8000000000000000 \<noteq> 0 then z2 - push_bit 7 1
        else if rem2 \<noteq> 0 then z2 OR 1 else z2)"
      using c True
      unfolding f64_div_sig_def Let_def recip32_def [symmetric] sig32Z_def [symmetric] rem_def [symmetric] q_def [symmetric]
        q2_def [symmetric] z2_def [symmetric] rem2_def [symmetric]
      by (simp only: if_True)
    then have code: "f64_div_sig sigA sigB = (if v < 0 then z2 - push_bit 7 1 else if v \<noteq> 0 then z2 OR 1 else z2)"
      unfolding sgn vv by simp
    have "even M" using v(2) by (meson dvd_trans even_numeral)
    then have "unat (z2 OR 1) = M + 1" using or_one_eq [of M] by (simp only: unat_or_1 z2) simp
    moreover have "unat (z2 - push_bit 7 1) = M - 128" if "v < 0" using v(3) [OF that] by (subst unat_minus) (simp_all add: z2)
    ultimately have "unat (f64_div_sig sigA sigB) = (if v < 0 then M - 128 else if v \<noteq> 0 then M + 1 else M)"
      unfolding code by (simp add: z2)
    then show ?thesis using ag by (simp only:)
  qed
qed

subsection \<open>Quotients\<close>

lemma divF32_sig:
  fixes u v :: u64
  assumes u: "unat u = S" "2 ^ 23 \<le> S" "S < 2 ^ 24" and v: "unat v = T" "2 ^ 23 \<le> T" "T < 2 ^ 24"
  defines "c \<equiv> u < v"
  defines "z \<equiv> f32_div_sig (if c then push_bit 31 u else push_bit 30 u) v"
    and "r \<equiv> real S * 2 ^ (if c then 31 else 30) / real T"
  shows "agree (7 - 1) (real (unat z)) r" "2 ^ 30 \<le> r" "r < 2 ^ 31"
proof -
  have c: "c \<longleftrightarrow> S < T" by (simp add: c_def word_less_nat_alt u(1) v(1))
  have N: "unat (if c then push_bit 31 u else push_bit 30 u) = S * 2 ^ (if c then 31 else 30)"
    using u by (auto simp: unat_push_bit)
  show "agree (7 - 1) (real (unat z)) r"
    using f32_div_sig_agree [OF v(1) _ N] v(2) by (simp add: z_def r_def)
  have T: "0 < real T" using v(2) by simp
  have "r < 2 ^ 31 \<and> 2 ^ 30 \<le> r"
  proof (cases c)
    case True
    have "2 ^ 30 * T \<le> 2 ^ 30 * (2 * S)" using u(2) v(3) by (intro mult_left_mono) simp_all
    then have "real (2 ^ 30 * T) \<le> real (2 ^ 30 * (2 * S))" by (simp only: of_nat_le_iff)
    then show ?thesis using True c T by (simp add: r_def pos_le_divide_eq pos_divide_less_eq)
  next
    case False
    have "S < 2 * T" using u(3) v(2) by simp
    then have "real S < real (2 * T)" by (simp only: of_nat_less_iff)
    then show ?thesis using False c T by (simp add: r_def pos_le_divide_eq pos_divide_less_eq)
  qed
  then show "2 ^ 30 \<le> r" "r < 2 ^ 31" by simp_all
qed

theorem f32_div_finite:
  assumes fin: "f32_finite a" "f32_finite b" and b: "f32_mag b \<noteq> 0"
  shows "f32_div a b st = f32_round_signed (f32_sign a \<noteq> f32_sign b) (f32_val a / f32_val b) st"
proof -
  let ?s = "f32_sign a \<noteq> f32_sign b" and ?x = "mval f32_fmt (f32_mag a) / mval f32_fmt (f32_mag b)"
  let ?uA = "ucast a :: u64" and ?uB = "ucast b :: u64"
  have "f32_val a / f32_val b = sgn_val ?s ?x" by (simp add: f32_val_def sgn_val_def)
  then have spec: "f32_round_signed ?s (f32_val a / f32_val b) st = f32_round ?s ?x st"
    by (simp add: f32_round_signed_sgn)
  have c: "(expF32UI ?uA = 0xFF) = False" "(expF32UI ?uB = 0xFF) = False"
    using fin by (simp_all only: f32_fields f32_finite_exp) simp_all
  have mag0: "f32_mag d = 0" if "expF32UI (ucast d) = 0 \<and> fracF32UI (ucast d) = 0" for d
    using magbits32_eq_0 [of d] that by simp
  have nzB: "\<not> (expF32UI ?uB = 0 \<and> fracF32UI ?uB = 0)" using mag0 [of b] b by blast
  obtain eB sB T where B: "(if expF32UI ?uB = 0 then softfloat_normSubnormalF32Sig (fracF32UI ?uB) else (expF32UI ?uB, fracF32UI ?uB)) = (eB, sB)"
    "unat (sB OR 0x00800000) = T" "2 ^ 23 \<le> T" "T < 2 ^ 24"
    "mval f32_fmt (f32_mag b) = real T * pow2 (eB - 150)" "- 23 \<le> eB" "eB < 0xFF"
    using normF32_operand [OF fin(2) nzB] .
  note code = f32_div_def Let_def c if_False signF32UI_ucast nzB B(1) prod.case
  show ?thesis
  proof (cases "expF32UI ?uA = 0 \<and> fracF32UI ?uA = 0")
    case True
    have "ucast (packToF32UI s 0 0) = f32_pack s 0" for s by (simp add: packToF32UI_pack)
    with True have "f32_div a b st = (f32_pack ?s 0, st)" by (simp only: code) simp
    moreover have "?x = 0" using mag0 [OF True] by simp
    ultimately show ?thesis unfolding spec by (simp only: f32_round_0)
  next
    case False
    obtain eA sA S where A: "(if expF32UI ?uA = 0 then softfloat_normSubnormalF32Sig (fracF32UI ?uA) else (expF32UI ?uA, fracF32UI ?uA)) = (eA, sA)"
      "unat (sA OR 0x00800000) = S" "2 ^ 23 \<le> S" "S < 2 ^ 24"
      "mval f32_fmt (f32_mag a) = real S * pow2 (eA - 150)" "- 23 \<le> eA" "eA < 0xFF"
      using normF32_operand [OF fin(1) False] .
    define u v where "u = (sA OR 0x00800000)" and "v = (sB OR 0x00800000)"
    note sig = divF32_sig [OF A(2-4) [folded u_def] B(2-4) [folded v_def]]
    define eZ where "eZ = eA - eB + 0x7E - of_bool (u < v)"
    have "f32_div a b st = softfloat_roundPackToF32 ?s eZ
      (f32_div_sig (if u < v then push_bit 31 u else push_bit 30 u) v) st"
      using False by (simp only: code A(1) if_False u_def [symmetric] v_def [symmetric] case_if_pair eZ_def) simp
    also have "\<dots> = f32_round ?s (real S * 2 ^ (if u < v then 31 else 30) / real T * pow2 (eZ - 156)) st"
      using sig A(6,7) B(6,7) by (intro softfloat_roundPackToF32_round) (simp_all add: eZ_def of_bool_def)
    also have "real S * 2 ^ (if u < v then 31 else 30) / real T * pow2 (eZ - 156) = ?x"
    proof -
      have "pow2 (eA - 150) = 2 ^ (if u < v then 31 else 30) * pow2 (eZ - 156) * pow2 (eB - 150)"
        using pow2_shift [of "eA - eB" "if u < v then 31 else 30"] pow2_add [of "eA - eB" "eB - 150"]
        by (simp add: eZ_def algebra_simps)
      then show ?thesis by (simp add: A(5) B(5))
    qed
    finally show ?thesis unfolding spec .
  qed
qed

lemma divF64_sig:
  fixes u v :: u64
  assumes u: "unat u = S" "2 ^ 52 \<le> S" "S < 2 ^ 53" and v: "unat v = T" "2 ^ 52 \<le> T" "T < 2 ^ 53"
  defines "c \<equiv> u < v"
  defines "z \<equiv> f64_div_sig (if c then push_bit 11 u else push_bit 10 u) (push_bit 11 v)"
    and "r \<equiv> real S * 2 ^ (if c then 63 else 62) / real T"
  shows "agree (10 - 1) (real (unat z)) r" "2 ^ 62 \<le> r" "r < 2 ^ 63"
proof -
  have c: "c \<longleftrightarrow> S < T" by (simp add: c_def word_less_nat_alt u(1) v(1))
  have B: "unat (push_bit 11 v) = T * 2 ^ 11" using v by (simp add: unat_push_bit)
  have A: "unat (if c then push_bit 11 u else push_bit 10 u) = S * 2 ^ (if c then 11 else 10)"
    using u by (auto simp: unat_push_bit)
  have "agree 9 (real (unat z)) (real (S * 2 ^ (if c then 11 else 10)) * 2 ^ 63 / real (T * 2 ^ 11))"
    unfolding z_def using v(2) u(2-3) v(3) c by (intro f64_div_sig_agree [OF B _ _ A]) auto
  then show "agree (10 - 1) (real (unat z)) r" using c by (simp add: r_def mult.commute split: if_splits)
  have T: "0 < real T" using v(2) by simp
  have "r < 2 ^ 63 \<and> 2 ^ 62 \<le> r"
  proof (cases c)
    case True
    have "2 ^ 62 * T \<le> 2 ^ 62 * (2 * S)" using u(2) v(3) by (intro mult_left_mono) simp_all
    then have "real (2 ^ 62 * T) \<le> real (2 ^ 62 * (2 * S))" by (simp only: of_nat_le_iff)
    then show ?thesis using True c T by (simp add: r_def pos_le_divide_eq pos_divide_less_eq)
  next
    case False
    have "S < 2 * T" using u(3) v(2) by simp
    then have "real S < real (2 * T)" by (simp only: of_nat_less_iff)
    then show ?thesis using False c T by (simp add: r_def pos_le_divide_eq pos_divide_less_eq)
  qed
  then show "2 ^ 62 \<le> r" "r < 2 ^ 63" by simp_all
qed

theorem f64_div_finite:
  assumes fin: "f64_finite a" "f64_finite b" and b: "f64_mag b \<noteq> 0"
  shows "f64_div a b st = f64_round_signed (f64_sign a \<noteq> f64_sign b) (f64_val a / f64_val b) st"
proof -
  let ?s = "f64_sign a \<noteq> f64_sign b" and ?x = "mval f64_fmt (f64_mag a) / mval f64_fmt (f64_mag b)"
  let ?uA = "a :: u64" and ?uB = "b :: u64"
  have "f64_val a / f64_val b = sgn_val ?s ?x" by (simp add: f64_val_def sgn_val_def)
  then have spec: "f64_round_signed ?s (f64_val a / f64_val b) st = f64_round ?s ?x st"
    by (simp add: f64_round_signed_sgn)
  have c: "(expF64UI ?uA = 0x7FF) = False" "(expF64UI ?uB = 0x7FF) = False"
    using fin by (simp_all only: f64_fields f64_finite_exp) simp_all
  have mag0: "f64_mag d = 0" if "expF64UI d = 0 \<and> fracF64UI d = 0" for d
    using magbits64_eq_0 [of d] that by simp
  have nzB: "\<not> (expF64UI ?uB = 0 \<and> fracF64UI ?uB = 0)" using mag0 [of b] b by blast
  obtain eB sB T where B: "(if expF64UI ?uB = 0 then softfloat_normSubnormalF64Sig (fracF64UI ?uB) else (expF64UI ?uB, fracF64UI ?uB)) = (eB, sB)"
    "unat (sB OR 0x0010000000000000) = T" "2 ^ 52 \<le> T" "T < 2 ^ 53"
    "mval f64_fmt (f64_mag b) = real T * pow2 (eB - 1075)" "- 52 \<le> eB" "eB < 0x7FF"
    using normF64_operand [OF fin(2) nzB] .
  note code = f64_div_def Let_def c if_False signF64UI_eq nzB B(1) prod.case
  show ?thesis
  proof (cases "expF64UI ?uA = 0 \<and> fracF64UI ?uA = 0")
    case True
    have "(packToF64UI s 0 0) = f64_pack s 0" for s by (simp add: packToF64UI_pack)
    with True have "f64_div a b st = (f64_pack ?s 0, st)" by (simp only: code) simp
    moreover have "?x = 0" using mag0 [OF True] by simp
    ultimately show ?thesis unfolding spec by (simp only: f64_round_0)
  next
    case False
    obtain eA sA S where A: "(if expF64UI ?uA = 0 then softfloat_normSubnormalF64Sig (fracF64UI ?uA) else (expF64UI ?uA, fracF64UI ?uA)) = (eA, sA)"
      "unat (sA OR 0x0010000000000000) = S" "2 ^ 52 \<le> S" "S < 2 ^ 53"
      "mval f64_fmt (f64_mag a) = real S * pow2 (eA - 1075)" "- 52 \<le> eA" "eA < 0x7FF"
      using normF64_operand [OF fin(1) False] .
    define u v where "u = (sA OR 0x0010000000000000)" and "v = (sB OR 0x0010000000000000)"
    note sig = divF64_sig [OF A(2-4) [folded u_def] B(2-4) [folded v_def]]
    define eZ where "eZ = eA - eB + 0x3FE - of_bool (u < v)"
    have "f64_div a b st = softfloat_roundPackToF64 ?s eZ
      (f64_div_sig (if u < v then push_bit 11 u else push_bit 10 u) (push_bit 11 v)) st"
      using False by (simp only: code A(1) if_False u_def [symmetric] v_def [symmetric] case_if_pair eZ_def) simp
    also have "\<dots> = f64_round ?s (real S * 2 ^ (if u < v then 63 else 62) / real T * pow2 (eZ - 1084)) st"
      using sig A(6,7) B(6,7) by (intro softfloat_roundPackToF64_round) (simp_all add: eZ_def of_bool_def)
    also have "real S * 2 ^ (if u < v then 63 else 62) / real T * pow2 (eZ - 1084) = ?x"
    proof -
      have "pow2 (eA - 1075) = 2 ^ (if u < v then 63 else 62) * pow2 (eZ - 1084) * pow2 (eB - 1075)"
        using pow2_shift [of "eA - eB" "if u < v then 63 else 62"] pow2_add [of "eA - eB" "eB - 1075"]
        by (simp add: eZ_def algebra_simps)
      then show ?thesis by (simp add: A(5) B(5))
    qed
    finally show ?thesis unfolding spec .
  qed
qed

subsection \<open>Infinities, NaNs and division by zero\<close>

theorem f32_div_special:
  assumes "\<not> (f32_finite a \<and> f32_finite b \<and> f32_mag b \<noteq> 0)"
  shows "f32_div a b st =
         (if f32_isnan a \<or> f32_isnan b then f32_nan_result a b st
          else if f32_isinf a \<and> f32_isinf b \<or> f32_mag a = 0 \<and> f32_mag b = 0
          then (ucast defaultNaNF32UI, softfloat_raiseFlags softfloat_flag_invalid st)
          else if f32_isinf b then (f32_pack (f32_sign a \<noteq> f32_sign b) 0, st)
          else (f32_pack (f32_sign a \<noteq> f32_sign b) (inf_code f32_fmt),
                if f32_isinf a then st else softfloat_raiseFlags softfloat_flag_infinite st))"
proof -
  let ?eA = "f32_mag a div 2 ^ 23" and ?eB = "f32_mag b div 2 ^ 23"
  have nz: "f32_mag d \<noteq> 0" if "f32_mag d div 2 ^ 23 = 0xFF" for d using that by (intro notI) simp
  have zero: "ucast (packToF32UI s 0 0) = f32_pack s 0" for s by (simp add: packToF32UI_pack)
  have z: "f32_mag d div 2 ^ 23 = 0 \<and> f32_mag d mod 2 ^ 23 = 0 \<longleftrightarrow> f32_mag d = 0" for d
    using div_mult_mod_eq [of "f32_mag d" "2 ^ 23"] by auto
  note code = f32_div_def Let_def f32_fields magbits32_eq_0 [unfolded expF32UI_ucast]
    fracF32_eq_0 packToF32UI_inf zero
  consider "?eA = 0xFF" | "?eA \<noteq> 0xFF" "?eB = 0xFF" | "?eA \<noteq> 0xFF" "?eB \<noteq> 0xFF" "f32_mag b = 0"
    using assms unfolding f32_classes by blast
  then show ?thesis
  proof cases
    case 1
    then have c: "(int ?eA = 0xFF) = True" "(int ?eB = 0xFF) = (?eB = 0xFF)" by simp_all
    show ?thesis
      using 1 nz unfolding f32_classes softfloat_propagateNaNF32UI_result [symmetric]
      by (simp only: code c if_True) auto
  next
    case 2
    then have c: "(int ?eA = 0xFF) = False" "(int ?eB = 0xFF) = True" by simp_all
    show ?thesis
      using 2 nz unfolding f32_classes softfloat_propagateNaNF32UI_result [symmetric]
      by (simp only: code c if_True if_False) auto
  next
    case 3
    then have c: "(int ?eA = 0xFF) = False" "(int ?eB = 0xFF) = False" "(int ?eB = 0 \<and> f32_mag b mod 2 ^ 23 = 0) = True"
      using z [of b] by simp_all
    show ?thesis
      using 3 unfolding f32_classes by (simp only: code c if_True if_False) auto
  qed
qed

theorem f64_div_special:
  assumes "\<not> (f64_finite a \<and> f64_finite b \<and> f64_mag b \<noteq> 0)"
  shows "f64_div a b st =
         (if f64_isnan a \<or> f64_isnan b then f64_nan_result a b st
          else if f64_isinf a \<and> f64_isinf b \<or> f64_mag a = 0 \<and> f64_mag b = 0
          then (defaultNaNF64UI, softfloat_raiseFlags softfloat_flag_invalid st)
          else if f64_isinf b then (f64_pack (f64_sign a \<noteq> f64_sign b) 0, st)
          else (f64_pack (f64_sign a \<noteq> f64_sign b) (inf_code f64_fmt),
                if f64_isinf a then st else softfloat_raiseFlags softfloat_flag_infinite st))"
proof -
  let ?eA = "f64_mag a div 2 ^ 52" and ?eB = "f64_mag b div 2 ^ 52"
  have nz: "f64_mag d \<noteq> 0" if "f64_mag d div 2 ^ 52 = 0x7FF" for d using that by (intro notI) simp
  have zero: "(packToF64UI s 0 0) = f64_pack s 0" for s by (simp add: packToF64UI_pack)
  have z: "f64_mag d div 2 ^ 52 = 0 \<and> f64_mag d mod 2 ^ 52 = 0 \<longleftrightarrow> f64_mag d = 0" for d
    using div_mult_mod_eq [of "f64_mag d" "2 ^ 52"] by auto
  note code = f64_div_def Let_def f64_fields magbits64_eq_0 [unfolded expF64UI_eq]
    fracF64_eq_0 packToF64UI_inf zero
  consider "?eA = 0x7FF" | "?eA \<noteq> 0x7FF" "?eB = 0x7FF" | "?eA \<noteq> 0x7FF" "?eB \<noteq> 0x7FF" "f64_mag b = 0"
    using assms unfolding f64_classes by blast
  then show ?thesis
  proof cases
    case 1
    then have c: "(int ?eA = 0x7FF) = True" "(int ?eB = 0x7FF) = (?eB = 0x7FF)" by simp_all
    show ?thesis
      using 1 nz unfolding f64_classes softfloat_propagateNaNF64UI_result [symmetric]
      by (simp only: code c if_True) auto
  next
    case 2
    then have c: "(int ?eA = 0x7FF) = False" "(int ?eB = 0x7FF) = True" by simp_all
    show ?thesis
      using 2 nz unfolding f64_classes softfloat_propagateNaNF64UI_result [symmetric]
      by (simp only: code c if_True if_False) auto
  next
    case 3
    then have c: "(int ?eA = 0x7FF) = False" "(int ?eB = 0x7FF) = False" "(int ?eB = 0 \<and> f64_mag b mod 2 ^ 52 = 0) = True"
      using z [of b] by simp_all
    show ?thesis
      using 3 unfolding f64_classes by (simp only: code c if_True if_False) auto
  qed
qed

end
