(* ===== verification/SF_FromInt.thy ===== *)
theory SF_FromInt
  imports SF_AddSub
begin

text \<open>
  Conversion of integers to floating point (\<open>source/{i32,ui32,i64,ui64}_to_{f32,f64}.c\<close>). An
  \<open>int32_t\<close> or \<open>int64_t\<close> argument is a word read with \<open>sint\<close>. Every conversion returns the
  argument correctly rounded; from 32 bits to double precision it is exact.
\<close>

subsection \<open>The routines\<close>

definition i32_to_f32 :: "u32 \<Rightarrow> softfloat_state \<Rightarrow> u32 \<times> softfloat_state" where
  "i32_to_f32 a st =
     (let sign = (sint a < 0)
      in if a AND 0x7FFFFFFF = 0 then (if sign then ucast (packToF32UI True 0x9E 0) else 0, st)
         else let absA = (if sign then - scast a else scast a :: u64)
              in softfloat_normRoundPackToF32 sign 0x9C absA st)"

definition i32_to_f64 :: "u32 \<Rightarrow> u64" where
  "i32_to_f64 a =
     (if a = 0 then 0
      else let sign = (sint a < 0);
               absA = (if sign then - scast a else scast a :: u64);
               shiftDist = uint (softfloat_countLeadingZeros32 (ucast absA)) + 21
           in packToF64UI sign (0x432 - shiftDist) (push_bit (nat shiftDist) absA))"

definition ui32_to_f32 :: "u32 \<Rightarrow> softfloat_state \<Rightarrow> u32 \<times> softfloat_state" where
  "ui32_to_f32 a st =
     (if a = 0 then (0, st)
      else if a AND 0x80000000 \<noteq> 0
      then softfloat_roundPackToF32 False 0x9D (ucast (drop_bit 1 a OR (a AND 1))) st
      else softfloat_normRoundPackToF32 False 0x9C (ucast a) st)"

definition ui32_to_f64 :: "u32 \<Rightarrow> u64" where
  "ui32_to_f64 a =
     (if a = 0 then 0
      else let shiftDist = uint (softfloat_countLeadingZeros32 a) + 21
           in packToF64UI False (0x432 - shiftDist) (push_bit (nat shiftDist) (ucast a)))"

definition i64_to_f32 :: "u64 \<Rightarrow> softfloat_state \<Rightarrow> u32 \<times> softfloat_state" where
  "i64_to_f32 a st =
     (let sign = (sint a < 0);
          absA = (if sign then - a else a);
          shiftDist = uint (softfloat_countLeadingZeros64 absA) - 40
      in if 0 \<le> shiftDist
         then (if a \<noteq> 0 then ucast (packToF32UI sign (0x95 - shiftDist) (push_bit (nat shiftDist) absA)) else 0, st)
         else let shiftDist = shiftDist + 7;
                  sig = (if shiftDist < 0 then softfloat_shortShiftRightJam64 absA (word_of_int (- shiftDist))
                         else push_bit (nat shiftDist) absA)
              in softfloat_roundPackToF32 sign (0x9C - shiftDist) sig st)"

definition i64_to_f64 :: "u64 \<Rightarrow> softfloat_state \<Rightarrow> u64 \<times> softfloat_state" where
  "i64_to_f64 a st =
     (let sign = (sint a < 0)
      in if a AND 0x7FFFFFFFFFFFFFFF = 0 then (if sign then packToF64UI True 0x43E 0 else 0, st)
         else let absA = (if sign then - a else a)
              in softfloat_normRoundPackToF64 sign 0x43C absA st)"

definition ui64_to_f32 :: "u64 \<Rightarrow> softfloat_state \<Rightarrow> u32 \<times> softfloat_state" where
  "ui64_to_f32 a st =
     (let shiftDist = uint (softfloat_countLeadingZeros64 a) - 40
      in if 0 \<le> shiftDist
         then (if a \<noteq> 0 then ucast (packToF32UI False (0x95 - shiftDist) (push_bit (nat shiftDist) a)) else 0, st)
         else let shiftDist = shiftDist + 7;
                  sig = (if shiftDist < 0 then softfloat_shortShiftRightJam64 a (word_of_int (- shiftDist))
                         else push_bit (nat shiftDist) a)
              in softfloat_roundPackToF32 False (0x9C - shiftDist) sig st)"

definition ui64_to_f64 :: "u64 \<Rightarrow> softfloat_state \<Rightarrow> u64 \<times> softfloat_state" where
  "ui64_to_f64 a st =
     (if a = 0 then (0, st)
      else if a AND 0x8000000000000000 \<noteq> 0
      then softfloat_roundPackToF64 False 0x43D (softfloat_shortShiftRightJam64 a 1) st
      else softfloat_normRoundPackToF64 False 0x43C a st)"

subsection \<open>Magnitudes of signed words\<close>

lemma sint_abs_le: "\<bar>sint a\<bar> \<le> 2 ^ (LENGTH('a) - 1)" for a :: "'a::len word"
  using sint_greater_eq [of a] sint_less [of a] unfolding One_nat_def by linarith

lemma unat_abs_word:
  fixes a :: "'a::len word"
  assumes "LENGTH('a) \<le> LENGTH('b::len)"
  shows "int (unat (if sint a < 0 then - scast a else scast a :: 'b word)) = \<bar>sint a\<bar>"
proof -
  note sint_abs_le [of a]
  also have "(2 :: int) ^ (LENGTH('a) - 1) < 2 ^ LENGTH('b)"
    using assms len_gt_0 [where 'a = 'a] by (intro power_strict_increasing) linarith+
  finally have b: "\<bar>sint a\<bar> < 2 ^ LENGTH('b)" .
  have "(if sint a < 0 then - scast a else scast a :: 'b word) = word_of_int \<bar>sint a\<bar>"
    unfolding scast_eq by (simp add: abs_if)
  with b show ?thesis by (simp only: unat_word_of_int abs_ge_zero int_nat_eq if_True)
qed

lemma unat_abs64: "int (unat (if sint a < 0 then - a else a)) = \<bar>sint a\<bar>" for a :: u64
  using unat_abs_word [of a, where 'b = 64] by (simp only: scast_id)

lemma sint_eq_0: "sint a = 0 \<longleftrightarrow> a = 0" for a :: "'a::len word"
  by (metis signed_eq_0_iff)

lemma sint_f32: "sint a = int (f32_mag a) - of_bool (f32_sign a) * 2 ^ 31"
proof -
  have "sint a = uint a - 2 ^ 32 * of_bool (bit (uint a) 31)"
    using uint_lt2p [of a] by (simp add: sint_uint signed_take_bit_eq_take_bit_minus take_bit_int_eq_self)
  moreover have "bit (uint a) 31 = f32_sign a" by (simp add: bit_uint_iff f32_sign_bit)
  moreover have "uint a = of_bool (f32_sign a) * 2 ^ 31 + int (f32_mag a)"
    using f32_unat [of a] by (simp add: uint_nat)
  ultimately show ?thesis by (cases "f32_sign a") simp_all
qed

lemma f32_mag_and: "a AND 0x7FFFFFFF = 0 \<longleftrightarrow> f32_mag a = 0"
proof -
  have "(0x7FFFFFFF :: u32) = mask 31" by (simp add: mask_eq_exp_minus_1)
  then show ?thesis by (simp only: unat_eq_0 [symmetric] unat_and_mask f32_mag_def)
qed

lemma f32_sign_and: "a AND 0x80000000 \<noteq> 0 \<longleftrightarrow> 2 ^ 31 \<le> unat a" for a :: u32
proof -
  have "(0x80000000 :: u32) = 2 ^ 31" by simp
  then show ?thesis
    using f32_sign_bit [of a] by (simp only: f32_sign_def and_exp_eq_0_iff_not_bit not_not)
qed

lemma sint_f64: "sint a = int (f64_mag a) - of_bool (f64_sign a) * 2 ^ 63"
proof -
  have "sint a = uint a - 2 ^ 64 * of_bool (bit (uint a) 63)"
    using uint_lt2p [of a] by (simp add: sint_uint signed_take_bit_eq_take_bit_minus take_bit_int_eq_self)
  moreover have "bit (uint a) 63 = f64_sign a" by (simp add: bit_uint_iff f64_sign_bit)
  moreover have "uint a = of_bool (f64_sign a) * 2 ^ 63 + int (f64_mag a)"
    using f64_unat [of a] by (simp add: uint_nat)
  ultimately show ?thesis by (cases "f64_sign a") simp_all
qed

lemma f64_mag_and: "a AND 0x7FFFFFFFFFFFFFFF = 0 \<longleftrightarrow> f64_mag a = 0"
proof -
  have "(0x7FFFFFFFFFFFFFFF :: u64) = mask 63" by (simp add: mask_eq_exp_minus_1)
  then show ?thesis by (simp only: unat_eq_0 [symmetric] unat_and_mask f64_mag_def)
qed

lemma f64_sign_and: "a AND 0x8000000000000000 \<noteq> 0 \<longleftrightarrow> 2 ^ 63 \<le> unat a" for a :: u64
proof -
  have "(0x8000000000000000 :: u64) = 2 ^ 63" by simp
  then show ?thesis
    using f64_sign_bit [of a] by (simp only: f64_sign_def and_exp_eq_0_iff_not_bit not_not)
qed

subsection \<open>The results are correctly rounded\<close>

lemma f32_round_signed_int:
  "f32_round_signed False (real_of_int k) st = f32_round (k < 0) (real_of_int \<bar>k\<bar>) st"
  by (simp add: f32_round_signed_def)

lemma f64_round_signed_int:
  "f64_round_signed False (real_of_int k) st = f64_round (k < 0) (real_of_int \<bar>k\<bar>) st"
  by (simp add: f64_round_signed_def)

lemma unat_and_1: "unat (w AND 1) = of_bool (unat w mod 2 ^ 1 \<noteq> 0)" for w :: "'a::len word"
  using unat_and_mask [of w 1] by simp

lemma real_unat_eq: "int (unat w) = k \<Longrightarrow> real (unat w) = real_of_int k"
  by (metis of_int_of_nat_eq)

lemma normRoundPackToF32_int:
  assumes "0 < unat sig" "unat sig < 2 ^ 31"
  shows "softfloat_normRoundPackToF32 s 156 sig st = f32_round s (real (unat sig)) st"
  using assms softfloat_normRoundPackToF32_round [of sig "real (unat sig)" 156 s st] by simp

theorem i32_to_f32_round: "i32_to_f32 a st = f32_round_signed False (real_of_int (sint a)) st"
proof (cases "f32_mag a = 0")
  case True
  have m: "mval f32_fmt (0x9E * 2 ^ 23) = 2 ^ 31" by (simp add: mval_def ulp_exp_f32 Let_def)
  have p: "ucast (packToF32UI True 0x9E 0) = f32_pack True (0x9E * 2 ^ 23)"
    by (subst packToF32UI_pack) simp_all
  have "f32_round True (2 ^ 31) st = (f32_pack True (0x9E * 2 ^ 23), st)"
    unfolding m [symmetric] by (rule f32_round_exact) (simp add: inf_code_f32)
  with True show ?thesis
    unfolding i32_to_f32_def f32_mag_and f32_round_signed_int sint_f32 p Let_def
    by (cases "f32_sign a") (simp_all add: f32_round_0 f32_pack_def)
next
  case False
  let ?abs = "if sint a < 0 then - scast a else scast a :: u64"
  have abs: "int (unat ?abs) = \<bar>sint a\<bar>" by (rule unat_abs_word) simp
  have "0 < \<bar>sint a\<bar>" "\<bar>sint a\<bar> < 2 ^ 31"
    using False f32_mag_less [of a] by (auto simp: sint_f32 abs_if)
  then have "int 0 < int (unat ?abs)" "int (unat ?abs) < int (2 ^ 31)" unfolding abs by simp_all
  then have "0 < unat ?abs" "unat ?abs < 2 ^ 31" by (simp_all only: of_nat_less_iff)
  then have "softfloat_normRoundPackToF32 (sint a < 0) 156 ?abs st = f32_round (sint a < 0) (real_of_int \<bar>sint a\<bar>) st"
    using normRoundPackToF32_int [of ?abs "sint a < 0" st] by (simp only: real_unat_eq [OF abs])
  with False show ?thesis
    unfolding i32_to_f32_def f32_mag_and f32_round_signed_int Let_def by simp
qed

theorem ui32_to_f32_round: "ui32_to_f32 a st = f32_round_signed False (real (unat a)) st"
proof -
  have spec: "f32_round_signed False (real (unat a)) st = f32_round False (real (unat a)) st"
    by (simp add: f32_round_signed_def)
  show ?thesis
  proof (cases "2 ^ 31 \<le> unat a")
    case True
    let ?z = "ucast (drop_bit 1 a OR (a AND 1)) :: u64"
    have z: "int (unat ?z) = rodd (real (unat a) / 2 ^ 1)"
      unfolding nat_of_word rodd_nat_div unsigned_or_eq unat_and_1 by simp
    have "agree (7 - 1) (real (unat ?z)) (real (unat a) / 2)"
      using agree_rodd [of "7 - 1" "real (unat a) / 2"] real_unat_eq [OF z] by simp
    moreover have "real (2 ^ 31) \<le> real (unat a)" "real (unat a) < real (2 ^ 32)"
      using True unat_bound [of a] by (simp_all only: of_nat_le_iff of_nat_less_iff) simp
    ultimately have "softfloat_roundPackToF32 False (156 + 1) ?z st = f32_round False (real (unat a) / 2 * pow2 (156 + 1 - 156)) st"
      by (intro softfloat_roundPackToF32_round) simp_all
    moreover have "a \<noteq> 0" using True by (intro notI) simp
    ultimately show ?thesis using True by (simp add: ui32_to_f32_def f32_sign_and spec)
  next
    case False
    then show ?thesis
      using normRoundPackToF32_int [of "ucast a" False st]
      by (cases "a = 0") (simp_all add: ui32_to_f32_def f32_sign_and spec nat_of_word unat_gt_0 f32_round_signed_def f32_round_0 f32_pack_def)
  qed
qed

lemma normRoundPackToF64_int:
  assumes "0 < unat sig" "unat sig < 2 ^ 63"
  shows "softfloat_normRoundPackToF64 s 1084 sig st = f64_round s (real (unat sig)) st"
  using assms softfloat_normRoundPackToF64_round [of sig "real (unat sig)" 1084 s st] by simp

theorem i64_to_f64_round: "i64_to_f64 a st = f64_round_signed False (real_of_int (sint a)) st"
proof (cases "f64_mag a = 0")
  case True
  have m: "mval f64_fmt (0x43E * 2 ^ 52) = 2 ^ 63" by (simp add: mval_def ulp_exp_f64 Let_def)
  have p: "packToF64UI True 0x43E 0 = f64_pack True (0x43E * 2 ^ 52)"
    by (subst packToF64UI_pack) simp_all
  have "f64_round True (2 ^ 63) st = (f64_pack True (0x43E * 2 ^ 52), st)"
    unfolding m [symmetric] by (rule f64_round_exact) (simp add: inf_code_f64)
  with True show ?thesis
    unfolding i64_to_f64_def f64_mag_and f64_round_signed_int sint_f64 p Let_def
    by (cases "f64_sign a") (simp_all add: f64_round_0 f64_pack_def)
next
  case False
  let ?abs = "if sint a < 0 then - a else a :: u64"
  have abs: "int (unat ?abs) = \<bar>sint a\<bar>" by (rule unat_abs64)
  have "0 < \<bar>sint a\<bar>" "\<bar>sint a\<bar> < 2 ^ 63"
    using False f64_mag_less [of a] by (auto simp: sint_f64 abs_if)
  then have "int 0 < int (unat ?abs)" "int (unat ?abs) < int (2 ^ 63)" unfolding abs by simp_all
  then have "0 < unat ?abs" "unat ?abs < 2 ^ 63" by (simp_all only: of_nat_less_iff)
  then have "softfloat_normRoundPackToF64 (sint a < 0) 1084 ?abs st = f64_round (sint a < 0) (real_of_int \<bar>sint a\<bar>) st"
    using normRoundPackToF64_int [of ?abs "sint a < 0" st] by (simp only: real_unat_eq [OF abs])
  with False show ?thesis
    unfolding i64_to_f64_def f64_mag_and f64_round_signed_int Let_def by simp
qed

theorem ui64_to_f64_round: "ui64_to_f64 a st = f64_round_signed False (real (unat a)) st"
proof -
  have spec: "f64_round_signed False (real (unat a)) st = f64_round False (real (unat a)) st"
    by (simp add: f64_round_signed_def)
  show ?thesis
  proof (cases "2 ^ 63 \<le> unat a")
    case True
    let ?z = "softfloat_shortShiftRightJam64 a 1"
    have z: "int (unat ?z) = rodd (real (unat a) / 2 ^ 1)"
      using softfloat_shortShiftRightJam64_rodd [of 1 a] by simp
    have "agree (10 - 1) (real (unat ?z)) (real (unat a) / 2)"
      using agree_rodd [of "10 - 1" "real (unat a) / 2"] real_unat_eq [OF z] by simp
    moreover have "real (2 ^ 63) \<le> real (unat a)" "real (unat a) < real (2 ^ 64)"
      using True unat_bound [of a] by (simp_all only: of_nat_le_iff of_nat_less_iff) simp
    ultimately have "softfloat_roundPackToF64 False (1084 + 1) ?z st = f64_round False (real (unat a) / 2 * pow2 (1084 + 1 - 1084)) st"
      by (intro softfloat_roundPackToF64_round) simp_all
    moreover have "a \<noteq> 0" using True by (intro notI) simp
    ultimately show ?thesis using True by (simp add: ui64_to_f64_def f64_sign_and spec)
  next
    case False
    then show ?thesis
      using normRoundPackToF64_int [of a False st]
      by (cases "a = 0") (simp_all add: ui64_to_f64_def f64_sign_and spec nat_of_word unat_gt_0 f64_round_signed_def f64_round_0 f64_pack_def)
  qed
qed

lemma u64_to_f32_round:
  fixes a :: u64
  assumes a: "0 < unat a"
  shows "(let shiftDist = uint (softfloat_countLeadingZeros64 a) - 40
          in if 0 \<le> shiftDist then (ucast (packToF32UI s (0x95 - shiftDist) (push_bit (nat shiftDist) a)), st)
             else let shiftDist = shiftDist + 7;
                      sig = (if shiftDist < 0 then softfloat_shortShiftRightJam64 a (word_of_int (- shiftDist))
                             else push_bit (nat shiftDist) a)
                  in softfloat_roundPackToF32 s (0x9C - shiftDist) sig st) =
         f32_round s (real (unat a)) st" (is "?lhs = _")
proof -
  consider (short) "unat a < 2 ^ (64 - 40)" | (mid) "2 ^ 24 \<le> unat a" "unat a < 2 ^ (64 - 33)" | (long) "2 ^ 31 \<le> unat a"
    by (cases "unat a < 2 ^ 24"; cases "unat a < 2 ^ 31") (simp_all add: not_less)
  then show ?thesis
  proof cases
    case short
    then obtain k where k: "uint (softfloat_countLeadingZeros64 a) = int (40 + k)"
      "unat (push_bit k a) = unat a * 2 ^ k" "2 ^ (63 - 40) \<le> unat a * 2 ^ k" "unat a * 2 ^ k < 2 ^ (64 - 40)"
      by (rule clz64_norm [OF a]) simp
    have "2 ^ k \<le> unat a * 2 ^ k" using a by simp
    then have "2 ^ k < (2 :: nat) ^ (64 - 40)" using k(4) by (rule le_less_trans)
    then have "k < 64 - 40" by (rule power_less_imp_less_exp [rotated]) simp
    then have k24: "k < 24" by simp
    let ?m = "(149 - k) * 2 ^ 23 + unat a * 2 ^ k"
    have e: "nat (0x95 - int k) = 149 - k" by simp
    have lt: "?m < inf_code f32_fmt" using k(4) by (simp add: inf_code_f32)
    have "real (unat a) = real (unat a * 2 ^ k) * pow2 (ulp_exp f32_fmt (149 - k))"
      using k24 by (simp add: ulp_exp_f32 power_int_minus)
    also have "\<dots> = mval f32_fmt ?m" using f32.mval_code [of "unat a * 2 ^ k" "149 - k"] k(3,4) by simp
    finally have x: "real (unat a) = mval f32_fmt ?m" .
    have "ucast (packToF32UI s (0x95 - int k) (push_bit k a)) = f32_pack s ?m"
      using k24 lt by (subst packToF32UI_pack) (simp_all add: e k(2) inf_code_f32)
    then show ?thesis unfolding x f32_round_exact [OF lt] using k(1) by (simp add: Let_def)
  next
    case mid
    obtain k where k: "uint (softfloat_countLeadingZeros64 a) = int (33 + k)"
      "unat (push_bit k a) = unat a * 2 ^ k" "2 ^ (63 - 33) \<le> unat a * 2 ^ k" "unat a * 2 ^ k < 2 ^ (64 - 33)"
      by (rule clz64_norm [OF a mid(2)]) simp
    have "2 ^ 24 * 2 ^ k \<le> unat a * 2 ^ k" using mid(1) by simp
    then have "2 ^ (24 + k) < (2 :: nat) ^ (64 - 33)" unfolding power_add using k(4) by (rule le_less_trans)
    then have "24 + k < 64 - 33" by (rule power_less_imp_less_exp [rotated]) simp
    then have k7: "k < 7" by simp
    have b: "real (2 ^ 30) \<le> real (unat a * 2 ^ k)" "real (unat a * 2 ^ k) < real (2 ^ 31)"
      using k(3,4) by (simp_all only: of_nat_le_iff of_nat_less_iff) simp_all
    have "?lhs = softfloat_roundPackToF32 s (156 - int k) (push_bit k a) st"
      using k7 by (simp add: Let_def k(1))
    also have "\<dots> = f32_round s (real (unat a * 2 ^ k) * pow2 (156 - int k - 156)) st"
      using k7 b by (intro softfloat_roundPackToF32_round) (simp_all add: k(2))
    also have "real (unat a * 2 ^ k) * pow2 (156 - int k - 156) = real (unat a)" by (simp add: power_int_minus)
    finally show ?thesis .
  next
    case long
    have "a \<noteq> 0" using a by (intro notI) simp
    then obtain c where c: "uint (softfloat_countLeadingZeros64 a) = int c" "c < 64" "2 ^ (63 - c) \<le> unat a" "unat a < 2 ^ (64 - c)"
      using softfloat_countLeadingZeros64_spec [of a] by (auto simp: clz_spec_def uint_nat)
    have "(2 :: nat) ^ 31 < 2 ^ (64 - c)" using long c(4) by simp
    then have "31 < 64 - c" by (rule power_less_imp_less_exp [rotated]) simp
    then have c33: "c < 33" by simp
    define d where "d = 33 - c"
    have d: "0 < d" "d \<le> 33" "c = 33 - d" using c33 by (simp_all add: d_def)
    let ?r = "real (unat a) / 2 ^ d" and ?z = "softfloat_shortShiftRightJam64 a (word_of_int (int d))"
    have ud: "unat (word_of_int (int d) :: u8) = d" using d by (subst unat_word_of_int) simp_all
    then have z: "int (unat ?z) = rodd ?r"
      using d softfloat_shortShiftRightJam64_rodd [of "word_of_int (int d)" a] by simp
    have "63 - c = 30 + d" "64 - c = 31 + d" using d by simp_all
    then have "2 ^ 30 * 2 ^ d \<le> unat a" "unat a < 2 ^ 31 * 2 ^ d" using c(3,4) by (simp_all only: power_add)
    then have "real (2 ^ 30 * 2 ^ d) \<le> real (unat a)" "real (unat a) < real (2 ^ 31 * 2 ^ d)"
      by (simp_all only: of_nat_le_iff of_nat_less_iff)
    then have b: "2 ^ 30 \<le> ?r" "?r < 2 ^ 31" by (simp_all add: pos_le_divide_eq pos_divide_less_eq)
    have ag: "agree (7 - 1) (real (unat ?z)) ?r"
      using agree_rodd [of "7 - 1" ?r] real_unat_eq [OF z] by simp
    have "?lhs = softfloat_roundPackToF32 s (156 + int d) ?z st"
      using d by (simp add: Let_def c(1) of_nat_diff)
    also have "\<dots> = f32_round s (?r * pow2 (156 + int d - 156)) st"
      using d b ag by (intro softfloat_roundPackToF32_round) simp_all
    also have "?r * pow2 (156 + int d - 156) = real (unat a)" by simp
    finally show ?thesis .
  qed
qed

theorem i64_to_f32_round: "i64_to_f32 a st = f32_round_signed False (real_of_int (sint a)) st"
proof (cases "a = 0")
  case True
  have "i64_to_f32 0 st = (0, st)" by (simp add: i64_to_f32_def softfloat_countLeadingZeros64_def softfloat_countLeadingZeros8_def)
  with True show ?thesis unfolding f32_round_signed_int by (simp add: f32_round_0 f32_pack_def)
next
  case False
  let ?abs = "if sint a < 0 then - a else a"
  have "sint a \<noteq> 0" using False sint_eq_0 [of a] by blast
  then have "0 < int (unat ?abs)" unfolding unat_abs64 by simp
  then have "0 < unat ?abs" by (simp only: of_nat_0_less_iff)
  from u64_to_f32_round [OF this, of "sint a < 0" st] False show ?thesis
    unfolding i64_to_f32_def f32_round_signed_int real_unat_eq [OF unat_abs64] Let_def by (simp only: if_True not_False_eq_True)
qed

theorem ui64_to_f32_round: "ui64_to_f32 a st = f32_round_signed False (real (unat a)) st"
proof (cases "a = 0")
  case True
  have "ui64_to_f32 0 st = (0, st)" by (simp add: ui64_to_f32_def softfloat_countLeadingZeros64_def softfloat_countLeadingZeros8_def)
  with True show ?thesis by (simp add: f32_round_signed_def f32_round_0 f32_pack_def)
next
  case False
  then have "0 < unat a" by (simp add: unat_gt_0)
  moreover from this have "f32_round_signed False (real (unat a)) st = f32_round False (real (unat a)) st"
    by (simp add: f32_round_signed_def)
  ultimately show ?thesis
    using u64_to_f32_round [of a False st] False unfolding ui64_to_f32_def Let_def by (simp only: if_True not_False_eq_True)
qed

text \<open>A 32-bit magnitude fits into the significand of a double.\<close>

lemma u32_to_f64_exact:
  fixes a :: u64
  assumes a: "0 < unat a" "unat a < 2 ^ 32"
  defines "d \<equiv> uint (softfloat_countLeadingZeros32 (ucast a)) + 21"
  shows "(packToF64UI s (0x432 - d) (push_bit (nat d) a), st) = f64_round s (real (unat a)) st"
proof -
  have "unat a < 2 ^ (32 - 0)" using a(2) by simp
  then obtain k where k: "uint (softfloat_countLeadingZeros32 (ucast a)) = int (0 + k)"
    "2 ^ (31 - 0) \<le> unat a * 2 ^ k" "unat a * 2 ^ k < 2 ^ (32 - 0)"
    by (rule clz32_norm [OF a(1)]) simp
  have "2 ^ k \<le> unat a * 2 ^ k" using a by simp
  then have "2 ^ k < (2 :: nat) ^ (32 - 0)" using k(3) by (rule le_less_trans)
  then have "k < 32 - 0" by (rule power_less_imp_less_exp [rotated]) simp
  then have k32: "k < 32" by simp
  define q where "q = unat a * 2 ^ (k + 21)"
  have "q = unat a * 2 ^ k * 2 ^ 21" by (simp add: q_def power_add)
  then have q: "2 ^ 52 \<le> q" "q < 2 * 2 ^ 52" using k(2,3) by simp_all
  have d: "d = int (k + 21)" by (simp add: d_def k(1))
  have u: "unat (push_bit (k + 21) a) = q" unfolding q_def using q by (intro unat_push_bit) (simp add: q_def)
  let ?m = "(1053 - k - 0) * 2 ^ 52 + q"
  have e: "nat (0x432 - d) = 1053 - k" using k32 by (simp add: d)
  have lt: "?m < inf_code f64_fmt" using q by (simp add: inf_code_f64)
  have "real (unat a) = real q * pow2 (ulp_exp f64_fmt (1053 - k))"
  proof -
    have "ulp_exp f64_fmt (1053 - k) = - int (k + 21)" using k32 by (simp add: ulp_exp_f64 of_nat_diff)
    then have "pow2 (ulp_exp f64_fmt (1053 - k)) = inverse (2 ^ (k + 21))" by (simp only: power_int_minus pow2_nat)
    then show ?thesis by (simp add: q_def)
  qed
  also have "\<dots> = mval f64_fmt ?m" using f64.mval_code [of q "1053 - k"] q by simp
  finally have x: "real (unat a) = mval f64_fmt ?m" .
  have nd: "nat d = k + 21" by (simp only: d nat_int)
  have "packToF64UI s (0x432 - d) (push_bit (nat d) a) = f64_pack s (nat (0x432 - d) * 2 ^ 52 + unat (push_bit (nat d) a))"
    using k32 lt unfolding inf_code_f64 by (intro packToF64UI_pack) (simp_all only: e nd u, simp_all add: d)
  then have "packToF64UI s (0x432 - d) (push_bit (nat d) a) = f64_pack s ?m" by (simp only: e nd u diff_zero)
  then show ?thesis unfolding x f64_round_exact [OF lt] by simp
qed

theorem i32_to_f64_round: "(i32_to_f64 a, st) = f64_round_signed False (real_of_int (sint a)) st"
proof (cases "a = 0")
  case True
  then show ?thesis unfolding f64_round_signed_int by (simp add: i32_to_f64_def f64_round_0 f64_pack_def)
next
  case False
  let ?abs = "if sint a < 0 then - scast a else scast a :: u64"
  have abs: "int (unat ?abs) = \<bar>sint a\<bar>" by (rule unat_abs_word) simp
  have "sint a \<noteq> 0" using False sint_eq_0 [of a] by blast
  then have "int 0 < int (unat ?abs)" "int (unat ?abs) < int (2 ^ 32)"
    using sint_abs_le [of a] unfolding abs by simp_all
  then have "0 < unat ?abs" "unat ?abs < 2 ^ 32" by (simp_all only: of_nat_less_iff)
  from u32_to_f64_exact [OF this, of "sint a < 0" st] False show ?thesis
    unfolding i32_to_f64_def f64_round_signed_int real_unat_eq [OF abs] Let_def by (simp only: if_False not_False_eq_True)
qed

theorem ui32_to_f64_round: "(ui32_to_f64 a, st) = f64_round_signed False (real (unat a)) st"
proof (cases "a = 0")
  case True
  then show ?thesis by (simp add: ui32_to_f64_def f64_round_signed_def f64_round_0 f64_pack_def)
next
  case False
  then have pos: "0 < unat a" by (simp add: unat_gt_0)
  then have "0 < unat (ucast a :: u64)" "unat (ucast a :: u64) < 2 ^ 32" using unat_bound [of a] by (simp_all add: nat_of_word)
  from u32_to_f64_exact [OF this, of False st] have
    "(packToF64UI False (0x432 - (uint (softfloat_countLeadingZeros32 a) + 21))
       (push_bit (nat (uint (softfloat_countLeadingZeros32 a) + 21)) (ucast a)), st) = f64_round False (real (unat a)) st"
    by (simp only: ucast_down_up unat_ucast32)
  moreover have "f64_round_signed False (real (unat a)) st = f64_round False (real (unat a)) st"
    by (simp add: f64_round_signed_def)
  ultimately show ?thesis using False unfolding ui32_to_f64_def Let_def by (simp only: if_False not_False_eq_True)
qed

end
