(* ===== verification/SF_ToInt.thy ===== *)
theory SF_ToInt
  imports SF_FromInt
begin

text \<open>
  Conversion of floating point to integers (\<open>source/s_roundTo{I,UI}{32,64}.c\<close>,
  \<open>source/{f32,f64}_to_{i32,ui32,i64,ui64}.c\<close>). An \<open>int_fast32_t\<close>
  or \<open>int_fast64_t\<close> result is an integer, an unsigned one a 64-bit word. Every conversion
  rounds the exact value once and reports the results that do not fit as invalid.
\<close>

subsection \<open>The results for values that do not fit (\<open>8086-SSE/specialize.h\<close>)\<close>

abbreviation (input) ui32_fromPosOverflow :: u64 where "ui32_fromPosOverflow \<equiv> 0xFFFFFFFF"
abbreviation (input) ui32_fromNegOverflow :: u64 where "ui32_fromNegOverflow \<equiv> 0xFFFFFFFF"
abbreviation (input) ui32_fromNaN :: u64 where "ui32_fromNaN \<equiv> 0xFFFFFFFF"
abbreviation (input) i32_fromPosOverflow :: int where "i32_fromPosOverflow \<equiv> - 0x7FFFFFFF - 1"
abbreviation (input) i32_fromNegOverflow :: int where "i32_fromNegOverflow \<equiv> - 0x7FFFFFFF - 1"
abbreviation (input) i32_fromNaN :: int where "i32_fromNaN \<equiv> - 0x7FFFFFFF - 1"
abbreviation (input) ui64_fromPosOverflow :: u64 where "ui64_fromPosOverflow \<equiv> 0xFFFFFFFFFFFFFFFF"
abbreviation (input) ui64_fromNegOverflow :: u64 where "ui64_fromNegOverflow \<equiv> 0xFFFFFFFFFFFFFFFF"
abbreviation (input) ui64_fromNaN :: u64 where "ui64_fromNaN \<equiv> 0xFFFFFFFFFFFFFFFF"
abbreviation (input) i64_fromPosOverflow :: int where "i64_fromPosOverflow \<equiv> - 0x7FFFFFFFFFFFFFFF - 1"
abbreviation (input) i64_fromNegOverflow :: int where "i64_fromNegOverflow \<equiv> - 0x7FFFFFFFFFFFFFFF - 1"
abbreviation (input) i64_fromNaN :: int where "i64_fromNaN \<equiv> - 0x7FFFFFFFFFFFFFFF - 1"

subsection \<open>Rounding a fixed-point magnitude\<close>

text \<open>\<open>softfloat_exceptionFlags |= softfloat_flag_inexact\<close>, where the caller asks for it.\<close>

definition raise_inexact :: "bool \<Rightarrow> softfloat_state \<Rightarrow> softfloat_state" where
  "raise_inexact c st =
     (if c then st\<lparr>softfloat_exceptionFlags := softfloat_exceptionFlags st OR softfloat_flag_inexact\<rparr> else st)"

definition softfloat_roundToI32 :: "bool \<Rightarrow> u64 \<Rightarrow> u8 \<Rightarrow> bool \<Rightarrow> softfloat_state \<Rightarrow> int \<times> softfloat_state" where
  "softfloat_roundToI32 sign sig roundingMode exact st =
     (let roundIncrement =
            (if roundingMode \<noteq> softfloat_round_near_maxMag \<and> roundingMode \<noteq> softfloat_round_near_even
             then (if (if sign then roundingMode = softfloat_round_min \<or> roundingMode = softfloat_round_odd
                       else roundingMode = softfloat_round_max) then 0xFFF else 0)
             else 0x800);
          roundBits = sig AND 0xFFF;
          sig = sig + roundIncrement;
          invalid = (if sign then i32_fromNegOverflow else i32_fromPosOverflow,
                     softfloat_raiseFlags softfloat_flag_invalid st)
      in if sig AND 0xFFFFF00000000000 \<noteq> 0 then invalid
         else let sig32 = drop_bit 12 sig;
                  sig32 = (if roundBits = 0x800 \<and> roundingMode = softfloat_round_near_even
                           then sig32 AND NOT 1 else sig32);
                  z = sint (ucast (if sign then - sig32 else sig32) :: u32)
              in if z \<noteq> 0 \<and> (z < 0) \<noteq> sign then invalid
                 else (if roundBits \<noteq> 0 \<and> roundingMode = softfloat_round_odd then z OR 1 else z,
                       raise_inexact (roundBits \<noteq> 0 \<and> exact) st))"

definition softfloat_roundToUI32 :: "bool \<Rightarrow> u64 \<Rightarrow> u8 \<Rightarrow> bool \<Rightarrow> softfloat_state \<Rightarrow> u64 \<times> softfloat_state" where
  "softfloat_roundToUI32 sign sig roundingMode exact st =
     (let near = (roundingMode = softfloat_round_near_maxMag \<or> roundingMode = softfloat_round_near_even);
          invalid = (if sign then ui32_fromNegOverflow else ui32_fromPosOverflow,
                     softfloat_raiseFlags softfloat_flag_invalid st)
      in if \<not> near \<and> sign \<and> sig = 0 then (0, st)
         else if \<not> near \<and> sign \<and> roundingMode = softfloat_round_min then invalid
         else if \<not> near \<and> sign \<and> roundingMode = softfloat_round_odd then invalid
         else let roundIncrement =
                    (if near then 0x800
                     else if \<not> sign \<and> roundingMode = softfloat_round_max then 0xFFF else 0);
                  roundBits = sig AND 0xFFF;
                  sig = sig + roundIncrement
              in if sig AND 0xFFFFF00000000000 \<noteq> 0 then invalid
                 else let z = drop_bit 12 sig;
                          z = (if roundBits = 0x800 \<and> roundingMode = softfloat_round_near_even then z AND NOT 1 else z)
                      in if sign \<and> z \<noteq> 0 then invalid
                         else (if roundBits \<noteq> 0 \<and> roundingMode = softfloat_round_odd then z OR 1 else z,
                               raise_inexact (roundBits \<noteq> 0 \<and> exact) st))"

text \<open>
  In the 64-bit routines the label \<open>increment\<close> is reached from both branches on the mode; \<open>incr\<close> is
  the condition under which control gets there.
\<close>

definition softfloat_roundToI64 :: "bool \<Rightarrow> u64 \<Rightarrow> u64 \<Rightarrow> u8 \<Rightarrow> bool \<Rightarrow> softfloat_state \<Rightarrow> int \<times> softfloat_state" where
  "softfloat_roundToI64 sign sig sigExtra roundingMode exact st =
     (let incr = (if roundingMode = softfloat_round_near_maxMag \<or> roundingMode = softfloat_round_near_even
                  then 0x8000000000000000 \<le> sigExtra
                  else sigExtra \<noteq> 0 \<and>
                       (if sign then roundingMode = softfloat_round_min \<or> roundingMode = softfloat_round_odd
                        else roundingMode = softfloat_round_max));
          invalid = (if sign then i64_fromNegOverflow else i64_fromPosOverflow,
                     softfloat_raiseFlags softfloat_flag_invalid st);
          sig = (if incr then sig + 1 else sig)
      in if incr \<and> sig = 0 then invalid
         else let sig = (if incr \<and> sigExtra = 0x8000000000000000 \<and> roundingMode = softfloat_round_near_even
                         then sig AND NOT 1 else sig);
                  z = sint (if sign then - sig else sig)
              in if z \<noteq> 0 \<and> (z < 0) \<noteq> sign then invalid
                 else (if sigExtra \<noteq> 0 \<and> roundingMode = softfloat_round_odd then z OR 1 else z,
                       raise_inexact (sigExtra \<noteq> 0 \<and> exact) st))"

definition softfloat_roundToUI64 :: "bool \<Rightarrow> u64 \<Rightarrow> u64 \<Rightarrow> u8 \<Rightarrow> bool \<Rightarrow> softfloat_state \<Rightarrow> u64 \<times> softfloat_state" where
  "softfloat_roundToUI64 sign sig sigExtra roundingMode exact st =
     (let near = (roundingMode = softfloat_round_near_maxMag \<or> roundingMode = softfloat_round_near_even);
          invalid = (if sign then ui64_fromNegOverflow else ui64_fromPosOverflow,
                     softfloat_raiseFlags softfloat_flag_invalid st)
      in if \<not> near \<and> sign \<and> sig OR sigExtra = 0 then (0, st)
         else if \<not> near \<and> sign \<and> roundingMode = softfloat_round_min then invalid
         else if \<not> near \<and> sign \<and> roundingMode = softfloat_round_odd then invalid
         else let incr = (if near then 0x8000000000000000 \<le> sigExtra
                          else \<not> sign \<and> roundingMode = softfloat_round_max \<and> sigExtra \<noteq> 0);
                  sig = (if incr then sig + 1 else sig)
              in if incr \<and> sig = 0 then invalid
                 else let sig = (if incr \<and> sigExtra = 0x8000000000000000 \<and> roundingMode = softfloat_round_near_even
                                 then sig AND NOT 1 else sig)
                      in if sign \<and> sig \<noteq> 0 then invalid
                         else (if sigExtra \<noteq> 0 \<and> roundingMode = softfloat_round_odd then sig OR 1 else sig,
                               raise_inexact (sigExtra \<noteq> 0 \<and> exact) st))"

subsection \<open>Conversions in a given rounding mode\<close>

text \<open>
  In this specialization the three results for invalid conversions to a type are equal, so the preprocessor
  drops the NaN case from the 32-bit conversions.
\<close>

definition f32_to_i32 :: "u32 \<Rightarrow> u8 \<Rightarrow> bool \<Rightarrow> softfloat_state \<Rightarrow> int \<times> softfloat_state" where
  "f32_to_i32 a roundingMode exact st =
     (let uiA = ucast a :: u64;
          sign = signF32UI uiA; e = expF32UI uiA; sig = fracF32UI uiA;
          sig = (if e \<noteq> 0 then sig OR 0x00800000 else sig);
          sig64 = push_bit 32 sig;
          shiftDist = 0xAA - e;
          sig64 = (if 0 < shiftDist then softfloat_shiftRightJam64 sig64 (word_of_int shiftDist) else sig64)
      in softfloat_roundToI32 sign sig64 roundingMode exact st)"

definition f64_to_i32 :: "u64 \<Rightarrow> u8 \<Rightarrow> bool \<Rightarrow> softfloat_state \<Rightarrow> int \<times> softfloat_state" where
  "f64_to_i32 uiA roundingMode exact st =
     (let sign = signF64UI uiA; e = expF64UI uiA; sig = fracF64UI uiA;
          sig = (if e \<noteq> 0 then sig OR 0x0010000000000000 else sig);
          shiftDist = 0x427 - e;
          sig = (if 0 < shiftDist then softfloat_shiftRightJam64 sig (word_of_int shiftDist) else sig)
      in softfloat_roundToI32 sign sig roundingMode exact st)"

definition f32_to_ui32 :: "u32 \<Rightarrow> u8 \<Rightarrow> bool \<Rightarrow> softfloat_state \<Rightarrow> u64 \<times> softfloat_state" where
  "f32_to_ui32 a roundingMode exact st =
     (let uiA = ucast a :: u64;
          sign = signF32UI uiA; e = expF32UI uiA; sig = fracF32UI uiA;
          sig = (if e \<noteq> 0 then sig OR 0x00800000 else sig);
          sig64 = push_bit 32 sig;
          shiftDist = 0xAA - e;
          sig64 = (if 0 < shiftDist then softfloat_shiftRightJam64 sig64 (word_of_int shiftDist) else sig64)
      in softfloat_roundToUI32 sign sig64 roundingMode exact st)"

definition f64_to_ui32 :: "u64 \<Rightarrow> u8 \<Rightarrow> bool \<Rightarrow> softfloat_state \<Rightarrow> u64 \<times> softfloat_state" where
  "f64_to_ui32 uiA roundingMode exact st =
     (let sign = signF64UI uiA; e = expF64UI uiA; sig = fracF64UI uiA;
          sig = (if e \<noteq> 0 then sig OR 0x0010000000000000 else sig);
          shiftDist = 0x427 - e;
          sig = (if 0 < shiftDist then softfloat_shiftRightJam64 sig (word_of_int shiftDist) else sig)
      in softfloat_roundToUI32 sign sig roundingMode exact st)"

definition f32_to_i64 :: "u32 \<Rightarrow> u8 \<Rightarrow> bool \<Rightarrow> softfloat_state \<Rightarrow> int \<times> softfloat_state" where
  "f32_to_i64 a roundingMode exact st =
     (let uiA = ucast a :: u64;
          sign = signF32UI uiA; e = expF32UI uiA; sig = fracF32UI uiA;
          shiftDist = 0xBE - e
      in if shiftDist < 0
         then (if e = 0xFF \<and> sig \<noteq> 0 then i64_fromNaN
               else if sign then i64_fromNegOverflow else i64_fromPosOverflow,
               softfloat_raiseFlags softfloat_flag_invalid st)
         else let sig = (if e \<noteq> 0 then sig OR 0x00800000 else sig);
                  sig64 = push_bit 40 sig;
                  sig64Extra = (if shiftDist \<noteq> 0
                                then softfloat_shiftRightJam64Extra sig64 0 (word_of_int shiftDist)
                                else \<lparr>ext_extra = 0, ext_v = sig64\<rparr>)
              in softfloat_roundToI64 sign (ext_v sig64Extra) (ext_extra sig64Extra) roundingMode exact st)"

definition f64_to_i64 :: "u64 \<Rightarrow> u8 \<Rightarrow> bool \<Rightarrow> softfloat_state \<Rightarrow> int \<times> softfloat_state" where
  "f64_to_i64 uiA roundingMode exact st =
     (let sign = signF64UI uiA; e = expF64UI uiA; sig = fracF64UI uiA;
          sig = (if e \<noteq> 0 then sig OR 0x0010000000000000 else sig);
          shiftDist = 0x433 - e
      in if shiftDist \<le> 0 \<and> shiftDist < - 11
         then (if e = 0x7FF \<and> fracF64UI uiA \<noteq> 0 then i64_fromNaN
               else if sign then i64_fromNegOverflow else i64_fromPosOverflow,
               softfloat_raiseFlags softfloat_flag_invalid st)
         else let sigExtra = (if shiftDist \<le> 0
                              then \<lparr>ext_extra = 0, ext_v = push_bit (nat (- shiftDist)) sig\<rparr>
                              else softfloat_shiftRightJam64Extra sig 0 (word_of_int shiftDist))
              in softfloat_roundToI64 sign (ext_v sigExtra) (ext_extra sigExtra) roundingMode exact st)"

definition f32_to_ui64 :: "u32 \<Rightarrow> u8 \<Rightarrow> bool \<Rightarrow> softfloat_state \<Rightarrow> u64 \<times> softfloat_state" where
  "f32_to_ui64 a roundingMode exact st =
     (let uiA = ucast a :: u64;
          sign = signF32UI uiA; e = expF32UI uiA; sig = fracF32UI uiA;
          shiftDist = 0xBE - e
      in if shiftDist < 0
         then (if e = 0xFF \<and> sig \<noteq> 0 then ui64_fromNaN
               else if sign then ui64_fromNegOverflow else ui64_fromPosOverflow,
               softfloat_raiseFlags softfloat_flag_invalid st)
         else let sig = (if e \<noteq> 0 then sig OR 0x00800000 else sig);
                  sig64 = push_bit 40 sig;
                  sig64Extra = (if shiftDist \<noteq> 0
                                then softfloat_shiftRightJam64Extra sig64 0 (word_of_int shiftDist)
                                else \<lparr>ext_extra = 0, ext_v = sig64\<rparr>)
              in softfloat_roundToUI64 sign (ext_v sig64Extra) (ext_extra sig64Extra) roundingMode exact st)"

definition f64_to_ui64 :: "u64 \<Rightarrow> u8 \<Rightarrow> bool \<Rightarrow> softfloat_state \<Rightarrow> u64 \<times> softfloat_state" where
  "f64_to_ui64 uiA roundingMode exact st =
     (let sign = signF64UI uiA; e = expF64UI uiA; sig = fracF64UI uiA;
          sig = (if e \<noteq> 0 then sig OR 0x0010000000000000 else sig);
          shiftDist = 0x433 - e
      in if shiftDist \<le> 0 \<and> shiftDist < - 11
         then (if e = 0x7FF \<and> fracF64UI uiA \<noteq> 0 then ui64_fromNaN
               else if sign then ui64_fromNegOverflow else ui64_fromPosOverflow,
               softfloat_raiseFlags softfloat_flag_invalid st)
         else let sigExtra = (if shiftDist \<le> 0
                              then \<lparr>ext_extra = 0, ext_v = push_bit (nat (- shiftDist)) sig\<rparr>
                              else softfloat_shiftRightJam64Extra sig 0 (word_of_int shiftDist))
              in softfloat_roundToUI64 sign (ext_v sigExtra) (ext_extra sigExtra) roundingMode exact st)"

subsection \<open>The specification\<close>

text \<open>
  Rounding the signed magnitude \<open>y\<close> to an integer in the range \<open>lo .. hi\<close>: the integer and, on
  request, the inexact exception; \<open>bad\<close> and the invalid exception when it is out of range.
\<close>

definition round_to_int ::
  "int \<Rightarrow> int \<Rightarrow> int \<Rightarrow> rmode \<Rightarrow> bool \<Rightarrow> bool \<Rightarrow> real \<Rightarrow> softfloat_state \<Rightarrow> int \<times> softfloat_state" where
  "round_to_int lo hi bad rm exact s y st =
     (let z = (if s then - rint rm s y else rint rm s y)
      in if lo \<le> z \<and> z \<le> hi then (z, raise_inexact (y \<notin> \<int> \<and> exact) st)
         else (bad, softfloat_raiseFlags softfloat_flag_invalid st))"

lemma round_to_int_agree:
  assumes "agree j x y"
  shows "round_to_int lo hi bad rm exact s (x / 2 ^ Suc j) st = round_to_int lo hi bad rm exact s (y / 2 ^ Suc j) st"
proof -
  have "agree (Suc j) x y" by (rule agree_mono [OF assms]) simp
  then have "x / 2 ^ Suc j \<in> \<int> \<longleftrightarrow> y / 2 ^ Suc j \<in> \<int>" by (simp only: agree_def)
  then show ?thesis by (simp only: round_to_int_def rint_agree [OF assms])
qed

lemma round_to_int_large:
  assumes "real_of_int k \<le> y" "hi < k" "- k < lo"
  shows "round_to_int lo hi bad rm exact s y st = (bad, softfloat_raiseFlags softfloat_flag_invalid st)"
  using rint_ge_of_int [OF assms(1), of rm s] assms(2,3) by (auto simp: round_to_int_def Let_def)

lemma rint_nat_div:
  assumes "0 < R"
  shows "rint rm s (real n / 2 ^ R) =
         int (n div 2 ^ R) + of_bool (rnd_up rm s (odd (n div 2 ^ R)) (real (n mod 2 ^ R) / 2 ^ R))"
proof -
  have "real n / 2 ^ R = of_int (int (n div 2 ^ R)) + real (n mod 2 ^ R) / 2 ^ R"
    using arg_cong [OF div_mult_mod_eq [of n "2 ^ R"], of real] by (simp add: divide_simps)
  moreover have "real (n mod 2 ^ R) < real (2 ^ R)" by (simp only: of_nat_less_iff) simp
  then have "0 \<le> real (n mod 2 ^ R) / 2 ^ R" "real (n mod 2 ^ R) / 2 ^ R < 1" by simp_all
  ultimately show ?thesis using rint_split [of "real (n mod 2 ^ R) / 2 ^ R" rm s "int (n div 2 ^ R)"] by simp
qed

lemma int_mod_range: "k * m \<le> y \<Longrightarrow> y < (k + 1) * m \<Longrightarrow> y mod m = y - k * m" for y m :: int
  using mod_mult_self1 [of "y - k * m" k m] by (simp add: algebra_simps)

lemma sint_word_of_int_range:
  assumes "- (2 ^ (LENGTH('a) - 1)) \<le> k - j * 2 ^ LENGTH('a)" "k - j * 2 ^ LENGTH('a) < 2 ^ (LENGTH('a) - 1)"
  shows "sint (word_of_int k :: 'a::len word) = k - j * 2 ^ LENGTH('a)"
proof -
  have "(2 :: int) ^ LENGTH('a) = 2 * 2 ^ (LENGTH('a) - 1)"
    using len_gt_0 [where 'a = 'a] by (metis One_nat_def Suc_pred power_Suc)
  then have "(k + 2 ^ (LENGTH('a) - 1)) mod 2 ^ LENGTH('a) = k + 2 ^ (LENGTH('a) - 1) - j * 2 ^ LENGTH('a)"
    using assms by (intro int_mod_range) (simp_all add: algebra_simps)
  then show ?thesis unfolding int_word_sint by simp
qed

lemma sint_signed32:
  fixes w :: u64
  assumes "unat w < 2 ^ 32"
  shows "sint (ucast (if s then - w else w) :: u32) =
         (if s then (if unat w \<le> 2 ^ 31 then - int (unat w) else 2 ^ 32 - int (unat w))
          else if unat w < 2 ^ 31 then int (unat w) else int (unat w) - 2 ^ 32)"
proof -
  have down: "(ucast (word_of_int k :: u64) :: u32) = word_of_int k" for k
    by (rule ucast_down_wi) (simp add: is_down)
  have p: "(ucast w :: u32) = word_of_int (int (unat w))"
    using down [of "uint w"] by (simp only: word_of_int_uint uint_nat [symmetric])
  have m: "(ucast (- w) :: u32) = word_of_int (- int (unat w))"
    using down [of "- uint w"] by (simp only: wi_hom_neg [symmetric] word_of_int_uint uint_nat [symmetric])
  show ?thesis
    using assms sint_word_of_int_range [of "int (unat w)" 0, where 'a = 32] sint_word_of_int_range [of "int (unat w)" 1, where 'a = 32]
      sint_word_of_int_range [of "- int (unat w)" 0, where 'a = 32] sint_word_of_int_range [of "- int (unat w)" "- 1", where 'a = 32]
    by (cases s) (simp_all add: p m)
qed

lemma rnd_up_nat:
  "rnd_up rm s c (real b / 2 ^ Suc k) \<longleftrightarrow>
     (case rm of RNE \<Rightarrow> 2 ^ k < b \<or> b = 2 ^ k \<and> c | RTZ \<Rightarrow> False | RDN \<Rightarrow> s \<and> b \<noteq> 0
      | RUP \<Rightarrow> \<not> s \<and> b \<noteq> 0 | RMM \<Rightarrow> 2 ^ k \<le> b | ROD \<Rightarrow> b \<noteq> 0 \<and> \<not> c)"
proof -
  have t: "2 * (real b / 2 ^ Suc k) = real b / real (2 ^ k)" by simp
  have "1 < 2 * (real b / 2 ^ Suc k) \<longleftrightarrow> 2 ^ k < b" "2 * (real b / 2 ^ Suc k) = 1 \<longleftrightarrow> b = 2 ^ k"
    "1 \<le> 2 * (real b / 2 ^ Suc k) \<longleftrightarrow> 2 ^ k \<le> b"
    unfolding t by (simp_all only: less_divide_eq_1 le_divide_eq_1 divide_eq_1_iff of_nat_less_iff of_nat_le_iff of_nat_eq_iff) auto
  moreover have "0 < real b / 2 ^ Suc k \<longleftrightarrow> b \<noteq> 0" by (simp add: zero_less_divide_iff)
  ultimately show ?thesis by (cases rm) simp_all
qed

subsection \<open>Rounding to 32-bit integers\<close>

text \<open>What the increment and the shift by 12 do to the magnitude.\<close>

lemma roundTo32_bits:
  fixes sig inc :: u64
  assumes "unat sig < 2 ^ 63" "unat inc < 2 ^ 12"
  defines "q \<equiv> unat sig div 2 ^ 12 + of_bool (2 ^ 12 \<le> unat sig mod 2 ^ 12 + unat inc)"
  shows "unat (sig AND 0xFFF) = unat sig mod 2 ^ 12"
    and "(sig + inc) AND 0xFFFFF00000000000 \<noteq> 0 \<longleftrightarrow> 2 ^ 32 \<le> q"
    and "unat (drop_bit 12 (sig + inc)) = q"
proof -
  have "(0xFFF :: u64) = mask 12" by (simp add: mask_eq_exp_minus_1)
  then show "unat (sig AND 0xFFF) = unat sig mod 2 ^ 12" by (simp only: unat_and_mask)
  have u: "unat (sig + inc) = unat sig + unat inc" using assms(1,2) by (intro unat_plus) simp
  have "unat sig mod 2 ^ 12 < 2 ^ 12" by simp
  then have "unat sig mod 2 ^ 12 + unat inc < 2 * 2 ^ 12" using assms(2) by linarith
  from div_add_pow2_less [OF this, of "unat sig div 2 ^ 12"]
  have q: "(unat sig + unat inc) div 2 ^ 12 = q" unfolding q_def by (simp only: div_mult_mod_eq)
  then show "unat (drop_bit 12 (sig + inc)) = q" by (simp only: nat_of_word u)
  have m: "(0xFFFFF00000000000 :: u64) = push_bit 44 (mask 20)" by (simp add: mask_eq_exp_minus_1)
  have "unat (sig + inc) div 2 ^ 44 < 2 ^ 20" using unat_bound [of "sig + inc"] by (simp add: less_mult_imp_div_less)
  then have "unat ((sig + inc) AND push_bit 44 (mask 20)) = (unat sig + unat inc) div 2 ^ 44 * 2 ^ 44"
    using unat_and_field [of 44 20 "sig + inc"] by (simp add: u)
  then have "(sig + inc) AND 0xFFFFF00000000000 = 0 \<longleftrightarrow> (unat sig + unat inc) div 2 ^ 44 = 0"
    unfolding m by (simp only: unat_eq_0 [symmetric]) simp
  also have "(unat sig + unat inc) div 2 ^ 44 = q div 2 ^ 32"
    by (simp only: q [symmetric] div_mult2_eq [symmetric] power_add [symmetric]) simp
  finally show "(sig + inc) AND 0xFFFFF00000000000 \<noteq> 0 \<longleftrightarrow> 2 ^ 32 \<le> q" by (auto simp: div_eq_0_iff)
qed

lemma sub_mod2_Suc: "Suc a - Suc a mod 2 = a + of_bool (odd a)" for a :: nat
  by (cases "even a") (simp_all add: mod2_eq_if)

lemma softfloat_roundToI32_nat:
  assumes n: "unat sig < 2 ^ 63"
  shows "softfloat_roundToI32 s sig mode exact st =
         round_to_int (- (2 ^ 31)) (2 ^ 31 - 1) (- (2 ^ 31)) (sf_rmode mode) exact s (real (unat sig) / 2 ^ 12) st"
proof -
  define a b where "a = unat sig div 2 ^ 12" and "b = unat sig mod 2 ^ 12"
  define inc :: u64 where "inc = (if mode \<noteq> 4 \<and> mode \<noteq> 0 then if (if s then mode = 2 \<or> mode = 6 else mode = 3) then 0xFFF else 0 else 0x800)"
  define c :: nat where "c = of_bool (2 ^ 12 \<le> b + unat inc)"
  have inc: "unat inc < 2 ^ 12" and b: "b < 2 ^ 12" by (simp_all add: inc_def b_def)
  note bits = roundTo32_bits [OF n inc, folded a_def b_def, folded c_def]
  have rb: "sig AND 0xFFF = 0x800 \<longleftrightarrow> b = 2 ^ 11" "sig AND 0xFFF = 0 \<longleftrightarrow> b = 0"
    by (simp_all only: word_unat_eq_iff bits(1)) simp_all
  define w where "w = (if b = 2 ^ 11 \<and> mode = 0 then drop_bit 12 (sig + inc) AND NOT 1 else drop_bit 12 (sig + inc))"
  have w: "unat w = (if b = 2 ^ 11 \<and> mode = 0 then (a + c) - (a + c) mod 2 else a + c)"
    unfolding w_def by (simp only: if_distrib [of unat] unat_and_not_1 bits(3))
  define Z where "Z = rint (sf_rmode mode) s (real (unat sig) / 2 ^ 12)"
  have Z: "Z = int a + of_bool (case sf_rmode mode of RNE \<Rightarrow> 2 ^ 11 < b \<or> b = 2 ^ 11 \<and> odd a | RTZ \<Rightarrow> False | RDN \<Rightarrow> s \<and> b \<noteq> 0
      | RUP \<Rightarrow> \<not> s \<and> b \<noteq> 0 | RMM \<Rightarrow> 2 ^ 11 \<le> b | ROD \<Rightarrow> b \<noteq> 0 \<and> \<not> odd a)"
    using rint_nat_div [of 12 "sf_rmode mode" s "unat sig"] rnd_up_nat [of "sf_rmode mode" s "odd a" b 11]
    by (simp add: Z_def a_def b_def)
  have ints: "real (unat sig) / 2 ^ 12 \<in> \<int> \<longleftrightarrow> b = 0" by (simp only: Ints_nat_div_pow2 b_def)
  have Q: "int (unat w) = Z" if "mode \<noteq> 6"
    unfolding w Z c_def inc_def using that b
    by (cases "b = 2 ^ 11") (auto simp: sf_rmode_def sub_mod2_Suc)
  have Q6: "unat w = a + of_bool (s \<and> b \<noteq> 0)" "Z = int a + of_bool (b \<noteq> 0 \<and> even a)" if "mode = 6"
    unfolding w Z c_def inc_def using that b by (auto simp: sf_rmode_def)
  let ?bad = "(- (2 ^ 31), softfloat_raiseFlags softfloat_flag_invalid st)" and ?z = "sint (ucast (if s then - w else w) :: u32)"
  have code: "softfloat_roundToI32 s sig mode exact st =
     (if 2 ^ 32 \<le> a + c then ?bad
      else if ?z \<noteq> 0 \<and> (?z < 0) \<noteq> s then ?bad
      else (if b \<noteq> 0 \<and> mode = 6 then ?z OR 1 else ?z, raise_inexact (b \<noteq> 0 \<and> exact) st))"
    unfolding softfloat_roundToI32_def Let_def inc_def [symmetric] bits(2) rb w_def [symmetric] by simp
  have spec: "round_to_int (- (2 ^ 31)) (2 ^ 31 - 1) (- (2 ^ 31)) (sf_rmode mode) exact s (real (unat sig) / 2 ^ 12) st =
     (if - (2 ^ 31) \<le> (if s then - Z else Z) \<and> (if s then - Z else Z) \<le> 2 ^ 31 - 1
      then (if s then - Z else Z, raise_inexact (b \<noteq> 0 \<and> exact) st) else ?bad)"
    by (simp only: round_to_int_def Let_def Z_def ints)
  show ?thesis
  proof (cases "2 ^ 32 \<le> a + c")
    case True
    moreover have "c \<le> 1" by (simp add: c_def)
    moreover have "int a \<le> Z" by (simp add: Z)
    ultimately show ?thesis unfolding code spec by auto
  next
    case False
    then have uw: "unat w < 2 ^ 32" unfolding w by (auto simp: less_imp_diff_less)
    note z = sint_signed32 [OF uw, of s]
    show ?thesis
    proof (cases "mode = 6")
      case True
      have "odd a \<Longrightarrow> a \<le> 2 ^ 31 \<Longrightarrow> a \<le> 2 ^ 31 - 1" by (cases "a = 2 ^ 31") simp_all
      with True \<open>\<not> 2 ^ 32 \<le> a + c\<close> uw show ?thesis
        unfolding code spec z Q6 [OF True] by (cases s; cases "even a"; cases "b = 0") (auto simp: or_one_eq)
    next
      case False
      with \<open>\<not> 2 ^ 32 \<le> a + c\<close> uw show ?thesis
        unfolding code spec z Q [OF False, symmetric] by (cases s) auto
    qed
  qed
qed

lemma even_le_sub_mod2: "even k \<Longrightarrow> k \<le> m \<Longrightarrow> k \<le> m - m mod 2" for k m :: nat
  by (cases "k = m") (auto simp: mod2_eq_if)

lemma softfloat_roundToUI32_nat:
  assumes n: "unat sig < 2 ^ 63"
  shows "apfst uint (softfloat_roundToUI32 s sig mode exact st) =
         round_to_int 0 (2 ^ 32 - 1) (2 ^ 32 - 1) (sf_rmode mode) exact s (real (unat sig) / 2 ^ 12) st"
proof -
  define a b where "a = unat sig div 2 ^ 12" and "b = unat sig mod 2 ^ 12"
  define near where "near \<longleftrightarrow> mode = 4 \<or> mode = 0"
  define inc :: u64 where "inc = (if near then 0x800 else if \<not> s \<and> mode = 3 then 0xFFF else 0)"
  define c :: nat where "c = of_bool (2 ^ 12 \<le> b + unat inc)"
  have inc: "unat inc < 2 ^ 12" and b: "b < 2 ^ 12" by (simp_all add: inc_def b_def)
  note bits = roundTo32_bits [OF n inc, folded a_def b_def, folded c_def]
  have rb: "sig AND 0xFFF = 0x800 \<longleftrightarrow> b = 2 ^ 11" "sig AND 0xFFF = 0 \<longleftrightarrow> b = 0"
    by (simp_all only: word_unat_eq_iff bits(1)) simp_all
  have "unat sig = a * 2 ^ 12 + b" unfolding a_def b_def by (simp only: div_mult_mod_eq)
  then have sig0: "sig = 0 \<longleftrightarrow> a = 0 \<and> b = 0" by (simp add: unat_eq_0 [symmetric])
  define w where "w = (if b = 2 ^ 11 \<and> mode = 0 then drop_bit 12 (sig + inc) AND NOT 1 else drop_bit 12 (sig + inc))"
  have w: "unat w = (if b = 2 ^ 11 \<and> mode = 0 then (a + c) - (a + c) mod 2 else a + c)"
    unfolding w_def by (simp only: if_distrib [of unat] unat_and_not_1 bits(3))
  define Z where "Z = rint (sf_rmode mode) s (real (unat sig) / 2 ^ 12)"
  have Z: "Z = int a + of_bool (case sf_rmode mode of RNE \<Rightarrow> 2 ^ 11 < b \<or> b = 2 ^ 11 \<and> odd a | RTZ \<Rightarrow> False | RDN \<Rightarrow> s \<and> b \<noteq> 0
      | RUP \<Rightarrow> \<not> s \<and> b \<noteq> 0 | RMM \<Rightarrow> 2 ^ 11 \<le> b | ROD \<Rightarrow> b \<noteq> 0 \<and> \<not> odd a)"
    using rint_nat_div [of 12 "sf_rmode mode" s "unat sig"] rnd_up_nat [of "sf_rmode mode" s "odd a" b 11]
    by (simp add: Z_def a_def b_def)
  have ints: "real (unat sig) / 2 ^ 12 \<in> \<int> \<longleftrightarrow> b = 0" by (simp only: Ints_nat_div_pow2 b_def)
  let ?bad = "(2 ^ 32 - 1, softfloat_raiseFlags softfloat_flag_invalid st)"
  have code: "apfst uint (softfloat_roundToUI32 s sig mode exact st) =
     (if \<not> near \<and> s \<and> sig = 0 then (0, st) else if s \<and> (mode = 2 \<or> mode = 6) then ?bad
      else if 2 ^ 32 \<le> a + c then ?bad else if s \<and> w \<noteq> 0 then ?bad
      else (uint (if b \<noteq> 0 \<and> mode = 6 then w OR 1 else w), raise_inexact (b \<noteq> 0 \<and> exact) st))"
    unfolding softfloat_roundToUI32_def Let_def near_def [symmetric] inc_def [symmetric] bits(2) rb w_def [symmetric]
    by (auto simp: near_def)
  have spec: "round_to_int 0 (2 ^ 32 - 1) (2 ^ 32 - 1) (sf_rmode mode) exact s (real (unat sig) / 2 ^ 12) st =
     (if 0 \<le> (if s then - Z else Z) \<and> (if s then - Z else Z) \<le> 2 ^ 32 - 1
      then (if s then - Z else Z, raise_inexact (b \<noteq> 0 \<and> exact) st) else ?bad)"
    by (simp only: round_to_int_def Let_def Z_def ints)
  consider (zero) "\<not> near \<and> s \<and> sig = 0" | (neg) "\<not> (\<not> near \<and> s \<and> sig = 0)" "s \<and> (mode = 2 \<or> mode = 6)"
    | (odd) "mode = 6" "\<not> s" | (other) "\<not> (\<not> near \<and> s \<and> sig = 0)" "mode \<noteq> 6" "\<not> (s \<and> mode = 2)" by auto
  then show ?thesis
  proof cases
    case zero
    then have "Z = 0" by (auto simp: Z sig0 near_def split: rmode.split)
    with zero show ?thesis unfolding code spec by (simp add: raise_inexact_def sig0)
  next
    case neg
    then have "0 < Z" by (auto simp: Z sig0 near_def sf_rmode_def intro: odd_pos)
    with neg show ?thesis unfolding code spec by auto
  next
    case odd
    then have c: "c = 0" using b by (simp add: c_def inc_def near_def)
    have uw: "unat w = a" and Z': "Z = int a + of_bool (b \<noteq> 0 \<and> even a)"
      using odd by (simp_all add: Z w c sf_rmode_def)
    have v: "unat (w OR 1) = a + of_bool (even a)" unfolding unat_or_1 uw by (rule or_one_eq)
    have "even a \<Longrightarrow> a < 2 ^ 32 \<Longrightarrow> a \<le> 2 ^ 32 - 2" by (cases "a = 2 ^ 32 - 1") simp_all
    then show ?thesis
      unfolding code spec if_distrib [of uint] uint_nat Z' c using odd by (cases "even a"; cases "b = 0") (auto simp: v uw)
  next
    case other
    have Z': "Z = int (unat w)"
      unfolding w Z c_def inc_def near_def using other b
      by (cases "b = 2 ^ 11") (auto simp: sf_rmode_def sub_mod2_Suc)
    have le: "2 ^ 32 \<le> a + c \<Longrightarrow> 2 ^ 32 \<le> unat w" unfolding w by (auto intro: even_le_sub_mod2)
    have gt: "\<not> 2 ^ 32 \<le> a + c \<Longrightarrow> unat w < 2 ^ 32" unfolding w by (auto simp: less_imp_diff_less)
    have w0: "w = 0 \<longleftrightarrow> unat w = 0" by (simp add: unat_eq_0)
    show ?thesis
      unfolding code spec Z' w0 using other le gt by (cases "2 ^ 32 \<le> a + c"; cases s) (auto simp: uint_nat)
  qed
qed

subsection \<open>Rounding to 64-bit integers\<close>

lemma sint_signed64:
  fixes w :: u64
  shows "sint (if s then - w else w) =
         (if s then (if unat w \<le> 2 ^ 63 then - int (unat w) else 2 ^ 64 - int (unat w))
          else if unat w < 2 ^ 63 then int (unat w) else int (unat w) - 2 ^ 64)"
proof -
  have p: "w = word_of_int (int (unat w))" by (simp only: word_of_int_uint uint_nat [symmetric])
  have m: "- w = word_of_int (- int (unat w))" by (simp only: wi_hom_neg [symmetric] word_of_int_uint uint_nat [symmetric])
  have s: "sint w = sint (word_of_int (int (unat w)) :: u64)" "sint (- w) = sint (word_of_int (- int (unat w)) :: u64)"
    by (simp_all only: p [symmetric] m)
  show ?thesis
    using unat_bound [of w] sint_word_of_int_range [of "int (unat w)" 0, where 'a = 64] sint_word_of_int_range [of "int (unat w)" 1, where 'a = 64]
      sint_word_of_int_range [of "- int (unat w)" 0, where 'a = 64] sint_word_of_int_range [of "- int (unat w)" "- 1", where 'a = 64]
    by (cases s) (simp_all only: if_True if_False s, simp_all)
qed

lemma unat_incr64:
  fixes sig :: u64
  assumes "incr \<longrightarrow> sig + 1 \<noteq> 0"
  shows "unat (if incr then sig + 1 else sig) = unat sig + of_bool incr"
  using assms by (auto simp: unatSuc add.commute)

lemma extra64_bits:
  fixes ex :: u64
  shows "ex = 0x8000000000000000 \<longleftrightarrow> unat ex = 2 ^ 63" "0x8000000000000000 \<le> ex \<longleftrightarrow> 2 ^ 63 \<le> unat ex" "ex = 0 \<longleftrightarrow> unat ex = 0"
  by (simp_all add: word_unat_eq_iff word_le_nat_alt)

lemma wrap64: "w + 1 = 0 \<Longrightarrow> unat w = 2 ^ 64 - 1" for w :: u64
  by (simp only: eq_neg_iff_add_eq_0 [symmetric]) (simp add: unsigned_minus_1_eq_mask mask_eq_exp_minus_1)

lemma softfloat_roundToI64_nat:
  "softfloat_roundToI64 s sig ex mode exact st =
     round_to_int (- (2 ^ 63)) (2 ^ 63 - 1) (- (2 ^ 63)) (sf_rmode mode) exact s
       (real (unat sig * 2 ^ 64 + unat ex) / 2 ^ 64) st"
proof -
  define a b where "a = unat sig" and "b = unat ex"
  define incr where "incr \<longleftrightarrow> (if mode = 4 \<or> mode = 0 then 2 ^ 63 \<le> b
     else b \<noteq> 0 \<and> (if s then mode = 2 \<or> mode = 6 else mode = 3))"
  have b: "b < 2 ^ 64" and a: "a < 2 ^ 64" using unat_bound [of ex] unat_bound [of sig] by (simp_all add: a_def b_def)
  note ex = extra64_bits [of ex, folded b_def]
  define v where "v = (if incr then sig + 1 else sig)"
  define w where "w = (if incr \<and> b = 2 ^ 63 \<and> mode = 0 then v AND NOT 1 else v)"
  define Z where "Z = rint (sf_rmode mode) s (real (a * 2 ^ 64 + b) / 2 ^ 64)"
  have Z: "Z = int a + of_bool (case sf_rmode mode of RNE \<Rightarrow> 2 ^ 63 < b \<or> b = 2 ^ 63 \<and> odd a | RTZ \<Rightarrow> False | RDN \<Rightarrow> s \<and> b \<noteq> 0
      | RUP \<Rightarrow> \<not> s \<and> b \<noteq> 0 | RMM \<Rightarrow> 2 ^ 63 \<le> b | ROD \<Rightarrow> b \<noteq> 0 \<and> \<not> odd a)"
    using rint_nat_div [of 64 "sf_rmode mode" s "a * 2 ^ 64 + b"] rnd_up_nat [of "sf_rmode mode" s "odd a" b 63] b
    by (simp add: Z_def)
  have ints: "real (a * 2 ^ 64 + b) / 2 ^ 64 \<in> \<int> \<longleftrightarrow> b = 0" using b by (simp only: Ints_nat_div_pow2) simp
  let ?bad = "(- (2 ^ 63), softfloat_raiseFlags softfloat_flag_invalid st)" and ?z = "sint (if s then - w else w)"
  have code: "softfloat_roundToI64 s sig ex mode exact st =
     (if incr \<and> v = 0 then ?bad else if ?z \<noteq> 0 \<and> (?z < 0) \<noteq> s then ?bad
      else (if b \<noteq> 0 \<and> mode = 6 then ?z OR 1 else ?z, raise_inexact (b \<noteq> 0 \<and> exact) st))"
    unfolding softfloat_roundToI64_def Let_def ex incr_def [symmetric] v_def [symmetric] w_def [symmetric] by simp
  have spec: "round_to_int (- (2 ^ 63)) (2 ^ 63 - 1) (- (2 ^ 63)) (sf_rmode mode) exact s (real (a * 2 ^ 64 + b) / 2 ^ 64) st =
     (if - (2 ^ 63) \<le> (if s then - Z else Z) \<and> (if s then - Z else Z) \<le> 2 ^ 63 - 1
      then (if s then - Z else Z, raise_inexact (b \<noteq> 0 \<and> exact) st) else ?bad)"
    by (simp only: round_to_int_def Let_def Z_def ints)
  have "softfloat_roundToI64 s sig ex mode exact st =
    round_to_int (- (2 ^ 63)) (2 ^ 63 - 1) (- (2 ^ 63)) (sf_rmode mode) exact s (real (a * 2 ^ 64 + b) / 2 ^ 64) st"
  proof (cases "incr \<and> v = 0")
    case True
    then have "a = 2 ^ 64 - 1" using wrap64 [of sig] by (auto simp: v_def a_def)
    moreover have "int a \<le> Z" by (simp add: Z)
    ultimately show ?thesis unfolding code spec using True by auto
  next
    case False
    then have v: "unat v = a + of_bool incr" using unat_incr64 [of incr sig] by (simp add: v_def a_def)
    have w: "unat w = (if incr \<and> b = 2 ^ 63 \<and> mode = 0 then (a + of_bool incr) - (a + of_bool incr) mod 2 else a + of_bool incr)"
      unfolding w_def by (simp only: if_distrib [of unat] unat_and_not_1 v)
    have code': "softfloat_roundToI64 s sig ex mode exact st =
      (if ?z \<noteq> 0 \<and> (?z < 0) \<noteq> s then ?bad
       else (if b \<noteq> 0 \<and> mode = 6 then ?z OR 1 else ?z, raise_inexact (b \<noteq> 0 \<and> exact) st))"
      unfolding code using False by (simp only: if_False)
    have uw: "unat w < 2 ^ 64" using unat_bound [of w] by simp
    show ?thesis
    proof (cases "mode = 6")
      case True
      then have Q: "unat w = a + of_bool (s \<and> b \<noteq> 0)" "Z = int a + of_bool (b \<noteq> 0 \<and> even a)"
        unfolding w Z incr_def by (auto simp: sf_rmode_def)
      have "odd a \<Longrightarrow> a \<le> 2 ^ 63 \<Longrightarrow> a \<le> 2 ^ 63 - 1" by (cases "a = 2 ^ 63") simp_all
      with True uw show ?thesis
        unfolding code' spec sint_signed64 Q by (cases s; cases "even a"; cases "b = 0") (auto simp: or_one_eq)
    next
      case m: False
      then have Q: "Z = int (unat w)"
        unfolding w Z incr_def by (cases "b = 2 ^ 63") (auto simp: sf_rmode_def sub_mod2_Suc)
      with m uw show ?thesis
        unfolding code' spec sint_signed64 Q by (cases s) auto
    qed
  qed
  then show ?thesis unfolding a_def b_def .
qed

lemma softfloat_roundToUI64_nat:
  "apfst uint (softfloat_roundToUI64 s sig ex mode exact st) =
     round_to_int 0 (2 ^ 64 - 1) (2 ^ 64 - 1) (sf_rmode mode) exact s (real (unat sig * 2 ^ 64 + unat ex) / 2 ^ 64) st"
proof -
  define a b where "a = unat sig" and "b = unat ex"
  define near where "near \<longleftrightarrow> mode = 4 \<or> mode = 0"
  define incr where "incr \<longleftrightarrow> (if near then 2 ^ 63 \<le> b else \<not> s \<and> mode = 3 \<and> b \<noteq> 0)"
  have b: "b < 2 ^ 64" and a: "a < 2 ^ 64" using unat_bound [of ex] unat_bound [of sig] by (simp_all add: a_def b_def)
  note ex = extra64_bits [of ex, folded b_def]
  have sig0: "sig OR ex = 0 \<longleftrightarrow> a = 0 \<and> b = 0" by (simp only: or_eq_0_iff a_def b_def unat_eq_0)
  define v where "v = (if incr then sig + 1 else sig)"
  define w where "w = (if incr \<and> b = 2 ^ 63 \<and> mode = 0 then v AND NOT 1 else v)"
  define Z where "Z = rint (sf_rmode mode) s (real (a * 2 ^ 64 + b) / 2 ^ 64)"
  have Z: "Z = int a + of_bool (case sf_rmode mode of RNE \<Rightarrow> 2 ^ 63 < b \<or> b = 2 ^ 63 \<and> odd a | RTZ \<Rightarrow> False | RDN \<Rightarrow> s \<and> b \<noteq> 0
      | RUP \<Rightarrow> \<not> s \<and> b \<noteq> 0 | RMM \<Rightarrow> 2 ^ 63 \<le> b | ROD \<Rightarrow> b \<noteq> 0 \<and> \<not> odd a)"
    using rint_nat_div [of 64 "sf_rmode mode" s "a * 2 ^ 64 + b"] rnd_up_nat [of "sf_rmode mode" s "odd a" b 63] b
    by (simp add: Z_def)
  have ints: "real (a * 2 ^ 64 + b) / 2 ^ 64 \<in> \<int> \<longleftrightarrow> b = 0" using b by (simp only: Ints_nat_div_pow2) simp
  let ?bad = "(2 ^ 64 - 1, softfloat_raiseFlags softfloat_flag_invalid st)"
  have code: "apfst uint (softfloat_roundToUI64 s sig ex mode exact st) =
     (if \<not> near \<and> s \<and> a = 0 \<and> b = 0 then (0, st) else if s \<and> (mode = 2 \<or> mode = 6) then ?bad
      else if incr \<and> v = 0 then ?bad else if s \<and> w \<noteq> 0 then ?bad
      else (uint (if b \<noteq> 0 \<and> mode = 6 then w OR 1 else w), raise_inexact (b \<noteq> 0 \<and> exact) st))"
    unfolding softfloat_roundToUI64_def Let_def ex sig0 near_def [symmetric] incr_def [symmetric] v_def [symmetric] w_def [symmetric]
    by (auto simp: near_def)
  have spec: "round_to_int 0 (2 ^ 64 - 1) (2 ^ 64 - 1) (sf_rmode mode) exact s (real (a * 2 ^ 64 + b) / 2 ^ 64) st =
     (if 0 \<le> (if s then - Z else Z) \<and> (if s then - Z else Z) \<le> 2 ^ 64 - 1
      then (if s then - Z else Z, raise_inexact (b \<noteq> 0 \<and> exact) st) else ?bad)"
    by (simp only: round_to_int_def Let_def Z_def ints)
  consider (zero) "\<not> near \<and> s \<and> a = 0 \<and> b = 0" | (neg) "\<not> (\<not> near \<and> s \<and> a = 0 \<and> b = 0)" "s \<and> (mode = 2 \<or> mode = 6)"
    | (odd) "mode = 6" "\<not> s" | (wrap) "mode \<noteq> 6" "\<not> (s \<and> mode = 2)" "incr \<and> v = 0"
    | (other) "\<not> (\<not> near \<and> s \<and> a = 0 \<and> b = 0)" "mode \<noteq> 6" "\<not> (s \<and> mode = 2)" "\<not> (incr \<and> v = 0)" by blast
  then have "apfst uint (softfloat_roundToUI64 s sig ex mode exact st) =
    round_to_int 0 (2 ^ 64 - 1) (2 ^ 64 - 1) (sf_rmode mode) exact s (real (a * 2 ^ 64 + b) / 2 ^ 64) st"
  proof cases
    case zero
    then have "Z = 0" by (auto simp: Z near_def split: rmode.split)
    with zero show ?thesis unfolding code spec by (simp add: raise_inexact_def)
  next
    case neg
    then have "0 < Z" by (auto simp: Z near_def sf_rmode_def intro: odd_pos)
    with neg show ?thesis unfolding code spec by auto
  next
    case odd
    then have i: "\<not> incr" by (simp add: incr_def near_def)
    have uw: "unat w = a" and Z': "Z = int a + of_bool (b \<noteq> 0 \<and> even a)"
      using odd i by (simp_all add: Z w_def v_def a_def sf_rmode_def)
    have v: "unat (w OR 1) = a + of_bool (even a)" unfolding unat_or_1 uw by (rule or_one_eq)
    have "even a \<Longrightarrow> a \<le> 2 ^ 64 - 2" using a by (cases "a = 2 ^ 64 - 1") simp_all
    then show ?thesis
      unfolding code spec if_distrib [of uint] uint_nat Z' using odd i a by (cases "even a"; cases "b = 0") (auto simp: v uw)
  next
    case wrap
    then have "a = 2 ^ 64 - 1" using wrap64 [of sig] by (auto simp: v_def a_def)
    then have "odd a" by simp
    have "mode = 0 \<and> 2 ^ 63 \<le> b \<or> mode = 4 \<and> 2 ^ 63 \<le> b \<or> mode = 3 \<and> \<not> s \<and> b \<noteq> 0"
      using conjunct1 [OF wrap(3)] unfolding incr_def near_def by argo
    then have "Z = int a + 1"
    proof (elim disjE)
      assume "mode = 0 \<and> 2 ^ 63 \<le> b"
      with \<open>odd a\<close> show ?thesis by (auto simp: Z sf_rmode_def)
    qed (simp_all add: Z sf_rmode_def)
    with \<open>a = 2 ^ 64 - 1\<close> show ?thesis unfolding code spec using wrap by (auto simp: near_def)
  next
    case other
    then have v: "unat v = a + of_bool incr" using unat_incr64 [of incr sig] by (simp add: v_def a_def)
    have w: "unat w = (if incr \<and> b = 2 ^ 63 \<and> mode = 0 then (a + of_bool incr) - (a + of_bool incr) mod 2 else a + of_bool incr)"
      unfolding w_def by (simp only: if_distrib [of unat] unat_and_not_1 v)
    have Z': "Z = int (unat w)"
      unfolding w Z incr_def near_def using other b by (cases "b = 2 ^ 63") (auto simp: sf_rmode_def sub_mod2_Suc)
    have w0: "w = 0 \<longleftrightarrow> unat w = 0" by (simp add: unat_eq_0)
    show ?thesis
      unfolding code spec Z' w0 using other unat_bound [of w] by (cases s) (auto simp: uint_nat)
  qed
  then show ?thesis unfolding a_def b_def .
qed

subsection \<open>Significands\<close>

text \<open>The significand with its hidden bit.\<close>

definition hsig :: "nat \<Rightarrow> nat \<Rightarrow> nat" where
  "hsig P m = (if m div 2 ^ P = 0 then m mod 2 ^ P else 2 ^ P + m mod 2 ^ P)"

lemma hsig_less: "hsig P m < 2 * 2 ^ P"
proof -
  have "m mod 2 ^ P < 2 * 2 ^ P" by (rule less_le_trans [of _ "2 ^ P"]) simp_all
  then show ?thesis by (simp add: hsig_def)
qed

lemma hsig_ge: "m div 2 ^ P \<noteq> 0 \<Longrightarrow> 2 ^ P \<le> hsig P m"
  by (simp add: hsig_def)

lemma hsig_eq_0: "hsig P m = 0 \<longleftrightarrow> m = 0"
  by (metis add_is_0 div_mult_mod_eq div_0 hsig_def mod_0 mult_0 power_not_zero zero_neq_numeral)

lemma mval_f32_hsig: "mval f32_fmt m = real (hsig 23 m) * pow2 (int (max 1 (m div 2 ^ 23)) - 150)"
proof (cases "m div 2 ^ 23 = 0")
  case False
  then have "int (m div 2 ^ 23 - 1) - (150 - 1) = int (max 1 (m div 2 ^ 23)) - 150" by linarith
  with False show ?thesis by (simp add: mval_def hsig_def ulp_exp_f32 Let_def)
qed (simp add: mval_def hsig_def ulp_exp_f32 Let_def)

lemma f32_hidden:
  "unat (fracF32UI (ucast a) OR 0x00800000) = 2 ^ 23 + f32_mag a mod 2 ^ 23"
proof -
  have "(0x00800000 :: u64) = 2 ^ 23" by simp
  moreover have "unat (fracF32UI (ucast a) OR 2 ^ 23) = unat (fracF32UI (ucast a)) + 2 ^ 23"
    by (rule unat_or_exp) (simp_all add: f32_fields)
  ultimately show ?thesis by (simp add: f32_fields)
qed

lemma f32_hsig:
  "unat (if expF32UI (ucast a) \<noteq> 0 then fracF32UI (ucast a) OR 0x00800000 else fracF32UI (ucast a)) = hsig 23 (f32_mag a)"
proof -
  have "expF32UI (ucast a) \<noteq> 0 \<longleftrightarrow> f32_mag a div 2 ^ 23 \<noteq> 0" unfolding f32_fields by simp
  then show ?thesis using f32_hidden [of a] by (simp add: f32_fields hsig_def)
qed

text \<open>The magnitude is at least this large when the exponent is.\<close>

lemma mval_f32_ge:
  assumes "150 \<le> 23 + e" "e \<le> f32_mag a div 2 ^ 23"
  shows "2 ^ (23 + e - 150) \<le> mval f32_fmt (f32_mag a)"
proof -
  have "2 ^ 23 \<le> hsig 23 (f32_mag a)" using assms by (intro hsig_ge) linarith
  then have "(2 :: real) ^ 23 \<le> real (hsig 23 (f32_mag a))" by (metis of_nat_le_iff of_nat_numeral of_nat_power)
  moreover have "int e - 150 \<le> int (max 1 (f32_mag a div 2 ^ 23)) - 150" using assms by linarith
  then have "pow2 (int e - 150) \<le> pow2 (int (max 1 (f32_mag a div 2 ^ 23)) - 150)" by (simp only: pow2_le_iff)
  ultimately have "2 ^ 23 * pow2 (int e - 150) \<le> mval f32_fmt (f32_mag a)"
    unfolding mval_f32_hsig by (intro mult_mono) simp_all
  moreover have "2 ^ 23 * pow2 (int e - 150) = 2 ^ (23 + e - 150)"
    using assms pow2_add [of 23 "int e - 150"] pow2_nat [of "23 + e - 150"] by (simp add: of_nat_diff add_diff_eq)
  ultimately show ?thesis by simp
qed

definition f32_to_int ::
  "int \<Rightarrow> int \<Rightarrow> int \<Rightarrow> rmode \<Rightarrow> bool \<Rightarrow> u32 \<Rightarrow> softfloat_state \<Rightarrow> int \<times> softfloat_state" where
  "f32_to_int lo hi bad rm exact a st =
     (if f32_finite a then round_to_int lo hi bad rm exact (f32_sign a) (mval f32_fmt (f32_mag a)) st
      else (bad, softfloat_raiseFlags softfloat_flag_invalid st))"

lemma f32_to_int_large:
  assumes "150 \<le> 23 + e" "e \<le> f32_mag a div 2 ^ 23" "hi < 2 ^ (23 + e - 150)" "- (2 ^ (23 + e - 150)) < lo"
  shows "f32_to_int lo hi bad rm exact a st = (bad, softfloat_raiseFlags softfloat_flag_invalid st)"
  unfolding f32_to_int_def using mval_f32_ge [OF assms(1,2)] round_to_int_large [of "2 ^ (23 + e - 150)" _ hi lo] assms(3,4) by simp

lemma f32_finite_exp_less: "f32_mag a div 2 ^ 23 < 0xFF \<Longrightarrow> f32_finite a"
  by (simp add: f32_classes)

lemma mval_f64_hsig: "mval f64_fmt m = real (hsig 52 m) * pow2 (int (max 1 (m div 2 ^ 52)) - 1075)"
proof (cases "m div 2 ^ 52 = 0")
  case False
  then have "int (m div 2 ^ 52 - 1) - (1075 - 1) = int (max 1 (m div 2 ^ 52)) - 1075" by linarith
  with False show ?thesis by (simp add: mval_def hsig_def ulp_exp_f64 Let_def)
qed (simp add: mval_def hsig_def ulp_exp_f64 Let_def)

lemma f64_hidden:
  "unat (fracF64UI a OR 0x0010000000000000) = 2 ^ 52 + f64_mag a mod 2 ^ 52"
proof -
  have "(0x0010000000000000 :: u64) = 2 ^ 52" by simp
  moreover have "unat (fracF64UI a OR 2 ^ 52) = unat (fracF64UI a) + 2 ^ 52"
    by (rule unat_or_exp) (simp_all add: f64_fields)
  ultimately show ?thesis by (simp add: f64_fields)
qed

lemma f64_hsig:
  "unat (if expF64UI a \<noteq> 0 then fracF64UI a OR 0x0010000000000000 else fracF64UI a) = hsig 52 (f64_mag a)"
proof -
  have "expF64UI a \<noteq> 0 \<longleftrightarrow> f64_mag a div 2 ^ 52 \<noteq> 0" unfolding f64_fields by simp
  then show ?thesis using f64_hidden [of a] by (simp add: f64_fields hsig_def)
qed

text \<open>The magnitude is at least this large when the exponent is.\<close>

lemma mval_f64_ge:
  assumes "1075 \<le> 52 + e" "e \<le> f64_mag a div 2 ^ 52"
  shows "2 ^ (52 + e - 1075) \<le> mval f64_fmt (f64_mag a)"
proof -
  have "2 ^ 52 \<le> hsig 52 (f64_mag a)" using assms by (intro hsig_ge) linarith
  then have "(2 :: real) ^ 52 \<le> real (hsig 52 (f64_mag a))" by (metis of_nat_le_iff of_nat_numeral of_nat_power)
  moreover have "int e - 1075 \<le> int (max 1 (f64_mag a div 2 ^ 52)) - 1075" using assms by linarith
  then have "pow2 (int e - 1075) \<le> pow2 (int (max 1 (f64_mag a div 2 ^ 52)) - 1075)" by (simp only: pow2_le_iff)
  ultimately have "2 ^ 52 * pow2 (int e - 1075) \<le> mval f64_fmt (f64_mag a)"
    unfolding mval_f64_hsig by (intro mult_mono) simp_all
  moreover have "2 ^ 52 * pow2 (int e - 1075) = 2 ^ (52 + e - 1075)"
    using assms pow2_add [of 52 "int e - 1075"] pow2_nat [of "52 + e - 1075"] by (simp add: of_nat_diff add_diff_eq)
  ultimately show ?thesis by simp
qed

definition f64_to_int ::
  "int \<Rightarrow> int \<Rightarrow> int \<Rightarrow> rmode \<Rightarrow> bool \<Rightarrow> u64 \<Rightarrow> softfloat_state \<Rightarrow> int \<times> softfloat_state" where
  "f64_to_int lo hi bad rm exact a st =
     (if f64_finite a then round_to_int lo hi bad rm exact (f64_sign a) (mval f64_fmt (f64_mag a)) st
      else (bad, softfloat_raiseFlags softfloat_flag_invalid st))"

lemma f64_to_int_large:
  assumes "1075 \<le> 52 + e" "e \<le> f64_mag a div 2 ^ 52" "hi < 2 ^ (52 + e - 1075)" "- (2 ^ (52 + e - 1075)) < lo"
  shows "f64_to_int lo hi bad rm exact a st = (bad, softfloat_raiseFlags softfloat_flag_invalid st)"
  unfolding f64_to_int_def using mval_f64_ge [OF assms(1,2)] round_to_int_large [of "2 ^ (52 + e - 1075)" _ hi lo] assms(3,4) by simp

lemma f64_finite_exp_less: "f64_mag a div 2 ^ 52 < 0x7FF \<Longrightarrow> f64_finite a"
  by (simp add: f64_classes)

subsection \<open>The conversions in a given rounding mode\<close>

lemma agree_small: "x = 0 \<and> y = 0 \<or> 0 < x \<and> x < 2 ^ j \<and> 0 < y \<and> y < 2 ^ j \<Longrightarrow> agree j x y"
  using agree_between [of 0 j x y] by auto

lemma jam_agree:
  assumes "int n = rodd x" "0 < j"
  shows "agree j (real n) x"
  using agree_rodd [OF assms(2), of x] assms(1) by (metis of_int_of_nat_eq)

lemma f32_fix12:
  fixes a :: u32
  defines "sig \<equiv> (if expF32UI (ucast a) \<noteq> 0 then fracF32UI (ucast a) OR 0x00800000 else fracF32UI (ucast a))"
  defines "d \<equiv> 0xAA - expF32UI (ucast a)"
  defines "sig64 \<equiv> (if 0 < d then softfloat_shiftRightJam64 (push_bit 32 sig) (word_of_int d) else push_bit 32 sig)"
  assumes "- (2 ^ 40) < lo" "hi < 2 ^ 40"
  shows "unat sig64 < 2 ^ 63"
    and "round_to_int lo hi bad rm exact (f32_sign a) (real (unat sig64) / 2 ^ 12) st = f32_to_int lo hi bad rm exact a st"
proof -
  define e where "e = f32_mag a div 2 ^ 23"
  define N where "N = hsig 23 (f32_mag a)"
  have N: "unat sig = N" unfolding sig_def N_def by (rule f32_hsig)
  have Nlt: "N < 2 * 2 ^ 23" unfolding N_def by (rule hsig_less)
  have d: "d = 170 - int e" unfolding d_def e_def f32_fields by simp
  let ?M = "N * 2 ^ 32" and ?w = "push_bit 32 sig"
  have M: "unat ?w = ?M" using Nlt by (subst unat_push_bit) (simp_all add: N)
  have "unat sig64 < 2 ^ 63 \<and> round_to_int lo hi bad rm exact (f32_sign a) (real (unat sig64) / 2 ^ 12) st = f32_to_int lo hi bad rm exact a st"
  proof (cases "0 < d")
    case True
    then have sig64: "sig64 = softfloat_shiftRightJam64 ?w (word_of_int d)" by (simp add: sig64_def)
    let ?x = "real ?M / 2 ^ nat d" and ?y = "mval f32_fmt (f32_mag a) * 2 ^ 12"
    have jam: "int (unat sig64) = rodd ?x"
      unfolding sig64 M [symmetric] using True d by (intro jam64_rodd) simp_all
    have x: "?x = real N * pow2 (int e - 138)"
    proof -
      have "pow2 (32 - d) = 2 ^ 32 / 2 ^ nat d" using True pow2_diff [of "32" d] pow2_nat [of "nat d"] by simp
      then show ?thesis by (simp add: d)
    qed
    have ag: "agree 11 (real (unat sig64)) ?y"
    proof (cases "e = 0")
      case False
      then have "int (max 1 e) = int e" by simp
      then have "?y = ?x" unfolding x mval_f32_hsig N_def [symmetric] e_def [symmetric]
        using pow2_add [of "int e - 150" 12] by simp
      then show ?thesis using jam_agree [OF jam, of 11] by simp
    next
      case True
      have "real N < real (2 * 2 ^ 23)" using Nlt by (simp only: of_nat_less_iff)
      then have Nr: "real N * 1 < 2 ^ 24" by simp
      have y: "?y = real N * pow2 (- (150 - 13))"
        unfolding mval_f32_hsig N_def [symmetric] e_def [symmetric] True using pow2_add [of "- (150 - 1)" 12] by simp
      have y2: "?x = real N * pow2 (- 138)" using True x by simp
      have *: "real N * pow2 k < 2 ^ 11" if "k \<le> - 50" for k
      proof -
        have "pow2 k \<le> pow2 (- 50)" using that by (simp only: pow2_le_iff)
        then have "real N * pow2 k \<le> 2 ^ 24 * pow2 (- 50)" using Nr by (intro mult_mono) simp_all
        also have "\<dots> < 2 ^ 11" by (simp add: power_int_def power_one_over field_simps)
        finally show ?thesis .
      qed
      have **: "real N * pow2 k = 0 \<longleftrightarrow> N = 0" "0 < real N * pow2 k \<longleftrightarrow> N \<noteq> 0" for k by (simp_all add: zero_less_mult_iff)
      have "agree 11 ?x ?y"
        unfolding y y2 using * [of "- (150 - 13)"] * [of "- 138"]
        by (intro agree_small) (cases "N = 0"; simp add: zero_less_mult_iff)
      then show ?thesis using agree_trans [OF jam_agree [OF jam, of 11]] by simp
    qed
    have "e < 170" using True d by linarith
    then have "f32_finite a" unfolding e_def by (intro f32_finite_exp_less) simp
    then have "round_to_int lo hi bad rm exact (f32_sign a) (real (unat sig64) / 2 ^ Suc 11) st = f32_to_int lo hi bad rm exact a st"
      unfolding round_to_int_agree [OF ag] by (simp add: f32_to_int_def)
    moreover have "unat sig64 < 2 ^ 63"
    proof -
      have "1 \<le> nat d" using True by linarith
      then have "(2 :: real) ^ 1 \<le> 2 ^ nat d" by (rule power_increasing) simp
      moreover have "real ?M < real (2 ^ 63)" using Nlt by (simp only: of_nat_less_iff) simp
      ultimately have "?x < 2 ^ 62" by (simp add: pos_divide_less_eq)
      then have "rodd ?x \<le> 2 ^ 62" unfolding rodd_def by (intro rint_le_of_int) simp
      then have "int (unat sig64) < int (2 ^ 63)" unfolding jam by simp
      then show ?thesis by (simp only: of_nat_less_iff)
    qed
    ultimately show ?thesis by simp
  next
    case False
    then have sig64: "unat sig64 = ?M" by (simp add: sig64_def M)
    have e: "170 \<le> e" using False d by linarith
    then have "2 ^ 23 \<le> N" unfolding N_def e_def by (intro hsig_ge) linarith
    then have "real (2 ^ 52) \<le> real ?M" by (simp only: of_nat_le_iff) simp
    then have "real_of_int (2 ^ 40) \<le> real (unat sig64) / 2 ^ 12" unfolding sig64 by simp
    then have "round_to_int lo hi bad rm exact (f32_sign a) (real (unat sig64) / 2 ^ 12) st = (bad, softfloat_raiseFlags softfloat_flag_invalid st)"
      using assms by (intro round_to_int_large) simp_all
    moreover have "f32_to_int lo hi bad rm exact a st = (bad, softfloat_raiseFlags softfloat_flag_invalid st)"
      using assms(4,5) e unfolding e_def by (intro f32_to_int_large [of "170"]) simp_all
    ultimately show ?thesis using Nlt by (simp add: sig64)
  qed
  then show "unat sig64 < 2 ^ 63"
    "round_to_int lo hi bad rm exact (f32_sign a) (real (unat sig64) / 2 ^ 12) st = f32_to_int lo hi bad rm exact a st" by blast+
qed

lemma f64_fix12:
  fixes a :: u64
  defines "sig \<equiv> (if expF64UI a \<noteq> 0 then fracF64UI a OR 0x0010000000000000 else fracF64UI a)"
  defines "d \<equiv> 0x427 - expF64UI a"
  defines "sig64 \<equiv> (if 0 < d then softfloat_shiftRightJam64 (sig) (word_of_int d) else sig)"
  assumes "- (2 ^ 40) < lo" "hi < 2 ^ 40"
  shows "unat sig64 < 2 ^ 63"
    and "round_to_int lo hi bad rm exact (f64_sign a) (real (unat sig64) / 2 ^ 12) st = f64_to_int lo hi bad rm exact a st"
proof -
  define e where "e = f64_mag a div 2 ^ 52"
  define N where "N = hsig 52 (f64_mag a)"
  have N: "unat sig = N" unfolding sig_def N_def by (rule f64_hsig)
  have Nlt: "N < 2 * 2 ^ 52" unfolding N_def by (rule hsig_less)
  have d: "d = 1063 - int e" unfolding d_def e_def f64_fields by simp
  let ?M = "N * 2 ^ 0" and ?w = "sig"
  have M: "unat ?w = ?M" using Nlt by (simp add: N)
  have "unat sig64 < 2 ^ 63 \<and> round_to_int lo hi bad rm exact (f64_sign a) (real (unat sig64) / 2 ^ 12) st = f64_to_int lo hi bad rm exact a st"
  proof (cases "0 < d")
    case True
    then have sig64: "sig64 = softfloat_shiftRightJam64 ?w (word_of_int d)" by (simp add: sig64_def)
    let ?x = "real ?M / 2 ^ nat d" and ?y = "mval f64_fmt (f64_mag a) * 2 ^ 12"
    have jam: "int (unat sig64) = rodd ?x"
      unfolding sig64 M [symmetric] using True d by (intro jam64_rodd) simp_all
    have x: "?x = real N * pow2 (int e - 1063)"
    proof -
      have "pow2 (0 - d) = 2 ^ 0 / 2 ^ nat d" using True pow2_diff [of "0" d] pow2_nat [of "nat d"] by simp
      then show ?thesis by (simp add: d)
    qed
    have ag: "agree 11 (real (unat sig64)) ?y"
    proof (cases "e = 0")
      case False
      then have "int (max 1 e) = int e" by simp
      then have "?y = ?x" unfolding x mval_f64_hsig N_def [symmetric] e_def [symmetric]
        using pow2_add [of "int e - 1075" 12] by simp
      then show ?thesis using jam_agree [OF jam, of 11] by simp
    next
      case True
      have "real N < real (2 * 2 ^ 52)" using Nlt by (simp only: of_nat_less_iff)
      then have Nr: "real N * 1 < 2 ^ 53" by simp
      have y: "?y = real N * pow2 (- (1075 - 13))"
        unfolding mval_f64_hsig N_def [symmetric] e_def [symmetric] True using pow2_add [of "- (1075 - 1)" 12] by simp
      have y2: "?x = real N * pow2 (- 1063)" using True x by simp
      have *: "real N * pow2 k < 2 ^ 11" if "k \<le> - 50" for k
      proof -
        have "pow2 k \<le> pow2 (- 50)" using that by (simp only: pow2_le_iff)
        then have "real N * pow2 k \<le> 2 ^ 53 * pow2 (- 50)" using Nr by (intro mult_mono) simp_all
        also have "\<dots> < 2 ^ 11" by (simp add: power_int_def power_one_over field_simps)
        finally show ?thesis .
      qed
      have **: "real N * pow2 k = 0 \<longleftrightarrow> N = 0" "0 < real N * pow2 k \<longleftrightarrow> N \<noteq> 0" for k by (simp_all add: zero_less_mult_iff)
      have "agree 11 ?x ?y"
        unfolding y y2 using * [of "- (1075 - 13)"] * [of "- 1063"]
        by (intro agree_small) (cases "N = 0"; simp add: zero_less_mult_iff)
      then show ?thesis using agree_trans [OF jam_agree [OF jam, of 11]] by simp
    qed
    have "e < 1063" using True d by linarith
    then have "f64_finite a" unfolding e_def by (intro f64_finite_exp_less) simp
    then have "round_to_int lo hi bad rm exact (f64_sign a) (real (unat sig64) / 2 ^ Suc 11) st = f64_to_int lo hi bad rm exact a st"
      unfolding round_to_int_agree [OF ag] by (simp add: f64_to_int_def)
    moreover have "unat sig64 < 2 ^ 63"
    proof -
      have "1 \<le> nat d" using True by linarith
      then have "(2 :: real) ^ 1 \<le> 2 ^ nat d" by (rule power_increasing) simp
      moreover have "real ?M < real (2 ^ 63)" using Nlt by (simp only: of_nat_less_iff) simp
      ultimately have "?x < 2 ^ 62" by (simp add: pos_divide_less_eq)
      then have "rodd ?x \<le> 2 ^ 62" unfolding rodd_def by (intro rint_le_of_int) simp
      then have "int (unat sig64) < int (2 ^ 63)" unfolding jam by simp
      then show ?thesis by (simp only: of_nat_less_iff)
    qed
    ultimately show ?thesis by simp
  next
    case False
    then have sig64: "unat sig64 = ?M" by (simp add: sig64_def M)
    have e: "1063 \<le> e" using False d by linarith
    then have "2 ^ 52 \<le> N" unfolding N_def e_def by (intro hsig_ge) linarith
    then have "real (2 ^ 52) \<le> real ?M" by (simp only: of_nat_le_iff) simp
    then have "real_of_int (2 ^ 40) \<le> real (unat sig64) / 2 ^ 12" unfolding sig64 by simp
    then have "round_to_int lo hi bad rm exact (f64_sign a) (real (unat sig64) / 2 ^ 12) st = (bad, softfloat_raiseFlags softfloat_flag_invalid st)"
      using assms by (intro round_to_int_large) simp_all
    moreover have "f64_to_int lo hi bad rm exact a st = (bad, softfloat_raiseFlags softfloat_flag_invalid st)"
      using assms(4,5) e unfolding e_def by (intro f64_to_int_large [of "1063"]) simp_all
    ultimately show ?thesis using Nlt by (simp add: sig64)
  qed
  then show "unat sig64 < 2 ^ 63"
    "round_to_int lo hi bad rm exact (f64_sign a) (real (unat sig64) / 2 ^ 12) st = f64_to_int lo hi bad rm exact a st" by blast+
qed

theorem f32_to_i32_round:
  "f32_to_i32 a mode exact st = f32_to_int (- (2 ^ 31)) (2 ^ 31 - 1) (- (2 ^ 31)) (sf_rmode mode) exact a st"
proof -
  have b: "- (2 ^ 40) < (- (2 ^ 31) :: int)" "2 ^ 31 - 1 < (2 ^ 40 :: int)" by simp_all
  show ?thesis
    unfolding f32_to_i32_def Let_def f32_fields(1) softfloat_roundToI32_nat [OF f32_fix12(1) [where a = a, OF b]]
    by (rule f32_fix12(2) [OF b])
qed

theorem f32_to_ui32_round:
  "apfst uint (f32_to_ui32 a mode exact st) = f32_to_int 0 (2 ^ 32 - 1) (2 ^ 32 - 1) (sf_rmode mode) exact a st"
proof -
  have b: "- (2 ^ 40) < (0 :: int)" "2 ^ 32 - 1 < (2 ^ 40 :: int)" by simp_all
  show ?thesis
    unfolding f32_to_ui32_def Let_def f32_fields(1) softfloat_roundToUI32_nat [OF f32_fix12(1) [where a = a, OF b]]
    by (rule f32_fix12(2) [OF b])
qed

theorem f64_to_i32_round:
  "f64_to_i32 a mode exact st = f64_to_int (- (2 ^ 31)) (2 ^ 31 - 1) (- (2 ^ 31)) (sf_rmode mode) exact a st"
proof -
  have b: "- (2 ^ 40) < (- (2 ^ 31) :: int)" "2 ^ 31 - 1 < (2 ^ 40 :: int)" by simp_all
  show ?thesis
    unfolding f64_to_i32_def Let_def f64_fields(1) softfloat_roundToI32_nat [OF f64_fix12(1) [where a = a, OF b]]
    by (rule f64_fix12(2) [OF b])
qed

theorem f64_to_ui32_round:
  "apfst uint (f64_to_ui32 a mode exact st) = f64_to_int 0 (2 ^ 32 - 1) (2 ^ 32 - 1) (sf_rmode mode) exact a st"
proof -
  have b: "- (2 ^ 40) < (0 :: int)" "2 ^ 32 - 1 < (2 ^ 40 :: int)" by simp_all
  show ?thesis
    unfolding f64_to_ui32_def Let_def f64_fields(1) softfloat_roundToUI32_nat [OF f64_fix12(1) [where a = a, OF b]]
    by (rule f64_fix12(2) [OF b])
qed

text \<open>
  The shift that keeps the lost bits in a second word: together they agree with the exact
  quotient, scaled by \<open>2 ^ 64\<close>, above the bit that decides a tie.
\<close>

lemma shiftRightJam64Extra_agree:
  fixes a :: u64
  assumes d: "0 < d" "d < 2 ^ 64"
  defines "z \<equiv> softfloat_shiftRightJam64Extra a 0 (word_of_int d)"
  shows "agree 63 (real (unat (ext_v z) * 2 ^ 64 + unat (ext_extra z))) (real (unat a) * 2 ^ 64 / 2 ^ nat d)"
proof -
  have ud: "unat (word_of_int d :: u64) = nat d" using d by (intro unat_word_of_int) simp_all
  have less: "(word_of_int d :: u64) < 64 \<longleftrightarrow> nat d < 64" "(word_of_int d :: u64) = 64 \<longleftrightarrow> nat d = 64"
    by (simp_all add: word_less_nat_alt word_unat_eq_iff ud)
  consider (short) "nat d < 64" | (mid) "nat d = 64" | (long) "64 < nat d" by linarith
  then show ?thesis
  proof cases
    case short
    have "(63 :: u64) = mask 6" by (simp add: mask_eq_exp_minus_1)
    then have sh: "unat (- (word_of_int d :: u64) AND 63) = 64 - nat d" using short d neg_and_mask [of "word_of_int d :: u64" 6] by (simp add: ud)
    have z: "z = \<lparr>ext_extra = push_bit (64 - nat d) a, ext_v = drop_bit (nat d) a\<rparr>"
      using short less by (simp add: z_def softfloat_shiftRightJam64Extra_def ud sh)
    have "unat (push_bit (64 - nat d) a) = unat a * 2 ^ (64 - nat d) mod 2 ^ 64"
      by (simp only: unsigned_push_bit_eq) (simp add: push_bit_eq_mult take_bit_eq_mod)
    also have "\<dots> = unat a mod 2 ^ nat d * 2 ^ (64 - nat d)"
    proof -
      have "(2 :: nat) ^ 64 = 2 ^ nat d * 2 ^ (64 - nat d)" using short by (simp only: power_add [symmetric]) simp
      then show ?thesis by (simp only: mult_mod_left)
    qed
    finally have ex: "unat (push_bit (64 - nat d) a) = unat a mod 2 ^ nat d * 2 ^ (64 - nat d)" .
    have "(2 :: real) ^ 64 = 2 ^ nat d * 2 ^ (64 - nat d)" using short by (simp only: power_add [symmetric]) simp
    moreover have "real (unat a) = real (unat a div 2 ^ nat d) * 2 ^ nat d + real (unat a mod 2 ^ nat d)"
      using arg_cong [OF div_mult_mod_eq [of "unat a" "2 ^ nat d"], of real] by simp
    moreover have "(q * D + r) * (D * E) / D = q * (D * E) + r * E" if "D \<noteq> 0" for q D r E :: real
      using that by (simp add: field_simps)
    ultimately have "real (unat a) * 2 ^ 64 / 2 ^ nat d =
      real (unat a div 2 ^ nat d) * 2 ^ 64 + real (unat a mod 2 ^ nat d) * 2 ^ (64 - nat d)"
      by (simp only: power_not_zero zero_neq_numeral not_False_eq_True)
    then have "real (unat (ext_v z) * 2 ^ 64 + unat (ext_extra z)) = real (unat a) * 2 ^ 64 / 2 ^ nat d"
      unfolding z by (simp add: ex nat_of_word)
    then show ?thesis by simp
  next
    case mid
    then have "z = \<lparr>ext_extra = a, ext_v = 0\<rparr>"
      using less by (simp add: z_def softfloat_shiftRightJam64Extra_def)
    with mid show ?thesis by simp
  next
    case long
    then have z: "z = \<lparr>ext_extra = of_bool (a \<noteq> 0), ext_v = 0\<rparr>"
      using less by (simp add: z_def softfloat_shiftRightJam64Extra_def)
    have "(2 :: real) ^ 65 \<le> 2 ^ nat d" using long by (intro power_increasing) simp_all
    moreover have "real (unat a) < real (2 ^ 64)" using unat_bound [of a] by (simp only: of_nat_less_iff) simp
    ultimately have "real (unat a) * 2 ^ 64 < 2 ^ 63 * 2 ^ nat d" by simp
    then have "real (unat a) * 2 ^ 64 / 2 ^ nat d < 2 ^ 63" by (simp add: pos_divide_less_eq)
    then show ?thesis
      by (cases "a = 0") (auto intro!: agree_small simp: z unat_gt_0)
  qed
qed

lemma f32_fix64:
  assumes d: "0 < d" "d = 190 - int (f32_mag a div 2 ^ 23)" and w: "unat w = hsig 23 (f32_mag a) * 2 ^ 40"
  defines "z \<equiv> softfloat_shiftRightJam64Extra w 0 (word_of_int d)"
  shows "agree 63 (real (unat (ext_v z) * 2 ^ 64 + unat (ext_extra z))) (mval f32_fmt (f32_mag a) * 2 ^ 64)"
proof -
  define e where "e = f32_mag a div 2 ^ 23"
  define N where "N = hsig 23 (f32_mag a)"
  have d': "d = 190 - int e" using d(2) by (simp add: e_def)
  let ?x = "real (unat w) * 2 ^ 64 / 2 ^ nat d" and ?y = "mval f32_fmt (f32_mag a) * 2 ^ 64"
  have ag: "agree 63 (real (unat (ext_v z) * 2 ^ 64 + unat (ext_extra z))) ?x"
    unfolding z_def using d(1) d' by (intro shiftRightJam64Extra_agree) simp_all
  have x: "?x = real N * pow2 (int e - 86)"
  proof -
    have "pow2 (104 - d) = 2 ^ 104 / 2 ^ nat d" using d(1) pow2_diff [of "104" d] pow2_nat [of "nat d"] by simp
    then show ?thesis unfolding w N_def [symmetric] by (simp add: d')
  qed
  have "agree 63 ?x ?y"
  proof (cases "e = 0")
    case False
    then have "int (max 1 e) = int e" by simp
    then have "?y = ?x" unfolding x mval_f32_hsig N_def [symmetric] e_def [symmetric]
      using pow2_add [of "int e - 150" 64] by simp
    then show ?thesis by simp
  next
    case True
    have "N < 2 * 2 ^ 23" unfolding N_def by (rule hsig_less)
    then have "real N < real (2 * 2 ^ 23)" by (simp only: of_nat_less_iff)
    then have Nr: "real N < 2 ^ 24" by simp
    have y: "?y = real N * pow2 (- (150 - 65))"
      unfolding mval_f32_hsig N_def [symmetric] e_def [symmetric] True using pow2_add [of "- (150 - 1)" 64] by simp
    have y2: "?x = real N * pow2 (- 86)" using True x by simp
    have *: "real N * pow2 k < 2 ^ 63" if "k \<le> 0" for k
    proof -
      have "pow2 k \<le> pow2 0" using that by (simp only: pow2_le_iff)
      then have "real N * pow2 k \<le> 2 ^ 24 * 1" using Nr by (intro mult_mono) simp_all
      also have "\<dots> < 2 ^ 63" by simp
      finally show ?thesis .
    qed
    show ?thesis
      unfolding y y2 using * [of "- (150 - 65)"] * [of "- 86"]
      by (intro agree_small) (cases "N = 0"; simp add: zero_less_mult_iff)
  qed
  with ag show ?thesis by (rule agree_trans)
qed

lemma f32_fix64_round:
  assumes ag: "agree 63 (real n) (mval f32_fmt (f32_mag a) * 2 ^ 64)" and fin: "f32_mag a div 2 ^ 23 < 0xFF"
  shows "round_to_int lo hi bad rm exact (f32_sign a) (real n / 2 ^ 64) st = f32_to_int lo hi bad rm exact a st"
  using round_to_int_agree [OF ag, of lo hi bad rm exact "f32_sign a" st] f32_finite_exp_less [OF fin] by (simp add: f32_to_int_def)

lemma f32_to_64_cases:
  fixes a :: u32 and st :: softfloat_state
  assumes lo: "- (2 ^ 64) < lo" "hi < 2 ^ 64"
  defines "e \<equiv> expF32UI (ucast a)"
  defines "sig64 \<equiv> push_bit 40 (if e \<noteq> 0 then fracF32UI (ucast a) OR 0x00800000 else fracF32UI (ucast a))"
  defines "z \<equiv> (if 0xBE - e \<noteq> 0 then softfloat_shiftRightJam64Extra sig64 0 (word_of_int (0xBE - e)) else \<lparr>ext_extra = 0, ext_v = sig64\<rparr>)"
  shows "0xBE - e < 0 \<Longrightarrow> f32_to_int lo hi bad rm exact a st = (bad, softfloat_raiseFlags softfloat_flag_invalid st)"
    and "\<not> 0xBE - e < 0 \<Longrightarrow>
      round_to_int lo hi bad rm exact (f32_sign a) (real (unat (ext_v z) * 2 ^ 64 + unat (ext_extra z)) / 2 ^ 64) st
      = f32_to_int lo hi bad rm exact a st"
proof -
  have e: "e = int (f32_mag a div 2 ^ 23)" unfolding e_def by (simp only: f32_fields)
  show "f32_to_int lo hi bad rm exact a st = (bad, softfloat_raiseFlags softfloat_flag_invalid st)" if "0xBE - e < 0"
    using that lo e by (intro f32_to_int_large [of 191]) simp_all
  have "hsig 23 (f32_mag a) < 2 * 2 ^ 23" by (rule hsig_less)
  then have sig: "unat sig64 = hsig 23 (f32_mag a) * 2 ^ 40"
    unfolding sig64_def e_def f32_hsig [symmetric] by (intro unat_push_bit) simp
  show "round_to_int lo hi bad rm exact (f32_sign a) (real (unat (ext_v z) * 2 ^ 64 + unat (ext_extra z)) / 2 ^ 64) st
      = f32_to_int lo hi bad rm exact a st" if ge: "\<not> 0xBE - e < 0"
  proof (rule f32_fix64_round)
    show "f32_mag a div 2 ^ 23 < 0xFF" using ge e by linarith
    show "agree 63 (real (unat (ext_v z) * 2 ^ 64 + unat (ext_extra z))) (mval f32_fmt (f32_mag a) * 2 ^ 64)"
    proof (cases "0xBE - e = 0")
      case True
      then have "f32_mag a div 2 ^ 23 = 190" using e by linarith
      then have "mval f32_fmt (f32_mag a) = real (unat sig64)" by (simp add: mval_f32_hsig sig)
      with True show ?thesis by (simp add: z_def)
    next
      case False
      with ge e sig show ?thesis by (simp only: z_def if_True not_False_eq_True) (rule f32_fix64, simp_all)
    qed
  qed
qed

lemma f64_fix64:
  assumes d: "0 < d" "d = 1075 - int (f64_mag a div 2 ^ 52)" and w: "unat w = hsig 52 (f64_mag a) * 2 ^ 0"
  defines "z \<equiv> softfloat_shiftRightJam64Extra w 0 (word_of_int d)"
  shows "agree 63 (real (unat (ext_v z) * 2 ^ 64 + unat (ext_extra z))) (mval f64_fmt (f64_mag a) * 2 ^ 64)"
proof -
  define e where "e = f64_mag a div 2 ^ 52"
  define N where "N = hsig 52 (f64_mag a)"
  have d': "d = 1075 - int e" using d(2) by (simp add: e_def)
  let ?x = "real (unat w) * 2 ^ 64 / 2 ^ nat d" and ?y = "mval f64_fmt (f64_mag a) * 2 ^ 64"
  have ag: "agree 63 (real (unat (ext_v z) * 2 ^ 64 + unat (ext_extra z))) ?x"
    unfolding z_def using d(1) d' by (intro shiftRightJam64Extra_agree) simp_all
  have x: "?x = real N * pow2 (int e - 1011)"
  proof -
    have "pow2 (64 - d) = 2 ^ 64 / 2 ^ nat d" using d(1) pow2_diff [of "64" d] pow2_nat [of "nat d"] by simp
    then show ?thesis unfolding w N_def [symmetric] by (simp add: d')
  qed
  have "agree 63 ?x ?y"
  proof (cases "e = 0")
    case False
    then have "int (max 1 e) = int e" by simp
    then have "?y = ?x" unfolding x mval_f64_hsig N_def [symmetric] e_def [symmetric]
      using pow2_add [of "int e - 1075" 64] by simp
    then show ?thesis by simp
  next
    case True
    have "N < 2 * 2 ^ 52" unfolding N_def by (rule hsig_less)
    then have "real N < real (2 * 2 ^ 52)" by (simp only: of_nat_less_iff)
    then have Nr: "real N < 2 ^ 53" by simp
    have y: "?y = real N * pow2 (- (1075 - 65))"
      unfolding mval_f64_hsig N_def [symmetric] e_def [symmetric] True using pow2_add [of "- (1075 - 1)" 64] by simp
    have y2: "?x = real N * pow2 (- 1011)" using True x by simp
    have *: "real N * pow2 k < 2 ^ 63" if "k \<le> 0" for k
    proof -
      have "pow2 k \<le> pow2 0" using that by (simp only: pow2_le_iff)
      then have "real N * pow2 k \<le> 2 ^ 53 * 1" using Nr by (intro mult_mono) simp_all
      also have "\<dots> < 2 ^ 63" by simp
      finally show ?thesis .
    qed
    show ?thesis
      unfolding y y2 using * [of "- (1075 - 65)"] * [of "- 1011"]
      by (intro agree_small) (cases "N = 0"; simp add: zero_less_mult_iff)
  qed
  with ag show ?thesis by (rule agree_trans)
qed

lemma f64_fix64_round:
  assumes ag: "agree 63 (real n) (mval f64_fmt (f64_mag a) * 2 ^ 64)" and fin: "f64_mag a div 2 ^ 52 < 0x7FF"
  shows "round_to_int lo hi bad rm exact (f64_sign a) (real n / 2 ^ 64) st = f64_to_int lo hi bad rm exact a st"
  using round_to_int_agree [OF ag, of lo hi bad rm exact "f64_sign a" st] f64_finite_exp_less [OF fin] by (simp add: f64_to_int_def)

lemma f64_to_64_cases:
  fixes a :: u64 and st :: softfloat_state
  assumes lo: "- (2 ^ 64) < lo" "hi < 2 ^ 64"
  defines "e \<equiv> expF64UI a"
  defines "sig \<equiv> (if e \<noteq> 0 then fracF64UI a OR 0x0010000000000000 else fracF64UI a)"
  defines "z \<equiv> (if 0x433 - e \<le> 0 then \<lparr>ext_extra = 0, ext_v = push_bit (nat (- (0x433 - e))) sig\<rparr>
    else softfloat_shiftRightJam64Extra sig 0 (word_of_int (0x433 - e)))"
  shows "0x433 - e \<le> 0 \<and> 0x433 - e < - 11 \<Longrightarrow> f64_to_int lo hi bad rm exact a st = (bad, softfloat_raiseFlags softfloat_flag_invalid st)"
    and "\<not> (0x433 - e \<le> 0 \<and> 0x433 - e < - 11) \<Longrightarrow>
      round_to_int lo hi bad rm exact (f64_sign a) (real (unat (ext_v z) * 2 ^ 64 + unat (ext_extra z)) / 2 ^ 64) st
      = f64_to_int lo hi bad rm exact a st"
proof -
  have e: "e = int (f64_mag a div 2 ^ 52)" unfolding e_def by (simp only: f64_fields)
  show "f64_to_int lo hi bad rm exact a st = (bad, softfloat_raiseFlags softfloat_flag_invalid st)" if "0x433 - e \<le> 0 \<and> 0x433 - e < - 11"
    using that lo e by (intro f64_to_int_large [of 1087]) simp_all
  have less: "hsig 52 (f64_mag a) < 2 * 2 ^ 52" by (rule hsig_less)
  have sig: "unat sig = hsig 52 (f64_mag a)" unfolding sig_def e_def by (rule f64_hsig)
  show "round_to_int lo hi bad rm exact (f64_sign a) (real (unat (ext_v z) * 2 ^ 64 + unat (ext_extra z)) / 2 ^ 64) st
      = f64_to_int lo hi bad rm exact a st" if ge: "\<not> (0x433 - e \<le> 0 \<and> 0x433 - e < - 11)"
  proof (rule f64_fix64_round)
    show "f64_mag a div 2 ^ 52 < 0x7FF" using ge e by linarith
    show "agree 63 (real (unat (ext_v z) * 2 ^ 64 + unat (ext_extra z))) (mval f64_fmt (f64_mag a) * 2 ^ 64)"
    proof (cases "0x433 - e \<le> 0")
      case True
      define k where "k = nat (- (0x433 - e))"
      have k: "k \<le> 11" "e = 1075 + int k" using True ge by (simp_all add: k_def)
      have "(2 :: nat) ^ k \<le> 2 ^ 11" using k by (intro power_increasing) simp_all
      then have "unat sig * 2 ^ k < 2 * 2 ^ 52 * 2 ^ 11" using less unfolding sig by (intro mult_less_le_imp_less) simp_all
      then have "unat (push_bit k sig) = unat sig * 2 ^ k" by (intro unat_push_bit) simp
      moreover have "f64_mag a div 2 ^ 52 = 1075 + k" using k e by linarith
      then have "mval f64_fmt (f64_mag a) = real (unat sig * 2 ^ k)" by (simp add: mval_f64_hsig sig)
      moreover have "z = \<lparr>ext_extra = 0, ext_v = push_bit k sig\<rparr>" using True by (simp only: z_def k_def if_True)
      ultimately show ?thesis by simp
    next
      case False
      with ge e sig show ?thesis by (simp only: z_def if_False) (rule f64_fix64, simp_all)
    qed
  qed
qed

theorem f32_to_i64_round:
  "f32_to_i64 a mode exact st = f32_to_int (- (2 ^ 63)) (2 ^ 63 - 1) (- (2 ^ 63)) (sf_rmode mode) exact a st"
proof -
  have b: "- (2 ^ 64) < (- (2 ^ 63) :: int)" "2 ^ 63 - 1 < (2 ^ 64 :: int)" by simp_all
  note cs = f32_to_64_cases [OF b, of a "- (2 ^ 63)" "sf_rmode mode" exact st]
  show ?thesis
  proof (cases "0xBE - expF32UI (ucast a) < 0")
    case True
    then show ?thesis unfolding cs(1) [OF True] f32_to_i64_def Let_def by (simp only: if_True) simp
  next
    case False
    then show ?thesis unfolding cs(2) [OF False, symmetric] f32_to_i64_def Let_def f32_fields(1)
      by (simp only: if_False softfloat_roundToI64_nat)
  qed
qed

theorem f32_to_ui64_round:
  "apfst uint (f32_to_ui64 a mode exact st) = f32_to_int 0 (2 ^ 64 - 1) (2 ^ 64 - 1) (sf_rmode mode) exact a st"
proof -
  have b: "- (2 ^ 64) < (0 :: int)" "2 ^ 64 - 1 < (2 ^ 64 :: int)" by simp_all
  note cs = f32_to_64_cases [OF b, of a "2 ^ 64 - 1" "sf_rmode mode" exact st]
  show ?thesis
  proof (cases "0xBE - expF32UI (ucast a) < 0")
    case True
    then show ?thesis unfolding cs(1) [OF True] f32_to_ui64_def Let_def by (simp only: if_True) simp
  next
    case False
    then show ?thesis unfolding cs(2) [OF False, symmetric] f32_to_ui64_def Let_def f32_fields(1)
      by (simp only: if_False softfloat_roundToUI64_nat)
  qed
qed

theorem f64_to_i64_round:
  "f64_to_i64 a mode exact st = f64_to_int (- (2 ^ 63)) (2 ^ 63 - 1) (- (2 ^ 63)) (sf_rmode mode) exact a st"
proof -
  have b: "- (2 ^ 64) < (- (2 ^ 63) :: int)" "2 ^ 63 - 1 < (2 ^ 64 :: int)" by simp_all
  note cs = f64_to_64_cases [OF b, of a "- (2 ^ 63)" "sf_rmode mode" exact st]
  show ?thesis
  proof (cases "0x433 - expF64UI a \<le> 0 \<and> 0x433 - expF64UI a < - 11")
    case True
    then show ?thesis unfolding cs(1) [OF True] f64_to_i64_def Let_def by (simp only: if_True) simp
  next
    case False
    then show ?thesis unfolding cs(2) [OF False, symmetric] f64_to_i64_def Let_def f64_fields(1)
      by (simp only: if_False softfloat_roundToI64_nat)
  qed
qed

theorem f64_to_ui64_round:
  "apfst uint (f64_to_ui64 a mode exact st) = f64_to_int 0 (2 ^ 64 - 1) (2 ^ 64 - 1) (sf_rmode mode) exact a st"
proof -
  have b: "- (2 ^ 64) < (0 :: int)" "2 ^ 64 - 1 < (2 ^ 64 :: int)" by simp_all
  note cs = f64_to_64_cases [OF b, of a "2 ^ 64 - 1" "sf_rmode mode" exact st]
  show ?thesis
  proof (cases "0x433 - expF64UI a \<le> 0 \<and> 0x433 - expF64UI a < - 11")
    case True
    then show ?thesis unfolding cs(1) [OF True] f64_to_ui64_def Let_def by (simp only: if_True) simp
  next
    case False
    then show ?thesis unfolding cs(2) [OF False, symmetric] f64_to_ui64_def Let_def f64_fields(1)
      by (simp only: if_False softfloat_roundToUI64_nat)
  qed
qed

end
