(* ===== verification/SF_Compare.thy ===== *)
theory SF_Compare
  imports SF_Formats
begin

text \<open>
  Comparisons (\<open>source/f32_eq.c\<close>, \<open>f32_lt.c\<close>, \<open>f32_le.c\<close>, their signalling and quiet variants, and
  the 64-bit ones). An infinity counts as the number that follows the largest finite one, so
  one statement covers finite and infinite operands.
\<close>

definition f32_eq :: "u32 \<Rightarrow> u32 \<Rightarrow> softfloat_state \<Rightarrow> bool \<times> softfloat_state" where
  "f32_eq a b st =
     (let uiA = ucast a; uiB = ucast b
      in if isNaNF32UI uiA \<or> isNaNF32UI uiB
         then (False, if softfloat_isSigNaNF32UI uiA \<or> softfloat_isSigNaNF32UI uiB
                      then softfloat_raiseFlags softfloat_flag_invalid st else st)
         else (uiA = uiB \<or> (ucast (push_bit 1 (uiA OR uiB)) :: u32) = 0, st))"

definition f32_eq_signaling :: "u32 \<Rightarrow> u32 \<Rightarrow> softfloat_state \<Rightarrow> bool \<times> softfloat_state" where
  "f32_eq_signaling a b st =
     (let uiA = ucast a; uiB = ucast b
      in if isNaNF32UI uiA \<or> isNaNF32UI uiB
         then (False, softfloat_raiseFlags softfloat_flag_invalid st)
         else (uiA = uiB \<or> (ucast (push_bit 1 (uiA OR uiB)) :: u32) = 0, st))"

definition f32_lt :: "u32 \<Rightarrow> u32 \<Rightarrow> softfloat_state \<Rightarrow> bool \<times> softfloat_state" where
  "f32_lt a b st =
     (let uiA = ucast a; uiB = ucast b
      in if isNaNF32UI uiA \<or> isNaNF32UI uiB
         then (False, softfloat_raiseFlags softfloat_flag_invalid st)
         else let signA = signF32UI uiA; signB = signF32UI uiB
              in (if signA \<noteq> signB then signA \<and> (ucast (push_bit 1 (uiA OR uiB)) :: u32) \<noteq> 0
                  else uiA \<noteq> uiB \<and> signA \<noteq> (uiA < uiB), st))"

definition f32_lt_quiet :: "u32 \<Rightarrow> u32 \<Rightarrow> softfloat_state \<Rightarrow> bool \<times> softfloat_state" where
  "f32_lt_quiet a b st =
     (let uiA = ucast a; uiB = ucast b
      in if isNaNF32UI uiA \<or> isNaNF32UI uiB
         then (False, if softfloat_isSigNaNF32UI uiA \<or> softfloat_isSigNaNF32UI uiB
                      then softfloat_raiseFlags softfloat_flag_invalid st else st)
         else let signA = signF32UI uiA; signB = signF32UI uiB
              in (if signA \<noteq> signB then signA \<and> (ucast (push_bit 1 (uiA OR uiB)) :: u32) \<noteq> 0
                  else uiA \<noteq> uiB \<and> signA \<noteq> (uiA < uiB), st))"

definition f32_le :: "u32 \<Rightarrow> u32 \<Rightarrow> softfloat_state \<Rightarrow> bool \<times> softfloat_state" where
  "f32_le a b st =
     (let uiA = ucast a; uiB = ucast b
      in if isNaNF32UI uiA \<or> isNaNF32UI uiB
         then (False, softfloat_raiseFlags softfloat_flag_invalid st)
         else let signA = signF32UI uiA; signB = signF32UI uiB
              in (if signA \<noteq> signB then signA \<or> (ucast (push_bit 1 (uiA OR uiB)) :: u32) = 0
                  else uiA = uiB \<or> signA \<noteq> (uiA < uiB), st))"

definition f32_le_quiet :: "u32 \<Rightarrow> u32 \<Rightarrow> softfloat_state \<Rightarrow> bool \<times> softfloat_state" where
  "f32_le_quiet a b st =
     (let uiA = ucast a; uiB = ucast b
      in if isNaNF32UI uiA \<or> isNaNF32UI uiB
         then (False, if softfloat_isSigNaNF32UI uiA \<or> softfloat_isSigNaNF32UI uiB
                      then softfloat_raiseFlags softfloat_flag_invalid st else st)
         else let signA = signF32UI uiA; signB = signF32UI uiB
              in (if signA \<noteq> signB then signA \<or> (ucast (push_bit 1 (uiA OR uiB)) :: u32) = 0
                  else uiA = uiB \<or> signA \<noteq> (uiA < uiB), st))"

definition f32_isSignalingNaN :: "u32 \<Rightarrow> bool" where
  "f32_isSignalingNaN a = softfloat_isSigNaNF32UI (ucast a)"

definition f64_eq :: "u64 \<Rightarrow> u64 \<Rightarrow> softfloat_state \<Rightarrow> bool \<times> softfloat_state" where
  "f64_eq a b st =
     (let uiA = a; uiB = b
      in if isNaNF64UI uiA \<or> isNaNF64UI uiB
         then (False, if softfloat_isSigNaNF64UI uiA \<or> softfloat_isSigNaNF64UI uiB
                      then softfloat_raiseFlags softfloat_flag_invalid st else st)
         else (uiA = uiB \<or> (uiA OR uiB) AND 0x7FFFFFFFFFFFFFFF = 0, st))"

definition f64_eq_signaling :: "u64 \<Rightarrow> u64 \<Rightarrow> softfloat_state \<Rightarrow> bool \<times> softfloat_state" where
  "f64_eq_signaling a b st =
     (let uiA = a; uiB = b
      in if isNaNF64UI uiA \<or> isNaNF64UI uiB
         then (False, softfloat_raiseFlags softfloat_flag_invalid st)
         else (uiA = uiB \<or> (uiA OR uiB) AND 0x7FFFFFFFFFFFFFFF = 0, st))"

definition f64_lt :: "u64 \<Rightarrow> u64 \<Rightarrow> softfloat_state \<Rightarrow> bool \<times> softfloat_state" where
  "f64_lt a b st =
     (let uiA = a; uiB = b
      in if isNaNF64UI uiA \<or> isNaNF64UI uiB
         then (False, softfloat_raiseFlags softfloat_flag_invalid st)
         else let signA = signF64UI uiA; signB = signF64UI uiB
              in (if signA \<noteq> signB then signA \<and> (uiA OR uiB) AND 0x7FFFFFFFFFFFFFFF \<noteq> 0
                  else uiA \<noteq> uiB \<and> signA \<noteq> (uiA < uiB), st))"

definition f64_lt_quiet :: "u64 \<Rightarrow> u64 \<Rightarrow> softfloat_state \<Rightarrow> bool \<times> softfloat_state" where
  "f64_lt_quiet a b st =
     (let uiA = a; uiB = b
      in if isNaNF64UI uiA \<or> isNaNF64UI uiB
         then (False, if softfloat_isSigNaNF64UI uiA \<or> softfloat_isSigNaNF64UI uiB
                      then softfloat_raiseFlags softfloat_flag_invalid st else st)
         else let signA = signF64UI uiA; signB = signF64UI uiB
              in (if signA \<noteq> signB then signA \<and> (uiA OR uiB) AND 0x7FFFFFFFFFFFFFFF \<noteq> 0
                  else uiA \<noteq> uiB \<and> signA \<noteq> (uiA < uiB), st))"

definition f64_le :: "u64 \<Rightarrow> u64 \<Rightarrow> softfloat_state \<Rightarrow> bool \<times> softfloat_state" where
  "f64_le a b st =
     (let uiA = a; uiB = b
      in if isNaNF64UI uiA \<or> isNaNF64UI uiB
         then (False, softfloat_raiseFlags softfloat_flag_invalid st)
         else let signA = signF64UI uiA; signB = signF64UI uiB
              in (if signA \<noteq> signB then signA \<or> (uiA OR uiB) AND 0x7FFFFFFFFFFFFFFF = 0
                  else uiA = uiB \<or> signA \<noteq> (uiA < uiB), st))"

definition f64_le_quiet :: "u64 \<Rightarrow> u64 \<Rightarrow> softfloat_state \<Rightarrow> bool \<times> softfloat_state" where
  "f64_le_quiet a b st =
     (let uiA = a; uiB = b
      in if isNaNF64UI uiA \<or> isNaNF64UI uiB
         then (False, if softfloat_isSigNaNF64UI uiA \<or> softfloat_isSigNaNF64UI uiB
                      then softfloat_raiseFlags softfloat_flag_invalid st else st)
         else let signA = signF64UI uiA; signB = signF64UI uiB
              in (if signA \<noteq> signB then signA \<or> (uiA OR uiB) AND 0x7FFFFFFFFFFFFFFF = 0
                  else uiA = uiB \<or> signA \<noteq> (uiA < uiB), st))"

definition f64_isSignalingNaN :: "u64 \<Rightarrow> bool" where
  "f64_isSignalingNaN a = softfloat_isSigNaNF64UI a"

subsection \<open>The order of the values\<close>

text \<open>The order of two signed magnitudes, once for every format.\<close>

context float_format
begin

lemma neg_mval_order:
  "- mval fmt m < mval fmt n \<longleftrightarrow> m \<noteq> 0 \<or> n \<noteq> 0"
  "\<not> mval fmt m < - mval fmt n"
  "- mval fmt m = mval fmt n \<longleftrightarrow> m = 0 \<and> n = 0"
  "mval fmt m = - mval fmt n \<longleftrightarrow> m = 0 \<and> n = 0"
proof -
  have pos: "0 < mval fmt k \<longleftrightarrow> k \<noteq> 0" for k
    using mval_nonneg [of k] mval_eq_0_iff [of k] by (metis order_less_le)
  note facts = mval_nonneg [of m] mval_nonneg [of n] pos [of m] pos [of n]
  show "- mval fmt m < mval fmt n \<longleftrightarrow> m \<noteq> 0 \<or> n \<noteq> 0" using facts by linarith
  show "\<not> mval fmt m < - mval fmt n" using facts by linarith
  show "- mval fmt m = mval fmt n \<longleftrightarrow> m = 0 \<and> n = 0" using facts by linarith
  show "mval fmt m = - mval fmt n \<longleftrightarrow> m = 0 \<and> n = 0" using facts by linarith
qed

lemma signed_less:
  "sgn_val s (mval fmt m) < sgn_val t (mval fmt n) \<longleftrightarrow>
     (if s \<noteq> t then s \<and> (m \<noteq> 0 \<or> n \<noteq> 0) else if s then n < m else m < n)"
  by (cases s; cases t) (simp_all add: sgn_val_def neg_mval_order)

lemma signed_eq:
  "sgn_val s (mval fmt m) = sgn_val t (mval fmt n) \<longleftrightarrow> (s = t \<and> m = n) \<or> m = 0 \<and> n = 0"
  by (cases s; cases t) (auto simp: sgn_val_def neg_mval_order)

end

lemma cmp_zero32:
  "(ucast (push_bit 1 (ucast a OR ucast b :: u64)) :: u32) = 0 \<longleftrightarrow> f32_mag a = 0 \<and> f32_mag b = 0"
proof -
  have "(ucast (push_bit n (ucast a OR ucast b :: u64)) :: u32) = push_bit n a OR push_bit n b" for n
    by (rule bit_eqI) (auto simp: bit_simps)
  moreover have "push_bit 1 c = 0 \<longleftrightarrow> f32_mag c = 0" for c :: u32
    using push_bit_eq_0_iff_mod [of 1 c] by (simp add: f32_mag_def)
  ultimately show ?thesis by (simp only: or_eq_0_iff)
qed

lemma cmp_words32:
  "(ucast a :: u64) = ucast b \<longleftrightarrow> f32_sign a = f32_sign b \<and> f32_mag a = f32_mag b"
  "f32_sign a = f32_sign b \<Longrightarrow> (ucast a :: u64) < ucast b \<longleftrightarrow> f32_mag a < f32_mag b"
proof -
  have "a = b" if "f32_sign a = f32_sign b" "f32_mag a = f32_mag b"
    using arg_cong2 [OF that, of f32_pack] by (simp only: f32_pack_eq)
  then have "a = b \<longleftrightarrow> f32_sign a = f32_sign b \<and> f32_mag a = f32_mag b" by blast
  moreover have "(ucast a :: u64) = ucast b \<longleftrightarrow> a = b" by (simp only: word_unat_eq_iff unat_ucast32)
  ultimately show "(ucast a :: u64) = ucast b \<longleftrightarrow> f32_sign a = f32_sign b \<and> f32_mag a = f32_mag b" by (simp only:)
  show "(ucast a :: u64) < ucast b \<longleftrightarrow> f32_mag a < f32_mag b" if "f32_sign a = f32_sign b"
    unfolding word_less_nat_alt unat_ucast32 f32_unat [of a] f32_unat [of b] that by simp
qed

lemma f32_val_order:
  "f32_val a < f32_val b \<longleftrightarrow>
     (if f32_sign a \<noteq> f32_sign b then f32_sign a \<and> (f32_mag a \<noteq> 0 \<or> f32_mag b \<noteq> 0)
      else if f32_sign a then f32_mag b < f32_mag a else f32_mag a < f32_mag b)"
  "f32_val a = f32_val b \<longleftrightarrow>
     (f32_sign a = f32_sign b \<and> f32_mag a = f32_mag b) \<or> f32_mag a = 0 \<and> f32_mag b = 0"
  unfolding f32_val_def by (rule f32.signed_less f32.signed_eq)+

lemmas cmp32_simps = isNaNF32UI_isnan softfloat_isSigNaNF32UI_issnan cmp_zero32 signF32UI_ucast

text \<open>The exceptions of a comparison with a NaN: signalling comparisons always raise invalid.\<close>

definition f32_unordered :: "bool \<Rightarrow> u32 \<Rightarrow> u32 \<Rightarrow> softfloat_state \<Rightarrow> softfloat_state" where
  "f32_unordered signaling a b st =
     (if f32_isnan a \<or> f32_isnan b
      then if signaling \<or> f32_issnan a \<or> f32_issnan b then softfloat_raiseFlags softfloat_flag_invalid st else st
      else st)"

theorem f32_eq_val:
  "f32_eq a b st = (\<not> f32_isnan a \<and> \<not> f32_isnan b \<and> f32_val a = f32_val b, f32_unordered False a b st)"
  "f32_eq_signaling a b st = (\<not> f32_isnan a \<and> \<not> f32_isnan b \<and> f32_val a = f32_val b, f32_unordered True a b st)"
  unfolding f32_eq_def f32_eq_signaling_def Let_def cmp32_simps cmp_words32(1) f32_unordered_def f32_val_order(2)
  by (auto)

theorem f32_lt_val:
  "f32_lt a b st = (\<not> f32_isnan a \<and> \<not> f32_isnan b \<and> f32_val a < f32_val b, f32_unordered True a b st)"
  "f32_lt_quiet a b st = (\<not> f32_isnan a \<and> \<not> f32_isnan b \<and> f32_val a < f32_val b, f32_unordered False a b st)"
  unfolding f32_lt_def f32_lt_quiet_def Let_def cmp32_simps cmp_words32(1) f32_unordered_def f32_val_order(1)
  by (auto simp: cmp_words32(2))

theorem f32_le_val:
  "f32_le a b st = (\<not> f32_isnan a \<and> \<not> f32_isnan b \<and> f32_val a \<le> f32_val b, f32_unordered True a b st)"
  "f32_le_quiet a b st = (\<not> f32_isnan a \<and> \<not> f32_isnan b \<and> f32_val a \<le> f32_val b, f32_unordered False a b st)"
  unfolding f32_le_def f32_le_quiet_def Let_def cmp32_simps cmp_words32(1) f32_unordered_def le_less f32_val_order
  by (auto simp: cmp_words32(2))

lemma cmp_zero64:
  "(a OR b) AND 0x7FFFFFFFFFFFFFFF = 0 \<longleftrightarrow> f64_mag a = 0 \<and> f64_mag b = 0"
proof -
  have m: "(0x7FFFFFFFFFFFFFFF :: u64) = mask 63" by (simp add: mask_eq_exp_minus_1)
  have "c AND mask 63 = 0 \<longleftrightarrow> f64_mag c = 0" for c :: u64
    by (simp only: unat_eq_0 [symmetric] unat_and_mask f64_mag_def)
  then show ?thesis by (simp only: m bit.conj_disj_distrib2 or_eq_0_iff)
qed

lemma cmp_words64:
  "a = b \<longleftrightarrow> f64_sign a = f64_sign b \<and> f64_mag a = f64_mag b"
  "f64_sign a = f64_sign b \<Longrightarrow> a < b \<longleftrightarrow> f64_mag a < f64_mag b"
proof -
  have "a = b" if "f64_sign a = f64_sign b" "f64_mag a = f64_mag b"
    using arg_cong2 [OF that, of f64_pack] by (simp only: f64_pack_eq)
  then have "a = b \<longleftrightarrow> f64_sign a = f64_sign b \<and> f64_mag a = f64_mag b" by blast
  then show "a = b \<longleftrightarrow> f64_sign a = f64_sign b \<and> f64_mag a = f64_mag b" by (simp only:)
  show "a < b \<longleftrightarrow> f64_mag a < f64_mag b" if "f64_sign a = f64_sign b"
    unfolding word_less_nat_alt f64_unat [of a] f64_unat [of b] that by simp
qed

lemma f64_val_order:
  "f64_val a < f64_val b \<longleftrightarrow>
     (if f64_sign a \<noteq> f64_sign b then f64_sign a \<and> (f64_mag a \<noteq> 0 \<or> f64_mag b \<noteq> 0)
      else if f64_sign a then f64_mag b < f64_mag a else f64_mag a < f64_mag b)"
  "f64_val a = f64_val b \<longleftrightarrow>
     (f64_sign a = f64_sign b \<and> f64_mag a = f64_mag b) \<or> f64_mag a = 0 \<and> f64_mag b = 0"
  unfolding f64_val_def by (rule f64.signed_less f64.signed_eq)+

lemmas cmp64_simps = isNaNF64UI_isnan softfloat_isSigNaNF64UI_issnan cmp_zero64 signF64UI_eq

text \<open>The exceptions of a comparison with a NaN: signalling comparisons always raise invalid.\<close>

definition f64_unordered :: "bool \<Rightarrow> u64 \<Rightarrow> u64 \<Rightarrow> softfloat_state \<Rightarrow> softfloat_state" where
  "f64_unordered signaling a b st =
     (if f64_isnan a \<or> f64_isnan b
      then if signaling \<or> f64_issnan a \<or> f64_issnan b then softfloat_raiseFlags softfloat_flag_invalid st else st
      else st)"

theorem f64_eq_val:
  "f64_eq a b st = (\<not> f64_isnan a \<and> \<not> f64_isnan b \<and> f64_val a = f64_val b, f64_unordered False a b st)"
  "f64_eq_signaling a b st = (\<not> f64_isnan a \<and> \<not> f64_isnan b \<and> f64_val a = f64_val b, f64_unordered True a b st)"
  unfolding f64_eq_def f64_eq_signaling_def Let_def cmp64_simps cmp_words64(1) [of a b] f64_unordered_def f64_val_order(2)
  by (auto)

theorem f64_lt_val:
  "f64_lt a b st = (\<not> f64_isnan a \<and> \<not> f64_isnan b \<and> f64_val a < f64_val b, f64_unordered True a b st)"
  "f64_lt_quiet a b st = (\<not> f64_isnan a \<and> \<not> f64_isnan b \<and> f64_val a < f64_val b, f64_unordered False a b st)"
  unfolding f64_lt_def f64_lt_quiet_def Let_def cmp64_simps cmp_words64(1) [of a b] f64_unordered_def f64_val_order(1)
  by (auto simp: cmp_words64(2))

theorem f64_le_val:
  "f64_le a b st = (\<not> f64_isnan a \<and> \<not> f64_isnan b \<and> f64_val a \<le> f64_val b, f64_unordered True a b st)"
  "f64_le_quiet a b st = (\<not> f64_isnan a \<and> \<not> f64_isnan b \<and> f64_val a \<le> f64_val b, f64_unordered False a b st)"
  unfolding f64_le_def f64_le_quiet_def Let_def cmp64_simps cmp_words64(1) [of a b] f64_unordered_def le_less f64_val_order
  by (auto simp: cmp_words64(2))

end
