(* ===== verification/SF_RoundToInt.thy ===== *)
theory SF_RoundToInt
  imports SF_ToInt SF_Compare
begin

text \<open>
  \<open>f32_roundToInt\<close> and \<open>f64_roundToInt\<close> (\<open>source/f32_roundToInt.c\<close>, \<open>f64_roundToInt.c\<close>): rounding
  to an integral value of the same format, by masks on the pattern. A finite number is rounded to
  the integer the mode asks for with its sign kept, an infinity is returned as it is, a NaN is
  made quiet.
\<close>

subsection \<open>The operations\<close>

definition f32_roundToInt :: "u32 \<Rightarrow> u8 \<Rightarrow> bool \<Rightarrow> softfloat_state \<Rightarrow> u32 \<times> softfloat_state" where
  "f32_roundToInt a roundingMode exact st =
     (let uiA = ucast a :: u64; e = expF32UI uiA
      in if e \<le> 0x7E then
           if (ucast (push_bit 1 uiA) :: u32) = 0 then (a, st)
           else let st = raise_inexact exact st;
                    uiZ = uiA AND packToF32UI True 0 0;
                    uiZ = (if roundingMode = softfloat_round_near_even
                           then (if fracF32UI uiA \<noteq> 0 \<and> e = 0x7E then uiZ OR packToF32UI False 0x7F 0 else uiZ)
                           else if roundingMode = softfloat_round_near_maxMag
                           then (if e = 0x7E then uiZ OR packToF32UI False 0x7F 0 else uiZ)
                           else if roundingMode = softfloat_round_min
                           then (if uiZ \<noteq> 0 then packToF32UI True 0x7F 0 else uiZ)
                           else if roundingMode = softfloat_round_max
                           then (if uiZ = 0 then packToF32UI False 0x7F 0 else uiZ)
                           else if roundingMode = softfloat_round_odd then uiZ OR packToF32UI False 0x7F 0
                           else uiZ)
                in (ucast uiZ, st)
         else if 0x96 \<le> e then
           if e = 0xFF \<and> fracF32UI uiA \<noteq> 0
           then (case softfloat_propagateNaNF32UI uiA 0 st of (uiZ, st) \<Rightarrow> (ucast uiZ, st))
           else (a, st)
         else let lastBitMask = push_bit (nat (0x96 - e)) 1;
                  roundBitsMask = lastBitMask - 1;
                  uiZ = (if roundingMode = softfloat_round_near_maxMag then uiA + drop_bit 1 lastBitMask
                         else if roundingMode = softfloat_round_near_even
                         then let uiZ = uiA + drop_bit 1 lastBitMask
                              in if uiZ AND roundBitsMask = 0 then uiZ AND NOT lastBitMask else uiZ
                         else if roundingMode = (if signF32UI uiA then softfloat_round_min else softfloat_round_max)
                         then uiA + roundBitsMask
                         else uiA);
                  uiZ = uiZ AND NOT roundBitsMask;
                  inex = (uiZ \<noteq> uiA);
                  uiZ = (if inex \<and> roundingMode = softfloat_round_odd then uiZ OR lastBitMask else uiZ)
              in (ucast uiZ, raise_inexact (inex \<and> exact) st))"

definition f64_roundToInt :: "u64 \<Rightarrow> u8 \<Rightarrow> bool \<Rightarrow> softfloat_state \<Rightarrow> u64 \<times> softfloat_state" where
  "f64_roundToInt a roundingMode exact st =
     (let uiA = a; e = expF64UI uiA
      in if e \<le> 0x3FE then
           if uiA AND 0x7FFFFFFFFFFFFFFF = 0 then (a, st)
           else let st = raise_inexact exact st;
                    uiZ = uiA AND packToF64UI True 0 0;
                    uiZ = (if roundingMode = softfloat_round_near_even
                           then (if fracF64UI uiA \<noteq> 0 \<and> e = 0x3FE then uiZ OR packToF64UI False 0x3FF 0 else uiZ)
                           else if roundingMode = softfloat_round_near_maxMag
                           then (if e = 0x3FE then uiZ OR packToF64UI False 0x3FF 0 else uiZ)
                           else if roundingMode = softfloat_round_min
                           then (if uiZ \<noteq> 0 then packToF64UI True 0x3FF 0 else uiZ)
                           else if roundingMode = softfloat_round_max
                           then (if uiZ = 0 then packToF64UI False 0x3FF 0 else uiZ)
                           else if roundingMode = softfloat_round_odd then uiZ OR packToF64UI False 0x3FF 0
                           else uiZ)
                in (uiZ, st)
         else if 0x433 \<le> e then
           if e = 0x7FF \<and> fracF64UI uiA \<noteq> 0
           then (case softfloat_propagateNaNF64UI uiA 0 st of (uiZ, st) \<Rightarrow> (uiZ, st))
           else (a, st)
         else let lastBitMask = push_bit (nat (0x433 - e)) 1;
                  roundBitsMask = lastBitMask - 1;
                  uiZ = (if roundingMode = softfloat_round_near_maxMag then uiA + drop_bit 1 lastBitMask
                         else if roundingMode = softfloat_round_near_even
                         then let uiZ = uiA + drop_bit 1 lastBitMask
                              in if uiZ AND roundBitsMask = 0 then uiZ AND NOT lastBitMask else uiZ
                         else if roundingMode = (if signF64UI uiA then softfloat_round_min else softfloat_round_max)
                         then uiA + roundBitsMask
                         else uiA);
                  uiZ = uiZ AND NOT roundBitsMask;
                  inex = (uiZ \<noteq> uiA);
                  uiZ = (if inex \<and> roundingMode = softfloat_round_odd then uiZ OR lastBitMask else uiZ)
              in (uiZ, raise_inexact (inex \<and> exact) st))"

subsection \<open>Rounding the code\<close>

lemma rint_add_even:
  assumes "even N"
  shows "rint rm s (of_int N + y) = N + rint rm s y"
proof -
  have "frac (of_int N + y) = frac y" by (simp add: frac_def)
  then show ?thesis using assms by (simp add: rint_def)
qed

text \<open>Adding an even multiple of the unit commutes with the rounding of the rest.\<close>

lemma rnd_shift_add:
  assumes "0 < k" "even N"
  shows "rnd_shift rm s k (N * 2 ^ k + n) = N + rnd_shift rm s k n"
proof -
  have "real (N * 2 ^ k + n) / 2 ^ k = of_int (int N) + real n / 2 ^ k" by (simp add: add_divide_distrib)
  then have "rint rm s (real (N * 2 ^ k + n) / 2 ^ k) = int N + rint rm s (real n / 2 ^ k)"
    using rint_add_even [of "int N" rm s "real n / 2 ^ k"] assms(2) by simp
  then show ?thesis by (simp only: rint_rnd_shift [OF assms(1)] of_nat_add [symmetric] of_nat_eq_iff)
qed

lemma mask_bits:
  fixes w :: "'a::len word"
  shows "w AND NOT (mask k) = push_bit k (drop_bit k w)"
    and "(w AND NOT (push_bit k 1)) AND NOT (mask k) = push_bit k (drop_bit k w AND NOT 1)"
    and "push_bit k w OR push_bit k 1 = push_bit k (w OR 1)"
proof -
  show "w AND NOT (mask k) = push_bit k (drop_bit k w)" by (rule bit_eqI) (auto simp: bit_simps)
  show "(w AND NOT (push_bit k 1)) AND NOT (mask k) = push_bit k (drop_bit k w AND NOT 1)"
    by (rule bit_eqI) (auto simp: bit_simps bit_1_iff)
  show "push_bit k w OR push_bit k 1 = push_bit k (w OR 1)" by (rule bit_eqI) (auto simp: bit_simps)
qed

lemma half_mod: "r < 2 * h \<Longrightarrow> (r + h) mod (2 * h) = 0 \<longleftrightarrow> r = h" for r h :: nat
  by (cases "r < h") (auto simp: mod_if)

text \<open>The masks applied to the pattern of a number round it at bit \<open>k\<close>.\<close>

lemma mask_round:
  fixes u :: u64 and k :: nat and mode :: u8 and s :: bool
  assumes k: "0 < k" "k < 60" and u: "unat u < 2 ^ 64 - 2 ^ 60"
  defines "lb \<equiv> push_bit k 1 :: u64"
  defines "z1 \<equiv> (if mode = softfloat_round_near_maxMag then u + drop_bit 1 lb
                 else if mode = softfloat_round_near_even
                 then let z = u + drop_bit 1 lb in if z AND (lb - 1) = 0 then z AND NOT lb else z
                 else if mode = (if s then softfloat_round_min else softfloat_round_max) then u + (lb - 1) else u)"
  defines "z2 \<equiv> z1 AND NOT (lb - 1)"
  defines "z3 \<equiv> (if z2 \<noteq> u \<and> mode = softfloat_round_odd then z2 OR lb else z2)"
  shows "unat z3 = rnd_shift (sf_rmode mode) s k (unat u) * 2 ^ k" and "z2 \<noteq> u \<longleftrightarrow> unat u mod 2 ^ k \<noteq> 0"
proof -
  define n where "n = unat u"
  define inc where "inc = rnd_inc (sf_rmode mode) s k"
  define hb where "hb = drop_bit 1 lb"
  define w where "w = (if mode = 4 \<or> mode = 0 then u + hb else if mode = (if s then 2 else 3) then u + (lb - 1) else u)"
  define q where "q = (n + inc) div 2 ^ k"
  obtain j where j: "k = Suc j" using k(1) by (cases k) auto
  have kj: "k - 1 = j" by (simp add: j)
  have m: "lb - 1 = mask k" by (simp add: lb_def mask_eq_exp_minus_1 push_bit_eq_mult)
  have p64: "(2 :: nat) ^ i < 2 ^ LENGTH(64)" if "i \<le> k" for i using that k by (intro power_strict_increasing) simp_all
  have "drop_bit 1 lb = push_bit j 1" unfolding lb_def j by (rule bit_eqI) (use k in \<open>auto simp: bit_simps j\<close>)
  then have h: "unat hb = 2 ^ j" using unat_push_bit [of "1 :: u64" j] p64 [of j] by (simp only: hb_def unat_1 mult_1) (simp add: j)
  have "unat lb = 2 ^ k" using unat_push_bit [of "1 :: u64" k] p64 [of k] by (simp only: lb_def unat_1 mult_1)
  then have um: "unat (lb - 1) = 2 ^ k - 1" by (subst unat_minus) simp_all
  have le60: "(2 :: nat) ^ k \<le> 2 ^ 60" using k by (intro power_increasing) simp_all
  then have ov: "n + 2 ^ k < 2 ^ 64" using u by (simp add: n_def)
  have ovj: "n + 2 ^ j < 2 ^ 64" by (rule le_less_trans [OF _ ov]) (simp add: j)
  have inc: "inc < 2 ^ k" by (auto simp: inc_def rnd_inc_def j split: rmode.split)
  have w: "unat w = n + inc"
  proof -
    consider "mode = 4 \<or> mode = 0" | "mode \<noteq> 4" "mode \<noteq> 0" "mode = (if s then 2 else 3)" | "mode \<noteq> 4" "mode \<noteq> 0" "mode \<noteq> (if s then 2 else 3)" by blast
    then show ?thesis
    proof cases
      case 1
      then have "unat w = unat u + unat hb" unfolding w_def using ovj h by (simp add: unat_plus n_def)
      with 1 show ?thesis by (auto simp: inc_def rnd_inc_def sf_rmode_def n_def h j)
    next
      case 2
      have "unat u + unat (lb - 1) < 2 ^ LENGTH(64)" using ov um by (simp add: n_def)
      then have "unat w = unat u + unat (lb - 1)" unfolding w_def using 2 by (simp add: unat_plus)
      with 2 show ?thesis by (cases s) (auto simp: inc_def rnd_inc_def sf_rmode_def n_def um)
    next
      case 3
      then show ?thesis by (cases s) (auto simp: w_def inc_def rnd_inc_def sf_rmode_def n_def)
    qed
  qed
  define tie where "tie \<longleftrightarrow> mode = 0 \<and> n mod 2 ^ k = 2 ^ j"
  have tie: "mode = 0 \<and> w AND mask k = 0 \<longleftrightarrow> tie"
  proof -
    have "mode = 0 \<Longrightarrow> inc = 2 ^ j" by (simp add: inc_def rnd_inc_def sf_rmode_def j)
    moreover have "(n + 2 ^ j) mod 2 ^ k = 0 \<longleftrightarrow> n mod 2 ^ k = 2 ^ j"
    proof -
      have "n mod 2 ^ k < 2 * 2 ^ j" using mod_less_divisor [of "2 ^ k" n] by (simp add: j)
      from half_mod [OF this] show ?thesis unfolding j power_Suc mod_add_left_eq by simp
    qed
    ultimately show ?thesis by (auto simp: tie_def unat_eq_0 [symmetric] unat_and_mask w)
  qed
  define V where "V = (if tie then drop_bit k w AND NOT 1 else drop_bit k w)"
  have z1: "z1 = (if tie then w AND NOT lb else w)"
    unfolding tie [symmetric] z1_def w_def Let_def m hb_def [symmetric] by auto
  have z2: "z2 = push_bit k V" unfolding z2_def z1 m V_def unfolding lb_def by (cases tie) (simp_all only: if_True if_False mask_bits(2), simp_all only: mask_bits(1))
  have V: "unat V = (if tie then q - q mod 2 else q)"
    unfolding V_def by (simp only: if_distrib [of unat] unat_and_not_1 unat_drop_bit w q_def)
  have qk: "q * 2 ^ k \<le> n + inc" by (simp add: q_def)
  have push: "unat (push_bit k v) = unat v * 2 ^ k" if "unat v * 2 ^ k < 2 ^ 64" for v :: u64
    using that by (intro unat_push_bit) simp
  have "unat V \<le> q" unfolding V by simp
  then have "unat V * 2 ^ k \<le> q * 2 ^ k" by simp
  then have uz2: "unat z2 = unat V * 2 ^ k" unfolding z2 using qk inc ov by (intro push) linarith
  show ne: "z2 \<noteq> u \<longleftrightarrow> unat u mod 2 ^ k \<noteq> 0"
  proof (cases "n mod 2 ^ k = 0")
    case True
    define r where "r = n div 2 ^ k"
    have r: "n = r * 2 ^ k" using True div_mult_mod_eq [of n "2 ^ k"] by (simp add: r_def)
    then have "q = r" using inc by (simp add: q_def)
    moreover have "\<not> tie" using True by (simp add: tie_def)
    ultimately have "unat z2 = n" using uz2 V r by simp
    with True show ?thesis by (simp add: n_def word_unat_eq_iff)
  next
    case False
    then show ?thesis using uz2 by (auto simp: n_def)
  qed
  show "unat z3 = rnd_shift (sf_rmode mode) s k (unat u) * 2 ^ k"
  proof (cases "n mod 2 ^ k \<noteq> 0 \<and> mode = 6")
    case True
    then have t: "\<not> tie" by (simp add: tie_def)
    have inc0: "inc = 0" using True by (simp add: inc_def rnd_inc_def sf_rmode_def)
    have "(q OR 1) * 2 ^ k \<le> (q + 1) * 2 ^ k" unfolding or_one_eq by (intro mult_right_mono) simp_all
    also have "\<dots> < 2 ^ 64" using qk ov inc0 by simp
    finally have "unat (push_bit k (V OR 1)) = (q OR 1) * 2 ^ k" using t by (subst push) (simp_all only: unat_or_1 V if_False)
    moreover have "z3 = push_bit k (V OR 1)" unfolding z3_def ne using True by (simp only: n_def z2 lb_def mask_bits if_True simp_thms)
    moreover have "rnd_shift (sf_rmode mode) s k n = q OR 1"
      unfolding rnd_shift_def Let_def inc_def [symmetric] q_def [symmetric] sf_rmode_simps using True by (simp only: if_True simp_thms)
    ultimately show ?thesis by (simp only: n_def)
  next
    case False
    then have "z3 = z2" unfolding z3_def ne by (auto simp: n_def)
    moreover have "rnd_shift (sf_rmode mode) s k n = (if tie then q - q mod 2 else q)"
      unfolding rnd_shift_def Let_def inc_def [symmetric] q_def [symmetric] sf_rmode_simps tie_def kj using False by auto
    ultimately show ?thesis by (simp only: uz2 V n_def)
  qed
qed

text \<open>
  Rounding the code of a number at the bit of weight one rounds its value to an integer: a carry
  out of the fraction goes into the exponent, as it should.
\<close>

context float_format
begin

lemma mval_round_code:
  assumes k: "0 < k" "k \<le> F" and e: "ulp_exp fmt d = - int k" and ev: "even (d * 2 ^ (F - k))"
    and q: "2 ^ F \<le> q" "q < 2 * 2 ^ F"
  shows "mval fmt (rnd_shift rm s k (d * 2 ^ F + q) * 2 ^ k) = of_int (rint rm s (mval fmt (d * 2 ^ F + q)))"
    and "rnd_shift rm s k (d * 2 ^ F + q) * 2 ^ k \<le> (d + 2) * 2 ^ F"
    and "mval fmt (d * 2 ^ F + q) \<in> \<int> \<longleftrightarrow> (d * 2 ^ F + q) mod 2 ^ k = 0"
proof -
  define r where "r = rnd_shift rm s k q"
  have F: "(2 :: nat) ^ F = 2 ^ (F - k) * 2 ^ k" using k by (simp add: power_add [symmetric])
  have code: "d * 2 ^ F + q = d * 2 ^ (F - k) * 2 ^ k + q" by (simp add: F)
  have shift: "rnd_shift rm s k (d * 2 ^ F + q) * 2 ^ k = d * 2 ^ F + r * 2 ^ k"
    unfolding code rnd_shift_add [OF k(1) ev] r_def by (simp add: F algebra_simps)
  have rint: "rint rm s (real q / 2 ^ k) = int r" unfolding r_def by (rule rint_rnd_shift [OF k(1)])
  have val: "mval fmt (d * 2 ^ F + q) = real q / 2 ^ k"
    using mval_code [of q d] q by (simp add: e power_int_minus divide_inverse)
  have "of_int (2 ^ (F - k)) \<le> real q / 2 ^ k"
    using q(1) by (simp add: pos_le_divide_eq) (metis F of_nat_le_iff of_nat_mult of_nat_numeral of_nat_power)
  then have "2 ^ (F - k) \<le> int r" using rint rint_ge_of_int by metis
  then have lo: "2 ^ F \<le> r * 2 ^ k" unfolding F by (intro mult_right_mono) (simp_all flip: of_nat_le_iff)
  have "real q \<le> real (2 * 2 ^ (F - k) * 2 ^ k)" using q(2) F by (simp only: of_nat_le_iff)
  then have "real q / 2 ^ k \<le> of_int (2 * 2 ^ (F - k))" by (simp add: pos_divide_le_eq)
  then have "int r \<le> 2 * 2 ^ (F - k)" using rint rint_le_of_int by metis
  then have "r \<le> 2 * 2 ^ (F - k)" by (metis of_nat_le_iff of_nat_mult of_nat_numeral of_nat_power)
  then have "r * 2 ^ k \<le> 2 * 2 ^ (F - k) * 2 ^ k" by (rule mult_right_mono) simp
  then have hi: "r * 2 ^ k \<le> 2 * 2 ^ F" by (simp only: F mult.assoc)
  show "mval fmt (rnd_shift rm s k (d * 2 ^ F + q) * 2 ^ k) = of_int (rint rm s (mval fmt (d * 2 ^ F + q)))"
    unfolding shift val rint using mval_code [of "r * 2 ^ k" d] lo hi by (simp add: e power_int_minus)
  show "rnd_shift rm s k (d * 2 ^ F + q) * 2 ^ k \<le> (d + 2) * 2 ^ F" unfolding shift using hi by (simp add: algebra_simps)
  show "mval fmt (d * 2 ^ F + q) \<in> \<int> \<longleftrightarrow> (d * 2 ^ F + q) mod 2 ^ k = 0"
    unfolding val Ints_nat_div_pow2 unfolding code by simp
qed

end

subsection \<open>Numbers below one\<close>

lemma rint_below_1:
  assumes "0 < y" "y < 1"
  shows "rint rm s y = of_bool (rnd_up rm s False y)" "y \<notin> \<int>"
proof -
  have "\<lfloor>y\<rfloor> = 0" using assms by (simp add: floor_eq_iff)
  then show "rint rm s y = of_bool (rnd_up rm s False y)" by (simp add: rint_def frac_def)
  show "y \<notin> \<int>" using assms Ints_split [of y 0] by simp
qed

lemma and_exp: "w AND 2 ^ n = (if bit w n then 2 ^ n else 0)" for w :: "'a::len word"
  by (rule bit_eqI) (auto simp: bit_simps)

lemma mval_f32_halves:
  "mval f32_fmt (126 * 2 ^ 23) = 1 / 2" "mval f32_fmt (127 * 2 ^ 23) = 1"
proof -
  have "mval f32_fmt (Suc d * 2 ^ 23) = 2 ^ 23 * pow2 (int d - (150 - 1))" for d
    using f32.mval_code [of "2 ^ 23" d] by (simp add: ulp_exp_f32 algebra_simps)
  from this [of "126 - 1"] this [of "127 - 1"]
  show "mval f32_fmt (126 * 2 ^ 23) = 1 / 2" "mval f32_fmt (127 * 2 ^ 23) = 1" by (simp_all add: power_int_minus)
qed

lemma f32_below_1:
  fixes a :: u32
  defines "e \<equiv> f32_mag a div 2 ^ 23"
  assumes "e \<le> 126"
  shows "mval f32_fmt (f32_mag a) < 1"
    and "1 \<le> 2 * mval f32_fmt (f32_mag a) \<longleftrightarrow> e = 126"
    and "1 < 2 * mval f32_fmt (f32_mag a) \<longleftrightarrow> f32_mag a mod 2 ^ 23 \<noteq> 0 \<and> e = 126"
proof -
  let ?m = "f32_mag a"
  have "?m < 127 * 2 ^ 23 \<longleftrightarrow> ?m div 2 ^ 23 < 127" by (simp add: div_less_iff_less_mult)
  then have "?m < 127 * 2 ^ 23" using assms(2) unfolding e_def by simp
  then show "mval f32_fmt ?m < 1" unfolding mval_f32_halves(2) [symmetric] f32.mval_less_iff .
  have c: "?m div 2 ^ 23 < 126 + 1" using assms(2) unfolding e_def by simp
  have "1 \<le> 2 * mval f32_fmt ?m \<longleftrightarrow> mval f32_fmt (126 * 2 ^ 23) \<le> mval f32_fmt ?m" unfolding mval_f32_halves by auto
  also have "\<dots> \<longleftrightarrow> \<not> ?m < 126 * 2 ^ 23" unfolding f32.mval_le_iff by linarith
  finally show "1 \<le> 2 * mval f32_fmt ?m \<longleftrightarrow> e = 126" unfolding code_classes(1) [OF c] e_def by simp
  have "1 < 2 * mval f32_fmt ?m \<longleftrightarrow> mval f32_fmt (126 * 2 ^ 23) < mval f32_fmt ?m" unfolding mval_f32_halves by auto
  then show "1 < 2 * mval f32_fmt ?m \<longleftrightarrow> f32_mag a mod 2 ^ 23 \<noteq> 0 \<and> e = 126"
    unfolding f32.mval_less_iff code_classes(3) [OF c] e_def by blast
qed

lemma mval_f64_halves:
  "mval f64_fmt (1022 * 2 ^ 52) = 1 / 2" "mval f64_fmt (1023 * 2 ^ 52) = 1"
proof -
  have "mval f64_fmt (Suc d * 2 ^ 52) = 2 ^ 52 * pow2 (int d - (1075 - 1))" for d
    using f64.mval_code [of "2 ^ 52" d] by (simp add: ulp_exp_f64 algebra_simps)
  from this [of "1022 - 1"] this [of "1023 - 1"]
  show "mval f64_fmt (1022 * 2 ^ 52) = 1 / 2" "mval f64_fmt (1023 * 2 ^ 52) = 1" by (simp_all add: power_int_minus)
qed

lemma f64_below_1:
  fixes a :: u64
  defines "e \<equiv> f64_mag a div 2 ^ 52"
  assumes "e \<le> 1022"
  shows "mval f64_fmt (f64_mag a) < 1"
    and "1 \<le> 2 * mval f64_fmt (f64_mag a) \<longleftrightarrow> e = 1022"
    and "1 < 2 * mval f64_fmt (f64_mag a) \<longleftrightarrow> f64_mag a mod 2 ^ 52 \<noteq> 0 \<and> e = 1022"
proof -
  let ?m = "f64_mag a"
  have "?m < 1023 * 2 ^ 52 \<longleftrightarrow> ?m div 2 ^ 52 < 1023" by (simp add: div_less_iff_less_mult)
  then have "?m < 1023 * 2 ^ 52" using assms(2) unfolding e_def by simp
  then show "mval f64_fmt ?m < 1" unfolding mval_f64_halves(2) [symmetric] f64.mval_less_iff .
  have c: "?m div 2 ^ 52 < 1022 + 1" using assms(2) unfolding e_def by simp
  have "1 \<le> 2 * mval f64_fmt ?m \<longleftrightarrow> mval f64_fmt (1022 * 2 ^ 52) \<le> mval f64_fmt ?m" unfolding mval_f64_halves by auto
  also have "\<dots> \<longleftrightarrow> \<not> ?m < 1022 * 2 ^ 52" unfolding f64.mval_le_iff by linarith
  finally show "1 \<le> 2 * mval f64_fmt ?m \<longleftrightarrow> e = 1022" unfolding code_classes(1) [OF c] e_def by simp
  have "1 < 2 * mval f64_fmt ?m \<longleftrightarrow> mval f64_fmt (1022 * 2 ^ 52) < mval f64_fmt ?m" unfolding mval_f64_halves by auto
  then show "1 < 2 * mval f64_fmt ?m \<longleftrightarrow> f64_mag a mod 2 ^ 52 \<noteq> 0 \<and> e = 1022"
    unfolding f64.mval_less_iff code_classes(3) [OF c] e_def by blast
qed

lemma f32_sign_pattern:
  fixes a :: u32
  shows "ucast a AND packToF32UI True 0 0 = packToF32UI (f32_sign a) 0 0"
    and "packToF32UI s 0 0 OR packToF32UI False 0x7F 0 = packToF32UI s 0x7F 0"
    and "packToF32UI s 0 0 = 0 \<longleftrightarrow> \<not> s"
proof -
  show "ucast a AND packToF32UI True 0 0 = packToF32UI (f32_sign a) 0 0"
    using and_exp [of "ucast a :: u64" 31] f32_sign_bit [of a] by (simp add: packToF32UI_def bit_simps)
  show "packToF32UI s 0 0 OR packToF32UI False 0x7F 0 = packToF32UI s 0x7F 0" "packToF32UI s 0 0 = 0 \<longleftrightarrow> \<not> s"
    by (cases s; simp add: packToF32UI_def)+
qed

lemma f32_pattern_01:
  "ucast (packToF32UI s 0 0) = f32_pack s 0" "ucast (packToF32UI s 0x7F 0) = f32_pack s (127 * 2 ^ 23)"
  by (simp_all add: packToF32UI_pack)

lemma f32_zero_test: "(ucast (push_bit 1 (ucast a :: u64)) :: u32) = 0 \<longleftrightarrow> f32_mag a = 0"
  using cmp_zero32 [of a a] by (simp only: or.idem conj_absorb)

lemma f32_roundToInt_small:
  fixes a :: u32
  assumes e: "f32_mag a div 2 ^ 23 \<le> 126" and m: "f32_mag a \<noteq> 0"
  defines "y \<equiv> mval f32_fmt (f32_mag a)"
  shows "f32_roundToInt a mode exact st =
         (f32_pack (f32_sign a) (if rnd_up (sf_rmode mode) (f32_sign a) False y then 127 * 2 ^ 23 else 0), raise_inexact exact st)"
proof -
  have y: "0 < y" "1 \<le> 2 * y \<longleftrightarrow> f32_mag a div 2 ^ 23 = 126"
    "1 < 2 * y \<longleftrightarrow> f32_mag a mod 2 ^ 23 \<noteq> 0 \<and> f32_mag a div 2 ^ 23 = 126"
    using f32_below_1 [OF e] f32.mval_less_iff [of 0 "f32_mag a"] m unfolding y_def by simp_all
  have e1: "expF32UI (ucast a) \<le> 0x7E" "expF32UI (ucast a) = 0x7E \<longleftrightarrow> f32_mag a div 2 ^ 23 = 126"
    "fracF32UI (ucast a) \<noteq> 0 \<longleftrightarrow> f32_mag a mod 2 ^ 23 \<noteq> 0"
    using e by (simp_all only: f32_fields unat_eq_0 [symmetric]) simp_all
  show ?thesis
    unfolding f32_roundToInt_def Let_def f32_zero_test f32_sign_pattern e1(2,3) y(3) [symmetric] if_P [OF e1(1)] if_not_P [OF m]
    using y(1,2) by (cases "f32_sign a") (auto simp: sf_rmode_def f32_pattern_01)
qed

lemma f64_sign_pattern:
  fixes a :: u64
  shows "a AND packToF64UI True 0 0 = packToF64UI (f64_sign a) 0 0"
    and "packToF64UI s 0 0 OR packToF64UI False 0x3FF 0 = packToF64UI s 0x3FF 0"
    and "packToF64UI s 0 0 = 0 \<longleftrightarrow> \<not> s"
proof -
  show "a AND packToF64UI True 0 0 = packToF64UI (f64_sign a) 0 0"
    using and_exp [of "a :: u64" 63] f64_sign_bit [of a] by (simp add: packToF64UI_def bit_simps)
  show "packToF64UI s 0 0 OR packToF64UI False 0x3FF 0 = packToF64UI s 0x3FF 0" "packToF64UI s 0 0 = 0 \<longleftrightarrow> \<not> s"
    by (cases s; simp add: packToF64UI_def)+
qed

lemma f64_pattern_01:
  "packToF64UI s 0 0 = f64_pack s 0" "packToF64UI s 0x3FF 0 = f64_pack s (1023 * 2 ^ 52)"
  by (simp_all add: packToF64UI_pack)

lemma f64_zero_test: "a AND 0x7FFFFFFFFFFFFFFF = 0 \<longleftrightarrow> f64_mag a = 0"
  by (rule f64_mag_and)

lemma f64_roundToInt_small:
  fixes a :: u64
  assumes e: "f64_mag a div 2 ^ 52 \<le> 1022" and m: "f64_mag a \<noteq> 0"
  defines "y \<equiv> mval f64_fmt (f64_mag a)"
  shows "f64_roundToInt a mode exact st =
         (f64_pack (f64_sign a) (if rnd_up (sf_rmode mode) (f64_sign a) False y then 1023 * 2 ^ 52 else 0), raise_inexact exact st)"
proof -
  have y: "0 < y" "1 \<le> 2 * y \<longleftrightarrow> f64_mag a div 2 ^ 52 = 1022"
    "1 < 2 * y \<longleftrightarrow> f64_mag a mod 2 ^ 52 \<noteq> 0 \<and> f64_mag a div 2 ^ 52 = 1022"
    using f64_below_1 [OF e] f64.mval_less_iff [of 0 "f64_mag a"] m unfolding y_def by simp_all
  have e1: "expF64UI (a) \<le> 0x3FE" "expF64UI (a) = 0x3FE \<longleftrightarrow> f64_mag a div 2 ^ 52 = 1022"
    "fracF64UI (a) \<noteq> 0 \<longleftrightarrow> f64_mag a mod 2 ^ 52 \<noteq> 0"
    using e by (simp_all only: f64_fields unat_eq_0 [symmetric]) simp_all
  show ?thesis
    unfolding f64_roundToInt_def Let_def f64_zero_test f64_sign_pattern e1(2,3) y(3) [symmetric] if_P [OF e1(1)] if_not_P [OF m]
    using y(1,2) by (cases "f64_sign a") (auto simp: sf_rmode_def f64_pattern_01)
qed

subsection \<open>The results\<close>

lemma mval_f32_large_Ints:
  assumes "150 \<le> m div 2 ^ 23"
  shows "mval f32_fmt m = of_int (int (hsig 23 m * 2 ^ (m div 2 ^ 23 - 150)))"
proof -
  have "int (max 1 (m div 2 ^ 23)) - 150 = int (m div 2 ^ 23 - 150)" using assms by linarith
  then show ?thesis unfolding mval_f32_hsig by (simp only: pow2_nat) simp
qed

lemma f32_roundToInt_masked:
  fixes a :: u32
  assumes e: "126 < f32_mag a div 2 ^ 23" "f32_mag a div 2 ^ 23 < 150"
  defines "k \<equiv> 150 - f32_mag a div 2 ^ 23"
  shows "f32_roundToInt a mode exact st =
         (f32_pack (f32_sign a) (rnd_shift (sf_rmode mode) (f32_sign a) k (f32_mag a) * 2 ^ k),
          raise_inexact (f32_mag a mod 2 ^ k \<noteq> 0 \<and> exact) st)"
    and "rnd_shift (sf_rmode mode) (f32_sign a) k (f32_mag a) * 2 ^ k < inf_code f32_fmt"
    and "mval f32_fmt (rnd_shift (sf_rmode mode) (f32_sign a) k (f32_mag a) * 2 ^ k) =
         of_int (rint (sf_rmode mode) (f32_sign a) (mval f32_fmt (f32_mag a)))"
    and "mval f32_fmt (f32_mag a) \<in> \<int> \<longleftrightarrow> f32_mag a mod 2 ^ k = 0"
proof -
  let ?m = "f32_mag a" and ?s = "f32_sign a" and ?rm = "sf_rmode mode"
  define d where "d = ?m div 2 ^ 23 - 1"
  define q where "q = 2 ^ 23 + ?m mod 2 ^ 23"
  have k: "0 < k" "k \<le> 23" "k < 60" "k \<le> 31 - 1" using e unfolding k_def by simp_all
  have d: "Suc d = ?m div 2 ^ 23" using e unfolding d_def by simp
  have m: "?m = d * 2 ^ 23 + q" using div_mult_mod_eq [of ?m "2 ^ 23"] unfolding d [symmetric] q_def by simp
  have q: "2 ^ 23 \<le> q" "q < 2 * 2 ^ 23" unfolding q_def by simp_all
  have "d = 126" if "k = 23" using that e d unfolding k_def by simp
  then have ev: "even (d * 2 ^ (23 - k))" using k by (cases "k = 23") auto
  have u: "ulp_exp f32_fmt d = - int k" using e d unfolding k_def ulp_exp_f32 by linarith
  note R = f32.mval_round_code [unfolded fmt_sizes, OF k(1,2) u ev q, folded m]
  show mr: "mval f32_fmt (rnd_shift ?rm ?s k ?m * 2 ^ k) = of_int (rint ?rm ?s (mval f32_fmt ?m))" by (rule R(1))
  show "mval f32_fmt ?m \<in> \<int> \<longleftrightarrow> ?m mod 2 ^ k = 0" by (rule R(3))
  have "d + 2 \<le> 150" using e d by linarith
  then have "(d + 2) * 2 ^ 23 \<le> 150 * 2 ^ 23" by (rule mult_right_mono) simp
  with R(2) have "rnd_shift ?rm ?s k ?m * 2 ^ k \<le> 150 * 2 ^ 23" by (rule order_trans)
  then show fin: "rnd_shift ?rm ?s k ?m * 2 ^ k < inf_code f32_fmt" by (rule le_less_trans) (simp add: inf_code_f32)
  define u where "u = (ucast a :: u64)"
  have H: "(2 :: nat) ^ 31 = 2 ^ (31 - k) * 2 ^ k" using k by (simp add: power_add [symmetric])
  have un: "unat u = of_bool ?s * 2 ^ (31 - k) * 2 ^ k + ?m" by (simp only: u_def mult.assoc H [symmetric] nat_of_word f32_unat [of a])
  have evs: "even (of_bool ?s * 2 ^ (31 - k) :: nat)" using k by simp
  have "?m < 150 * 2 ^ 23" using e by (simp add: div_less_iff_less_mult)
  then have ub: "unat u < 2 ^ 64 - 2 ^ 60" unfolding u_def using f32_unat [of a] by (simp add: nat_of_word of_bool_def split: if_splits)
  have sh: "rnd_shift ?rm ?s k (unat u) * 2 ^ k = of_bool ?s * 2 ^ 31 + rnd_shift ?rm ?s k ?m * 2 ^ k"
    unfolding un rnd_shift_add [OF k(1) evs] by (simp only: H add_mult_distrib mult.assoc)
  have um: "unat u mod 2 ^ k = ?m mod 2 ^ k" unfolding un by simp
  have "rnd_shift ?rm ?s k ?m * 2 ^ k < 2 ^ 31" using fin unfolding inf_code_f32 by simp
  then have pk: "ucast w = f32_pack ?s (rnd_shift ?rm ?s k ?m * 2 ^ k)" if "unat w = rnd_shift ?rm ?s k (unat u) * 2 ^ k" for w :: u64
    using that unfolding sh by (simp only: word_unat_eq_iff unat_f32_pack unat_ucast_down32) (cases ?s; simp)
  have fl: "\<not> expF32UI u \<le> 0x7E" "\<not> 0x96 \<le> expF32UI u" "nat (0x96 - expF32UI u) = k" "signF32UI u = ?s"
    unfolding u_def f32_fields k_def using e by simp_all
  note M = mask_round [OF k(1,3) ub, of mode ?s, unfolded Let_def u_def]
  show "f32_roundToInt a mode exact st = (f32_pack ?s (rnd_shift ?rm ?s k ?m * 2 ^ k), raise_inexact (?m mod 2 ^ k \<noteq> 0 \<and> exact) st)"
    unfolding f32_roundToInt_def Let_def if_not_P [OF fl(1) [unfolded u_def]] if_not_P [OF fl(2) [unfolded u_def]] fl(3,4) [unfolded u_def]
    by (rule arg_cong2 [of _ _ _ _ Pair], rule pk [unfolded u_def], rule M(1), simp only: M(2) um [unfolded u_def])
qed

text \<open>
  A finite number is rounded to the integer the rounding mode asks for, with its sign kept (so
  that a zero has the sign of the operand); inexact is raised when asked for and only when the
  number is not an integer.
\<close>

theorem f32_roundToInt_finite:
  assumes "f32_finite a"
  obtains m where "m < inf_code f32_fmt"
    and "mval f32_fmt m = of_int (rint (sf_rmode mode) (f32_sign a) (mval f32_fmt (f32_mag a)))"
    and "f32_roundToInt a mode exact st =
         (f32_pack (f32_sign a) m, raise_inexact (mval f32_fmt (f32_mag a) \<notin> \<int> \<and> exact) st)"
proof -
  let ?m = "f32_mag a" and ?s = "f32_sign a" and ?rm = "sf_rmode mode"
  consider (zero) "?m = 0" | (small) "?m div 2 ^ 23 \<le> 126" "?m \<noteq> 0" | (mid) "126 < ?m div 2 ^ 23" "?m div 2 ^ 23 < 150"
    | (large) "150 \<le> ?m div 2 ^ 23" by linarith
  then show thesis
  proof cases
    case zero
    have "f32_roundToInt a mode exact st = (a, st)"
      unfolding f32_roundToInt_def Let_def f32_zero_test f32_fields using zero by simp
    moreover have "a = f32_pack ?s 0" using zero f32_pack_eq [of a] by simp
    ultimately show thesis using zero by (intro that [of 0]) (simp_all add: inf_code_f32 raise_inexact_def rint_of_int [of _ _ 0, simplified])
  next
    case small
    have y: "0 < mval f32_fmt ?m" "mval f32_fmt ?m < 1"
      using f32_below_1(1) [OF small(1)] f32.mval_less_iff [of 0 ?m] small(2) by simp_all
    show thesis
      by (rule that [OF _ _ f32_roundToInt_small [OF small, of mode exact st, THEN trans]])
        (use rint_below_1 [OF y] in \<open>simp_all add: inf_code_f32 mval_f32_halves [simplified]\<close>)
  next
    case mid
    note M = f32_roundToInt_masked [OF mid]
    show thesis by (rule that [OF M(2,3) [of mode]]) (simp only: M(1,4))
  next
    case large
    have "rint ?rm ?s (mval f32_fmt ?m) = int (hsig 23 ?m * 2 ^ (?m div 2 ^ 23 - 150))" "mval f32_fmt ?m \<in> \<int>"
      unfolding mval_f32_large_Ints [OF large] by (simp_all only: rint_of_int Ints_of_int)
    moreover have "f32_roundToInt a mode exact st = (a, st)"
      unfolding f32_roundToInt_def Let_def f32_fields using large assms by (simp add: f32_classes)
    ultimately show thesis using assms mval_f32_large_Ints [OF large]
      by (intro that [of ?m]) (simp_all add: f32_finite_def raise_inexact_def)
  qed
qed

theorem f32_roundToInt_special:
  shows "f32_isinf a \<Longrightarrow> f32_roundToInt a mode exact st = (a, st)"
    and "f32_isnan a \<Longrightarrow> f32_roundToInt a mode exact st = f32_nan_result a 0 st"
proof -
  have big: "\<not> expF32UI (ucast a) \<le> 0x7E" "0x96 \<le> expF32UI (ucast a)" "expF32UI (ucast a) = 0xFF" if "f32_mag a div 2 ^ 23 = 0xFF"
    unfolding f32_fields that by simp_all
  have fr: "fracF32UI (ucast a) \<noteq> 0 \<longleftrightarrow> f32_mag a mod 2 ^ 23 \<noteq> 0" by (simp only: unat_eq_0 [symmetric] f32_fields)
  show "f32_roundToInt a mode exact st = (a, st)" if "f32_isinf a"
    using that big fr unfolding f32_roundToInt_def Let_def f32_classes by simp
  show "f32_roundToInt a mode exact st = f32_nan_result a 0 st" if "f32_isnan a"
    using that big fr softfloat_propagateNaNF32UI_result [of a 0 st] unfolding f32_roundToInt_def Let_def f32_classes by simp
qed

lemma mval_f64_large_Ints:
  assumes "1075 \<le> m div 2 ^ 52"
  shows "mval f64_fmt m = of_int (int (hsig 52 m * 2 ^ (m div 2 ^ 52 - 1075)))"
proof -
  have "int (max 1 (m div 2 ^ 52)) - 1075 = int (m div 2 ^ 52 - 1075)" using assms by linarith
  then show ?thesis unfolding mval_f64_hsig by (simp only: pow2_nat) simp
qed

lemma f64_roundToInt_masked:
  fixes a :: u64
  assumes e: "1022 < f64_mag a div 2 ^ 52" "f64_mag a div 2 ^ 52 < 1075"
  defines "k \<equiv> 1075 - f64_mag a div 2 ^ 52"
  shows "f64_roundToInt a mode exact st =
         (f64_pack (f64_sign a) (rnd_shift (sf_rmode mode) (f64_sign a) k (f64_mag a) * 2 ^ k),
          raise_inexact (f64_mag a mod 2 ^ k \<noteq> 0 \<and> exact) st)"
    and "rnd_shift (sf_rmode mode) (f64_sign a) k (f64_mag a) * 2 ^ k < inf_code f64_fmt"
    and "mval f64_fmt (rnd_shift (sf_rmode mode) (f64_sign a) k (f64_mag a) * 2 ^ k) =
         of_int (rint (sf_rmode mode) (f64_sign a) (mval f64_fmt (f64_mag a)))"
    and "mval f64_fmt (f64_mag a) \<in> \<int> \<longleftrightarrow> f64_mag a mod 2 ^ k = 0"
proof -
  let ?m = "f64_mag a" and ?s = "f64_sign a" and ?rm = "sf_rmode mode"
  define d where "d = ?m div 2 ^ 52 - 1"
  define q where "q = 2 ^ 52 + ?m mod 2 ^ 52"
  have k: "0 < k" "k \<le> 52" "k < 60" "k \<le> 63 - 1" using e unfolding k_def by simp_all
  have d: "Suc d = ?m div 2 ^ 52" using e unfolding d_def by simp
  have m: "?m = d * 2 ^ 52 + q" using div_mult_mod_eq [of ?m "2 ^ 52"] unfolding d [symmetric] q_def by simp
  have q: "2 ^ 52 \<le> q" "q < 2 * 2 ^ 52" unfolding q_def by simp_all
  have "d = 1022" if "k = 52" using that e d unfolding k_def by simp
  then have ev: "even (d * 2 ^ (52 - k))" using k by (cases "k = 52") auto
  have u: "ulp_exp f64_fmt d = - int k" using e d unfolding k_def ulp_exp_f64 by linarith
  note R = f64.mval_round_code [unfolded fmt_sizes, OF k(1,2) u ev q, folded m]
  show mr: "mval f64_fmt (rnd_shift ?rm ?s k ?m * 2 ^ k) = of_int (rint ?rm ?s (mval f64_fmt ?m))" by (rule R(1))
  show "mval f64_fmt ?m \<in> \<int> \<longleftrightarrow> ?m mod 2 ^ k = 0" by (rule R(3))
  have "d + 2 \<le> 1075" using e d by linarith
  then have "(d + 2) * 2 ^ 52 \<le> 1075 * 2 ^ 52" by (rule mult_right_mono) simp
  with R(2) have "rnd_shift ?rm ?s k ?m * 2 ^ k \<le> 1075 * 2 ^ 52" by (rule order_trans)
  then show fin: "rnd_shift ?rm ?s k ?m * 2 ^ k < inf_code f64_fmt" by (rule le_less_trans) (simp add: inf_code_f64)
  define u where "u = (a :: u64)"
  have H: "(2 :: nat) ^ 63 = 2 ^ (63 - k) * 2 ^ k" using k by (simp add: power_add [symmetric])
  have un: "unat u = of_bool ?s * 2 ^ (63 - k) * 2 ^ k + ?m" by (simp only: u_def mult.assoc H [symmetric] nat_of_word f64_unat [of a])
  have evs: "even (of_bool ?s * 2 ^ (63 - k) :: nat)" using k by simp
  have "?m < 1075 * 2 ^ 52" using e by (simp add: div_less_iff_less_mult)
  then have ub: "unat u < 2 ^ 64 - 2 ^ 60" unfolding u_def using f64_unat [of a] by (simp add: nat_of_word of_bool_def split: if_splits)
  have sh: "rnd_shift ?rm ?s k (unat u) * 2 ^ k = of_bool ?s * 2 ^ 63 + rnd_shift ?rm ?s k ?m * 2 ^ k"
    unfolding un rnd_shift_add [OF k(1) evs] by (simp only: H add_mult_distrib mult.assoc)
  have um: "unat u mod 2 ^ k = ?m mod 2 ^ k" unfolding un by simp
  have "rnd_shift ?rm ?s k ?m * 2 ^ k < 2 ^ 63" using fin unfolding inf_code_f64 by simp
  then have pk: "w = f64_pack ?s (rnd_shift ?rm ?s k ?m * 2 ^ k)" if "unat w = rnd_shift ?rm ?s k (unat u) * 2 ^ k" for w :: u64
    using that unfolding sh by (simp only: word_unat_eq_iff unat_f64_pack ) 
  have fl: "\<not> expF64UI u \<le> 0x3FE" "\<not> 0x433 \<le> expF64UI u" "nat (0x433 - expF64UI u) = k" "signF64UI u = ?s"
    unfolding u_def f64_fields k_def using e by simp_all
  note M = mask_round [OF k(1,3) ub, of mode ?s, unfolded Let_def u_def]
  show "f64_roundToInt a mode exact st = (f64_pack ?s (rnd_shift ?rm ?s k ?m * 2 ^ k), raise_inexact (?m mod 2 ^ k \<noteq> 0 \<and> exact) st)"
    unfolding f64_roundToInt_def Let_def if_not_P [OF fl(1) [unfolded u_def]] if_not_P [OF fl(2) [unfolded u_def]] fl(3,4) [unfolded u_def]
    by (rule arg_cong2 [of _ _ _ _ Pair], rule pk [unfolded u_def], rule M(1), simp only: M(2) um [unfolded u_def])
qed

text \<open>
  A finite number is rounded to the integer the rounding mode asks for, with its sign kept (so
  that a zero has the sign of the operand); inexact is raised when asked for and only when the
  number is not an integer.
\<close>

theorem f64_roundToInt_finite:
  assumes "f64_finite a"
  obtains m where "m < inf_code f64_fmt"
    and "mval f64_fmt m = of_int (rint (sf_rmode mode) (f64_sign a) (mval f64_fmt (f64_mag a)))"
    and "f64_roundToInt a mode exact st =
         (f64_pack (f64_sign a) m, raise_inexact (mval f64_fmt (f64_mag a) \<notin> \<int> \<and> exact) st)"
proof -
  let ?m = "f64_mag a" and ?s = "f64_sign a" and ?rm = "sf_rmode mode"
  consider (zero) "?m = 0" | (small) "?m div 2 ^ 52 \<le> 1022" "?m \<noteq> 0" | (mid) "1022 < ?m div 2 ^ 52" "?m div 2 ^ 52 < 1075"
    | (large) "1075 \<le> ?m div 2 ^ 52" by linarith
  then show thesis
  proof cases
    case zero
    have "f64_roundToInt a mode exact st = (a, st)"
      unfolding f64_roundToInt_def Let_def f64_zero_test f64_fields using zero by simp
    moreover have "a = f64_pack ?s 0" using zero f64_pack_eq [of a] by simp
    ultimately show thesis using zero by (intro that [of 0]) (simp_all add: inf_code_f64 raise_inexact_def rint_of_int [of _ _ 0, simplified])
  next
    case small
    have y: "0 < mval f64_fmt ?m" "mval f64_fmt ?m < 1"
      using f64_below_1(1) [OF small(1)] f64.mval_less_iff [of 0 ?m] small(2) by simp_all
    show thesis
      by (rule that [OF _ _ f64_roundToInt_small [OF small, of mode exact st, THEN trans]])
        (use rint_below_1 [OF y] in \<open>simp_all add: inf_code_f64 mval_f64_halves [simplified]\<close>)
  next
    case mid
    note M = f64_roundToInt_masked [OF mid]
    show thesis by (rule that [OF M(2,3) [of mode]]) (simp only: M(1,4))
  next
    case large
    have "rint ?rm ?s (mval f64_fmt ?m) = int (hsig 52 ?m * 2 ^ (?m div 2 ^ 52 - 1075))" "mval f64_fmt ?m \<in> \<int>"
      unfolding mval_f64_large_Ints [OF large] by (simp_all only: rint_of_int Ints_of_int)
    moreover have "f64_roundToInt a mode exact st = (a, st)"
      unfolding f64_roundToInt_def Let_def f64_fields using large assms by (simp add: f64_classes)
    ultimately show thesis using assms mval_f64_large_Ints [OF large]
      by (intro that [of ?m]) (simp_all add: f64_finite_def raise_inexact_def)
  qed
qed

theorem f64_roundToInt_special:
  shows "f64_isinf a \<Longrightarrow> f64_roundToInt a mode exact st = (a, st)"
    and "f64_isnan a \<Longrightarrow> f64_roundToInt a mode exact st = f64_nan_result a 0 st"
proof -
  have big: "\<not> expF64UI (a) \<le> 0x3FE" "0x433 \<le> expF64UI (a)" "expF64UI (a) = 0x7FF" if "f64_mag a div 2 ^ 52 = 0x7FF"
    unfolding f64_fields that by simp_all
  have fr: "fracF64UI (a) \<noteq> 0 \<longleftrightarrow> f64_mag a mod 2 ^ 52 \<noteq> 0" by (simp only: unat_eq_0 [symmetric] f64_fields)
  show "f64_roundToInt a mode exact st = (a, st)" if "f64_isinf a"
    using that big fr unfolding f64_roundToInt_def Let_def f64_classes by simp
  show "f64_roundToInt a mode exact st = f64_nan_result a 0 st" if "f64_isnan a"
    using that big fr softfloat_propagateNaNF64UI_result [of a 0 st] unfolding f64_roundToInt_def Let_def f64_classes by simp
qed

lemma f32_roundToInt_result:
  assumes "f32_finite a"
  shows "\<exists>z. f32_roundToInt a mode exact st = (z, raise_inexact (mval f32_fmt (f32_mag a) \<notin> \<int> \<and> exact) st) \<and>
             f32_finite z \<and> f32_sign z = f32_sign a \<and>
             mval f32_fmt (f32_mag z) = of_int (rint (sf_rmode mode) (f32_sign a) (mval f32_fmt (f32_mag a)))"
proof -
  obtain m where m: "m < inf_code f32_fmt"
    "mval f32_fmt m = of_int (rint (sf_rmode mode) (f32_sign a) (mval f32_fmt (f32_mag a)))"
    "f32_roundToInt a mode exact st =
     (f32_pack (f32_sign a) m, raise_inexact (mval f32_fmt (f32_mag a) \<notin> \<int> \<and> exact) st)"
    by (rule f32_roundToInt_finite [OF assms])
  have "m < 2 ^ 31" using m(1) by (simp add: inf_code_f32)
  with m show ?thesis by (intro exI [of _ "f32_pack (f32_sign a) m"]) (simp add: f32_finite_def f32_pack_fields)
qed

lemma f64_roundToInt_result:
  assumes "f64_finite a"
  shows "\<exists>z. f64_roundToInt a mode exact st = (z, raise_inexact (mval f64_fmt (f64_mag a) \<notin> \<int> \<and> exact) st) \<and>
             f64_finite z \<and> f64_sign z = f64_sign a \<and>
             mval f64_fmt (f64_mag z) = of_int (rint (sf_rmode mode) (f64_sign a) (mval f64_fmt (f64_mag a)))"
proof -
  obtain m where m: "m < inf_code f64_fmt"
    "mval f64_fmt m = of_int (rint (sf_rmode mode) (f64_sign a) (mval f64_fmt (f64_mag a)))"
    "f64_roundToInt a mode exact st =
     (f64_pack (f64_sign a) m, raise_inexact (mval f64_fmt (f64_mag a) \<notin> \<int> \<and> exact) st)"
    by (rule f64_roundToInt_finite [OF assms])
  have "m < 2 ^ 63" using m(1) by (simp add: inf_code_f64)
  with m show ?thesis by (intro exI [of _ "f64_pack (f64_sign a) m"]) (simp add: f64_finite_def f64_pack_fields)
qed

end
