(* ===== verification/SF_Trunc.thy ===== *)
theory SF_Trunc
  imports SF_ToInt
begin

text \<open>
  The conversions to integers that always truncate
  (\<open>source/{f32,f64}_to_{i32,ui32,i64,ui64}_r_minMag.c\<close>). They shift the significand directly
  instead of calling the rounding routines; each is shown to be the conversion of \<open>SF_ToInt\<close> in
  the direction towards zero.
\<close>

subsection \<open>Truncating conversions\<close>

definition f32_to_i32_r_minMag :: "u32 \<Rightarrow> bool \<Rightarrow> softfloat_state \<Rightarrow> int \<times> softfloat_state" where
  "f32_to_i32_r_minMag a exact st =
     (let uiA = ucast a :: u64;
          e = expF32UI uiA; sig = fracF32UI uiA;
          shiftDist = 0x9E - e
      in if 32 \<le> shiftDist then (0, raise_inexact (exact \<and> word_of_int e OR sig \<noteq> 0) st)
         else let sign = signF32UI uiA
              in if shiftDist \<le> 0
                 then if uiA = packToF32UI True 0x9E 0 then (- 0x7FFFFFFF - 1, st)
                      else (if e = 0xFF \<and> sig \<noteq> 0 then i32_fromNaN
                            else if sign then i32_fromNegOverflow else i32_fromPosOverflow,
                            softfloat_raiseFlags softfloat_flag_invalid st)
                 else let sig = push_bit 8 (sig OR 0x00800000);
                          absZ = sint (drop_bit (nat shiftDist) sig)
                      in (if sign then - absZ else absZ,
                          raise_inexact (exact \<and> push_bit (nat shiftDist) (word_of_int absZ) \<noteq> sig) st))"

definition f32_to_ui32_r_minMag :: "u32 \<Rightarrow> bool \<Rightarrow> softfloat_state \<Rightarrow> u64 \<times> softfloat_state" where
  "f32_to_ui32_r_minMag a exact st =
     (let uiA = ucast a :: u64;
          e = expF32UI uiA; sig = fracF32UI uiA;
          shiftDist = 0x9E - e
      in if 32 \<le> shiftDist then (0, raise_inexact (exact \<and> word_of_int e OR sig \<noteq> 0) st)
         else let sign = signF32UI uiA
              in if sign \<or> shiftDist < 0
                 then (if e = 0xFF \<and> sig \<noteq> 0 then ui32_fromNaN
                       else if sign then ui32_fromNegOverflow else ui32_fromPosOverflow,
                       softfloat_raiseFlags softfloat_flag_invalid st)
                 else let sig = push_bit 8 (sig OR 0x00800000);
                          z = drop_bit (nat shiftDist) sig
                      in (z, raise_inexact (exact \<and> push_bit (nat shiftDist) z \<noteq> sig) st))"

definition f32_to_i64_r_minMag :: "u32 \<Rightarrow> bool \<Rightarrow> softfloat_state \<Rightarrow> int \<times> softfloat_state" where
  "f32_to_i64_r_minMag a exact st =
     (let uiA = ucast a :: u64;
          e = expF32UI uiA; sig = fracF32UI uiA;
          shiftDist = 0xBE - e
      in if 64 \<le> shiftDist then (0, raise_inexact (exact \<and> word_of_int e OR sig \<noteq> 0) st)
         else let sign = signF32UI uiA
              in if shiftDist \<le> 0
                 then if uiA = packToF32UI True 0xBE 0 then (- 0x7FFFFFFFFFFFFFFF - 1, st)
                      else (if e = 0xFF \<and> sig \<noteq> 0 then i64_fromNaN
                            else if sign then i64_fromNegOverflow else i64_fromPosOverflow,
                            softfloat_raiseFlags softfloat_flag_invalid st)
                 else let sig = sig OR 0x00800000;
                          sig64 = push_bit 40 sig;
                          absZ = sint (drop_bit (nat shiftDist) sig64);
                          shiftDist = 40 - shiftDist
                      in (if sign then - absZ else absZ,
                          raise_inexact (exact \<and> shiftDist < 0 \<and>
                            (ucast (push_bit (nat (shiftDist AND 31)) sig) :: u32) \<noteq> 0) st))"

definition f32_to_ui64_r_minMag :: "u32 \<Rightarrow> bool \<Rightarrow> softfloat_state \<Rightarrow> u64 \<times> softfloat_state" where
  "f32_to_ui64_r_minMag a exact st =
     (let uiA = ucast a :: u64;
          e = expF32UI uiA; sig = fracF32UI uiA;
          shiftDist = 0xBE - e
      in if 64 \<le> shiftDist then (0, raise_inexact (exact \<and> word_of_int e OR sig \<noteq> 0) st)
         else let sign = signF32UI uiA
              in if sign \<or> shiftDist < 0
                 then (if e = 0xFF \<and> sig \<noteq> 0 then ui64_fromNaN
                       else if sign then ui64_fromNegOverflow else ui64_fromPosOverflow,
                       softfloat_raiseFlags softfloat_flag_invalid st)
                 else let sig = sig OR 0x00800000;
                          sig64 = push_bit 40 sig;
                          z = drop_bit (nat shiftDist) sig64;
                          shiftDist = 40 - shiftDist
                      in (z, raise_inexact (exact \<and> shiftDist < 0 \<and>
                            (ucast (push_bit (nat (shiftDist AND 31)) sig) :: u32) \<noteq> 0) st))"

definition f64_to_i32_r_minMag :: "u64 \<Rightarrow> bool \<Rightarrow> softfloat_state \<Rightarrow> int \<times> softfloat_state" where
  "f64_to_i32_r_minMag uiA exact st =
     (let e = expF64UI uiA; sig = fracF64UI uiA;
          shiftDist = 0x433 - e
      in if 53 \<le> shiftDist then (0, raise_inexact (exact \<and> word_of_int e OR sig \<noteq> 0) st)
         else let sign = signF64UI uiA
              in if shiftDist < 22
                 then if sign \<and> e = 0x41E \<and> sig < 0x0000000000200000
                      then (- 0x7FFFFFFF - 1, raise_inexact (exact \<and> sig \<noteq> 0) st)
                      else (if e = 0x7FF \<and> sig \<noteq> 0 then i32_fromNaN
                            else if sign then i32_fromNegOverflow else i32_fromPosOverflow,
                            softfloat_raiseFlags softfloat_flag_invalid st)
                 else let sig = sig OR 0x0010000000000000;
                          absZ = sint (drop_bit (nat shiftDist) sig)
                      in (if sign then - absZ else absZ,
                          raise_inexact (exact \<and> push_bit (nat shiftDist) (word_of_int absZ) \<noteq> sig) st))"

definition f64_to_ui32_r_minMag :: "u64 \<Rightarrow> bool \<Rightarrow> softfloat_state \<Rightarrow> u64 \<times> softfloat_state" where
  "f64_to_ui32_r_minMag uiA exact st =
     (let e = expF64UI uiA; sig = fracF64UI uiA;
          shiftDist = 0x433 - e
      in if 53 \<le> shiftDist then (0, raise_inexact (exact \<and> word_of_int e OR sig \<noteq> 0) st)
         else let sign = signF64UI uiA
              in if sign \<or> shiftDist < 21
                 then (if e = 0x7FF \<and> sig \<noteq> 0 then ui32_fromNaN
                       else if sign then ui32_fromNegOverflow else ui32_fromPosOverflow,
                       softfloat_raiseFlags softfloat_flag_invalid st)
                 else let sig = sig OR 0x0010000000000000;
                          z = drop_bit (nat shiftDist) sig
                      in (z, raise_inexact (exact \<and> push_bit (nat shiftDist) z \<noteq> sig) st))"

definition f64_to_i64_r_minMag :: "u64 \<Rightarrow> bool \<Rightarrow> softfloat_state \<Rightarrow> int \<times> softfloat_state" where
  "f64_to_i64_r_minMag uiA exact st =
     (let sign = signF64UI uiA; e = expF64UI uiA; sig = fracF64UI uiA;
          shiftDist = 0x433 - e
      in if shiftDist \<le> 0
         then if shiftDist < - 10
              then if uiA = packToF64UI True 0x43E 0 then (- 0x7FFFFFFFFFFFFFFF - 1, st)
                   else (if e = 0x7FF \<and> sig \<noteq> 0 then i64_fromNaN
                         else if sign then i64_fromNegOverflow else i64_fromPosOverflow,
                         softfloat_raiseFlags softfloat_flag_invalid st)
              else let sig = sig OR 0x0010000000000000;
                       absZ = sint (push_bit (nat (- shiftDist)) sig)
                   in (if sign then - absZ else absZ, st)
         else if 53 \<le> shiftDist then (0, raise_inexact (exact \<and> word_of_int e OR sig \<noteq> 0) st)
         else let sig = sig OR 0x0010000000000000;
                  absZ = sint (drop_bit (nat shiftDist) sig)
              in (if sign then - absZ else absZ,
                  raise_inexact (exact \<and> push_bit (nat shiftDist) (word_of_int absZ) \<noteq> sig) st))"

definition f64_to_ui64_r_minMag :: "u64 \<Rightarrow> bool \<Rightarrow> softfloat_state \<Rightarrow> u64 \<times> softfloat_state" where
  "f64_to_ui64_r_minMag uiA exact st =
     (let e = expF64UI uiA; sig = fracF64UI uiA;
          shiftDist = 0x433 - e
      in if 53 \<le> shiftDist then (0, raise_inexact (exact \<and> word_of_int e OR sig \<noteq> 0) st)
         else let sign = signF64UI uiA;
                  invalid = (if e = 0x7FF \<and> sig \<noteq> 0 then ui64_fromNaN
                             else if sign then ui64_fromNegOverflow else ui64_fromPosOverflow,
                             softfloat_raiseFlags softfloat_flag_invalid st)
              in if sign then invalid
                 else if shiftDist \<le> 0
                 then if shiftDist < - 11 then invalid
                      else (push_bit (nat (- shiftDist)) (sig OR 0x0010000000000000), st)
                 else let sig = sig OR 0x0010000000000000
                      in (drop_bit (nat shiftDist) sig,
                          raise_inexact (exact \<and> push_bit (nat (- shiftDist AND 63)) sig \<noteq> 0) st))"

subsection \<open>Truncated quotients\<close>

lemma rint_RTZ: "rint RTZ s y = \<lfloor>y\<rfloor>"
  by (simp add: rint_def)

lemma round_to_int_trunc:
  assumes "y = real M / 2 ^ d"
  shows "round_to_int lo hi bad RTZ exact s y st =
    (if lo \<le> (if s then - int (M div 2 ^ d) else int (M div 2 ^ d)) \<and> (if s then - int (M div 2 ^ d) else int (M div 2 ^ d)) \<le> hi
     then (if s then - int (M div 2 ^ d) else int (M div 2 ^ d), raise_inexact (exact \<and> M mod 2 ^ d \<noteq> 0) st)
     else (bad, softfloat_raiseFlags softfloat_flag_invalid st))"
proof -
  have "\<lfloor>y\<rfloor> = int (M div 2 ^ d)"
    using floor_divide_of_nat_eq [of M "2 ^ d", where 'a = real] by (simp add: assms)
  moreover have "y \<in> \<int> \<longleftrightarrow> M mod 2 ^ d = 0" by (simp only: assms Ints_nat_div_pow2)
  ultimately show ?thesis by (simp only: round_to_int_def rint_RTZ Let_def conj_commute)
qed

lemma round_to_int_small:
  assumes "0 \<le> y" "y < 1" "lo \<le> 0" "0 \<le> hi"
  shows "round_to_int lo hi bad RTZ exact s y st = (0, raise_inexact (exact \<and> y \<noteq> 0) st)"
proof -
  have fl: "\<lfloor>y\<rfloor> = 0" using assms(1,2) by (simp add: floor_eq_iff)
  then have "y \<in> \<int> \<longleftrightarrow> y = 0" by (metis Ints_0 Ints_cases floor_of_int of_int_0)
  with fl assms(3,4) show ?thesis by (auto simp: round_to_int_def rint_RTZ Let_def conj_commute)
qed

lemma push_drop_eq: "push_bit d (drop_bit d w) = w \<longleftrightarrow> unat w mod 2 ^ d = 0" for w :: "'a::len word"
proof -
  have "push_bit d (drop_bit d w) = w \<longleftrightarrow> take_bit d w = 0" using bits_ident [of d w] by auto
  also have "\<dots> \<longleftrightarrow> unat (take_bit d w) = 0" by (simp only: unat_eq_0)
  also have "unat (take_bit d w) = unat w mod 2 ^ d" by (simp only: unsigned_take_bit_eq) (simp only: take_bit_eq_mod)
  finally show ?thesis .
qed

lemma sint_drop_bit:
  fixes w :: u64
  assumes "unat w div 2 ^ d < 2 ^ 63"
  shows "sint (drop_bit d w) = int (unat w div 2 ^ d)" "word_of_int (int (unat w div 2 ^ d)) = drop_bit d w"
proof -
  have "int (unat w div 2 ^ d) < int (2 ^ 63)" using assms by (simp only: of_nat_less_iff)
  then have lt: "int (unat w div 2 ^ d) < 2 ^ 63" by simp
  show w: "word_of_int (int (unat w div 2 ^ d)) = drop_bit d w"
    by (simp only: unat_drop_bit [symmetric]) (simp only: uint_nat [symmetric] word_of_int_uint)
  have "- (2 ^ 63) \<le> int (unat w div 2 ^ d)" by (rule order_trans [of _ 0]) simp_all
  then show "sint (drop_bit d w) = int (unat w div 2 ^ d)"
    using lt unfolding w [symmetric] by (rule sint_word_of_int64)
qed

lemma f32_trunc_small:
  assumes "f32_mag a div 2 ^ 23 \<le> 150 - 24" "lo \<le> 0" "0 \<le> hi"
  shows "f32_to_int lo hi bad RTZ exact a st =
    (0, raise_inexact (exact \<and> word_of_int (expF32UI (ucast a)) OR fracF32UI (ucast a) \<noteq> 0) st)"
proof -
  define e where "e = f32_mag a div 2 ^ 23"
  have e: "e \<le> 150 - 24" using assms(1) by (simp add: e_def)
  have "hsig 23 (f32_mag a) < 2 * 2 ^ 23" by (rule hsig_less)
  then have "real (hsig 23 (f32_mag a)) < real (2 * 2 ^ 23)" by (simp only: of_nat_less_iff)
  then have h: "real (hsig 23 (f32_mag a)) < 2 ^ 24" by simp
  have "pow2 (int (max 1 e) - 150) \<le> pow2 (- 24)" using e by (subst pow2_le_iff) linarith
  then have "mval f32_fmt (f32_mag a) < 2 ^ 24 * pow2 (- 24)"
    unfolding mval_f32_hsig e_def [symmetric] using h by (intro mult_less_le_imp_less) simp_all
  also have "2 ^ 24 * pow2 (- 24) = 1" by (simp add: power_int_minus)
  finally have lt: "mval f32_fmt (f32_mag a) < 1" .
  have "f32_finite a" using assms(1) by (intro f32_finite_exp_less) simp
  moreover have "word_of_int (expF32UI (ucast a)) OR fracF32UI (ucast a) \<noteq> 0 \<longleftrightarrow> f32_mag a \<noteq> 0"
  proof -
    have "(word_of_int (expF32UI (ucast a)) :: u64) = 0 \<longleftrightarrow> e = 0"
    proof -
      have "unat (word_of_int (int e) :: u64) = e" using e by (subst unat_word_of_int) simp_all
      then show ?thesis unfolding f32_fields e_def [symmetric] by (metis unat_eq_0)
    qed
    moreover have "fracF32UI (ucast a) = 0 \<longleftrightarrow> f32_mag a mod 2 ^ 23 = 0" by (metis f32_fields(3) unat_eq_0)
    ultimately show ?thesis
      unfolding or_eq_0_iff e_def using div_mult_mod_eq [of "f32_mag a" "2 ^ 23"] by auto
  qed
  ultimately show ?thesis
    using round_to_int_small [OF f32.mval_nonneg lt assms(2,3)] by (simp add: f32_to_int_def)
qed

lemma f32_trunc:
  assumes e: "f32_mag a div 2 ^ 23 = e" "e \<noteq> 0" "e < 0xFF" and c: "150 + c = e + d"
  defines "z \<equiv> int ((2 ^ 23 + f32_mag a mod 2 ^ 23) * 2 ^ c div 2 ^ d)"
  shows "f32_to_int lo hi bad RTZ exact a st =
    (if lo \<le> (if f32_sign a then - z else z) \<and> (if f32_sign a then - z else z) \<le> hi
     then (if f32_sign a then - z else z, raise_inexact (exact \<and> (2 ^ 23 + f32_mag a mod 2 ^ 23) * 2 ^ c mod 2 ^ d \<noteq> 0) st)
     else (bad, softfloat_raiseFlags softfloat_flag_invalid st))"
proof -
  have h: "hsig 23 (f32_mag a) = 2 ^ 23 + f32_mag a mod 2 ^ 23" using e by (simp add: hsig_def)
  have fin: "f32_finite a" using e by (intro f32_finite_exp_less) simp
  have "int (max 1 e) - 150 = int c - int d" using c e(2) by linarith
  then have "pow2 (int (max 1 e) - 150) = 2 ^ c / 2 ^ d" by (simp only: pow2_diff pow2_nat)
  then have "mval f32_fmt (f32_mag a) = real ((2 ^ 23 + f32_mag a mod 2 ^ 23) * 2 ^ c) / 2 ^ d"
    unfolding mval_f32_hsig e(1) h by simp
  from round_to_int_trunc [OF this] show ?thesis unfolding f32_to_int_def z_def by (simp only: fin if_True)
qed

lemma f64_trunc_small:
  assumes "f64_mag a div 2 ^ 52 \<le> 1075 - 53" "lo \<le> 0" "0 \<le> hi"
  shows "f64_to_int lo hi bad RTZ exact a st =
    (0, raise_inexact (exact \<and> word_of_int (expF64UI a) OR fracF64UI a \<noteq> 0) st)"
proof -
  define e where "e = f64_mag a div 2 ^ 52"
  have e: "e \<le> 1075 - 53" using assms(1) by (simp add: e_def)
  have "hsig 52 (f64_mag a) < 2 * 2 ^ 52" by (rule hsig_less)
  then have "real (hsig 52 (f64_mag a)) < real (2 * 2 ^ 52)" by (simp only: of_nat_less_iff)
  then have h: "real (hsig 52 (f64_mag a)) < 2 ^ 53" by simp
  have "pow2 (int (max 1 e) - 1075) \<le> pow2 (- 53)" using e by (subst pow2_le_iff) linarith
  then have "mval f64_fmt (f64_mag a) < 2 ^ 53 * pow2 (- 53)"
    unfolding mval_f64_hsig e_def [symmetric] using h by (intro mult_less_le_imp_less) simp_all
  also have "2 ^ 53 * pow2 (- 53) = 1" by (simp add: power_int_minus)
  finally have lt: "mval f64_fmt (f64_mag a) < 1" .
  have "f64_finite a" using assms(1) by (intro f64_finite_exp_less) simp
  moreover have "word_of_int (expF64UI a) OR fracF64UI a \<noteq> 0 \<longleftrightarrow> f64_mag a \<noteq> 0"
  proof -
    have "(word_of_int (expF64UI a) :: u64) = 0 \<longleftrightarrow> e = 0"
    proof -
      have "unat (word_of_int (int e) :: u64) = e" using e by (subst unat_word_of_int) simp_all
      then show ?thesis unfolding f64_fields e_def [symmetric] by (metis unat_eq_0)
    qed
    moreover have "fracF64UI a = 0 \<longleftrightarrow> f64_mag a mod 2 ^ 52 = 0" by (metis f64_fields(3) unat_eq_0)
    ultimately show ?thesis
      unfolding or_eq_0_iff e_def using div_mult_mod_eq [of "f64_mag a" "2 ^ 52"] by auto
  qed
  ultimately show ?thesis
    using round_to_int_small [OF f64.mval_nonneg lt assms(2,3)] by (simp add: f64_to_int_def)
qed

lemma f64_trunc:
  assumes e: "f64_mag a div 2 ^ 52 = e" "e \<noteq> 0" "e < 0x7FF" and c: "1075 + c = e + d"
  defines "z \<equiv> int ((2 ^ 52 + f64_mag a mod 2 ^ 52) * 2 ^ c div 2 ^ d)"
  shows "f64_to_int lo hi bad RTZ exact a st =
    (if lo \<le> (if f64_sign a then - z else z) \<and> (if f64_sign a then - z else z) \<le> hi
     then (if f64_sign a then - z else z, raise_inexact (exact \<and> (2 ^ 52 + f64_mag a mod 2 ^ 52) * 2 ^ c mod 2 ^ d \<noteq> 0) st)
     else (bad, softfloat_raiseFlags softfloat_flag_invalid st))"
proof -
  have h: "hsig 52 (f64_mag a) = 2 ^ 52 + f64_mag a mod 2 ^ 52" using e by (simp add: hsig_def)
  have fin: "f64_finite a" using e by (intro f64_finite_exp_less) simp
  have "int (max 1 e) - 1075 = int c - int d" using c e(2) by linarith
  then have "pow2 (int (max 1 e) - 1075) = 2 ^ c / 2 ^ d" by (simp only: pow2_diff pow2_nat)
  then have "mval f64_fmt (f64_mag a) = real ((2 ^ 52 + f64_mag a mod 2 ^ 52) * 2 ^ c) / 2 ^ d"
    unfolding mval_f64_hsig e(1) h by simp
  from round_to_int_trunc [OF this] show ?thesis unfolding f64_to_int_def z_def by (simp only: fin if_True)
qed

lemma f32_trunc_drop:
  fixes w :: u64
  assumes e: "f32_mag a div 2 ^ 23 = e" "e \<noteq> 0" "e < 0xFF" and c: "150 + c = e + d"
    and w: "unat w = (2 ^ 23 + f32_mag a mod 2 ^ 23) * 2 ^ c" and lt: "unat w div 2 ^ d < 2 ^ k" and k: "k \<le> 63"
  shows "f32_to_int (- (2 ^ k)) (2 ^ k - 1) bad RTZ exact a st =
    (if f32_sign a then - sint (drop_bit d w) else sint (drop_bit d w),
     raise_inexact (exact \<and> unat w mod 2 ^ d \<noteq> 0) st)"
proof -
  have "unat w div 2 ^ d < 2 ^ 63" using lt k by (meson less_le_trans power_increasing one_le_numeral)
  note sd = sint_drop_bit [OF this]
  have "int (unat w div 2 ^ d) < int (2 ^ k)" using lt by (simp only: of_nat_less_iff)
  then have "int (unat w div 2 ^ d) < 2 ^ k" by simp
  moreover have "- int (unat w div 2 ^ d) < 2 ^ k" by (rule le_less_trans [of _ 0]) simp_all
  ultimately show ?thesis
    using f32_trunc [OF e c, of "- (2 ^ k)" "2 ^ k - 1" bad exact st, folded w]
    unfolding sd by (cases "f32_sign a") (simp_all only: if_True if_False, simp_all)
qed

lemma f32_trunc_drop_unsigned:
  fixes w :: u64
  assumes e: "f32_mag a div 2 ^ 23 = e" "e \<noteq> 0" "e < 0xFF" and c: "150 + c = e + d"
    and w: "unat w = (2 ^ 23 + f32_mag a mod 2 ^ 23) * 2 ^ c" and lt: "unat w div 2 ^ d < 2 ^ k" and ge: "2 ^ d \<le> unat w"
  shows "f32_to_int 0 (2 ^ k - 1) bad RTZ exact a st =
    (if f32_sign a then (bad, softfloat_raiseFlags softfloat_flag_invalid st)
     else (uint (drop_bit d w), raise_inexact (exact \<and> unat w mod 2 ^ d \<noteq> 0) st))"
proof -
  have "int (unat w div 2 ^ d) < int (2 ^ k)" using lt by (simp only: of_nat_less_iff)
  then have "int (unat w div 2 ^ d) < 2 ^ k" by simp
  moreover have "0 < unat w div 2 ^ d" using ge by (simp add: div_greater_zero_iff)
  then have "int 0 < int (unat w div 2 ^ d)" by (simp only: of_nat_less_iff)
  ultimately show ?thesis
    using f32_trunc [OF e c, of 0 "2 ^ k - 1" bad exact st, folded w]
    unfolding uint_nat unat_drop_bit by (cases "f32_sign a") (simp_all only: if_True if_False, simp_all)
qed

lemma f64_trunc_drop:
  fixes w :: u64
  assumes e: "f64_mag a div 2 ^ 52 = e" "e \<noteq> 0" "e < 0x7FF" and c: "1075 + c = e + d"
    and w: "unat w = (2 ^ 52 + f64_mag a mod 2 ^ 52) * 2 ^ c" and lt: "unat w div 2 ^ d < 2 ^ k" and k: "k \<le> 63"
  shows "f64_to_int (- (2 ^ k)) (2 ^ k - 1) bad RTZ exact a st =
    (if f64_sign a then - sint (drop_bit d w) else sint (drop_bit d w),
     raise_inexact (exact \<and> unat w mod 2 ^ d \<noteq> 0) st)"
proof -
  have "unat w div 2 ^ d < 2 ^ 63" using lt k by (meson less_le_trans power_increasing one_le_numeral)
  note sd = sint_drop_bit [OF this]
  have "int (unat w div 2 ^ d) < int (2 ^ k)" using lt by (simp only: of_nat_less_iff)
  then have "int (unat w div 2 ^ d) < 2 ^ k" by simp
  moreover have "- int (unat w div 2 ^ d) < 2 ^ k" by (rule le_less_trans [of _ 0]) simp_all
  ultimately show ?thesis
    using f64_trunc [OF e c, of "- (2 ^ k)" "2 ^ k - 1" bad exact st, folded w]
    unfolding sd by (cases "f64_sign a") (simp_all only: if_True if_False, simp_all)
qed

lemma f64_trunc_drop_unsigned:
  fixes w :: u64
  assumes e: "f64_mag a div 2 ^ 52 = e" "e \<noteq> 0" "e < 0x7FF" and c: "1075 + c = e + d"
    and w: "unat w = (2 ^ 52 + f64_mag a mod 2 ^ 52) * 2 ^ c" and lt: "unat w div 2 ^ d < 2 ^ k" and ge: "2 ^ d \<le> unat w"
  shows "f64_to_int 0 (2 ^ k - 1) bad RTZ exact a st =
    (if f64_sign a then (bad, softfloat_raiseFlags softfloat_flag_invalid st)
     else (uint (drop_bit d w), raise_inexact (exact \<and> unat w mod 2 ^ d \<noteq> 0) st))"
proof -
  have "int (unat w div 2 ^ d) < int (2 ^ k)" using lt by (simp only: of_nat_less_iff)
  then have "int (unat w div 2 ^ d) < 2 ^ k" by simp
  moreover have "0 < unat w div 2 ^ d" using ge by (simp add: div_greater_zero_iff)
  then have "int 0 < int (unat w div 2 ^ d)" by (simp only: of_nat_less_iff)
  ultimately show ?thesis
    using f64_trunc [OF e c, of 0 "2 ^ k - 1" bad exact st, folded w]
    unfolding uint_nat unat_drop_bit by (cases "f64_sign a") (simp_all only: if_True if_False, simp_all)
qed

lemma packToF32UI_power:
  assumes "E < 0xFF"
  shows "(ucast a :: u64) = packToF32UI True (int E) 0 \<longleftrightarrow> f32_sign a \<and> f32_mag a div 2 ^ 23 = E \<and> f32_mag a mod 2 ^ 23 = 0"
proof -
  have lt: "E * 2 ^ 23 < 2 ^ 31" using assms by simp
  have p: "ucast (packToF32UI True (int E) 0) = f32_pack True (E * 2 ^ 23)"
    using assms lt by (subst packToF32UI_pack) simp_all
  have "packToF32UI True (int E) 0 = ucast (ucast (packToF32UI True (int E) 0) :: u32)" by (simp add: packToF32UI_def)
  then have "(ucast a :: u64) = packToF32UI True (int E) 0 \<longleftrightarrow> a = f32_pack True (E * 2 ^ 23)" unfolding p by (metis ucast_down_up)
  also have "\<dots> \<longleftrightarrow> f32_sign a \<and> f32_mag a = E * 2 ^ 23" 
  proof
    show "f32_sign a \<and> f32_mag a = E * 2 ^ 23" if "a = f32_pack True (E * 2 ^ 23)"
      unfolding that by (simp only: f32_pack_fields [OF lt])
    show "a = f32_pack True (E * 2 ^ 23)" if "f32_sign a \<and> f32_mag a = E * 2 ^ 23"
      using f32_pack_eq [of a] that by (simp del: f32_pack_eq)
  qed
  also have "f32_mag a = E * 2 ^ 23 \<longleftrightarrow> f32_mag a div 2 ^ 23 = E \<and> f32_mag a mod 2 ^ 23 = 0"
    using div_mult_mod_eq [of "f32_mag a" "2 ^ 23"] by auto
  finally show ?thesis .
qed

lemma packToF64UI_power:
  assumes "E < 0x7FF"
  shows "a = packToF64UI True (int E) 0 \<longleftrightarrow> f64_sign a \<and> f64_mag a div 2 ^ 52 = E \<and> f64_mag a mod 2 ^ 52 = 0"
proof -
  have lt: "E * 2 ^ 52 < 2 ^ 63" using assms by simp
  have p: "packToF64UI True (int E) 0 = f64_pack True (E * 2 ^ 52)"
    using assms lt by (subst packToF64UI_pack) simp_all
  have "a = packToF64UI True (int E) 0 \<longleftrightarrow> a = f64_pack True (E * 2 ^ 52)" unfolding p ..
  also have "\<dots> \<longleftrightarrow> f64_sign a \<and> f64_mag a = E * 2 ^ 52" 
  proof
    show "f64_sign a \<and> f64_mag a = E * 2 ^ 52" if "a = f64_pack True (E * 2 ^ 52)"
      unfolding that by (simp only: f64_pack_fields [OF lt])
    show "a = f64_pack True (E * 2 ^ 52)" if "f64_sign a \<and> f64_mag a = E * 2 ^ 52"
      using f64_pack_eq [of a] that by (simp del: f64_pack_eq)
  qed
  also have "f64_mag a = E * 2 ^ 52 \<longleftrightarrow> f64_mag a div 2 ^ 52 = E \<and> f64_mag a mod 2 ^ 52 = 0"
    using div_mult_mod_eq [of "f64_mag a" "2 ^ 52"] by auto
  finally show ?thesis .
qed

lemma push_drop_neq: "push_bit d (word_of_int (sint (drop_bit d w))) \<noteq> w \<longleftrightarrow> unat w mod 2 ^ d \<noteq> 0" for w :: u64
  by (simp add: push_drop_eq)

lemma lost_bits40:
  fixes sig :: u64
  assumes "unat sig < 2 ^ 32" "d < 64"
  shows "unat sig * 2 ^ 40 mod 2 ^ d \<noteq> 0 \<longleftrightarrow>
    40 - int d < 0 \<and> (ucast (push_bit (nat ((40 - int d) AND 31)) sig) :: u32) \<noteq> 0"
proof (cases "d \<le> 40")
  case True
  then have "(2 :: nat) ^ d dvd 2 ^ 40" by (rule le_imp_power_dvd)
  then have "unat sig * 2 ^ 40 mod 2 ^ d = 0" by simp
  with True show ?thesis by simp
next
  case False
  define j where "j = d - 40"
  have j: "d = 40 + j" "0 < j" "j < 24" using False assms(2) by (simp_all add: j_def)
  have "(40 - int d) AND 31 = (40 - int d) mod 2 ^ 5" using take_bit_eq_mask [of 5 "40 - int d"] by (simp add: take_bit_eq_mod mask_eq_exp_minus_1)
  also have "\<dots> = 32 - int j" using j int_mod_range [of "- 1" 32 "40 - int d"] by simp
  finally have n: "nat ((40 - int d) AND 31) = 32 - j" using j by simp
  have "(ucast (push_bit (32 - j) sig) :: u32) = push_bit (32 - j) (ucast sig)"
    by (rule bit_eqI) (auto simp: bit_simps)
  then have "(ucast (push_bit (32 - j) sig) :: u32) = 0 \<longleftrightarrow> unat sig mod 2 ^ j = 0"
    using j assms(1) push_bit_eq_0_iff_mod [of "32 - j" "ucast sig :: u32"] by (simp add: unat_ucast_down32)
  moreover have "unat sig * 2 ^ 40 mod 2 ^ d = unat sig mod 2 ^ j * 2 ^ 40"
    using mod_mult_mult2 [of "unat sig" "2 ^ 40" "2 ^ j"] by (simp only: j(1) power_add mult.commute)
  moreover have "40 - int d < 0" using j by simp
  ultimately show ?thesis unfolding n by simp
qed

theorem f32_to_i32_r_minMag_round:
  "f32_to_i32_r_minMag a exact st = f32_to_int (- (2 ^ 31)) (2 ^ 31 - 1) (- (2 ^ 31)) RTZ exact a st"
proof -
  define e f where "e = f32_mag a div 2 ^ 23" and "f = f32_mag a mod 2 ^ 23"
  have f: "f < 2 ^ 23" by (simp add: f_def)
  have sig: "unat (fracF32UI (ucast a) OR 0x00800000) = 2 ^ 23 + f" by (simp only: f32_hidden f_def)
  have ex: "expF32UI (ucast a) = int e" by (simp only: f32_fields e_def)
  consider (small) "e \<le> 150 - 24" | (mid) "127 \<le> e" "e \<le> 157" | (edge) "e = 158" | (large) "159 \<le> e" by linarith
  then show ?thesis
  proof cases
    case small
    from f32_trunc_small [of a, folded e_def, OF this, of "- (2 ^ 31)" "2 ^ 31 - 1" "- (2 ^ 31)" exact st] small show ?thesis
      by (simp add: f32_to_i32_r_minMag_def Let_def ex)
  next
    case mid
    define d where "d = 158 - e"
    have d: "0 < d" "d < 32" "150 + 8 = e + d" "0x9E - int e = int d" using mid by (simp_all add: d_def)
    let ?w = "push_bit 8 (fracF32UI (ucast a) OR 0x00800000)"
    have w: "unat ?w = (2 ^ 23 + f) * 2 ^ 8" unfolding sig [symmetric] using f by (intro unat_push_bit) (simp add: sig)
    have "(2 :: nat) ^ 1 \<le> 2 ^ d" using d(1) by (intro power_increasing) simp_all
    then have "2 ^ 31 * (2 :: nat) \<le> 2 ^ 31 * 2 ^ d" by simp
    then have "(2 ^ 23 + f) * 2 ^ 8 < 2 ^ 31 * 2 ^ d" using f by simp
    then have lt: "unat ?w div 2 ^ d < 2 ^ 31" unfolding w by (simp only: div_less_iff_less_mult zero_less_power zero_less_numeral)
    have res: "f32_to_int (- (2 ^ 31)) (2 ^ 31 - 1) (- (2 ^ 31)) RTZ exact a st =
        (if f32_sign a then - sint (drop_bit d ?w) else sint (drop_bit d ?w), raise_inexact (exact \<and> unat ?w mod 2 ^ d \<noteq> 0) st)"
      using mid by (intro f32_trunc_drop [OF e_def [symmetric] _ _ d(3) w [unfolded f_def] lt]) simp_all
    have "\<not> 32 \<le> int d" "\<not> int d \<le> 0" using d by simp_all
    then show ?thesis
      unfolding res f32_to_i32_r_minMag_def Let_def ex d(4) nat_int push_drop_neq signF32UI_ucast by (simp only: if_False)
  next
    case edge
    have "f32_to_int (- (2 ^ 31)) (2 ^ 31 - 1) (- (2 ^ 31)) RTZ exact a st =
        (if f32_sign a \<and> f = 0 then (- (2 ^ 31), raise_inexact False st) else (- (2 ^ 31), softfloat_raiseFlags softfloat_flag_invalid st))"
      using f32_trunc [of a e 8 0 "- (2 ^ 31)" "2 ^ 31 - 1" "- (2 ^ 31)" exact st] edge
      unfolding e_def [symmetric] f_def [symmetric] by auto
    with edge show ?thesis
      using packToF32UI_power [of 158 a, folded e_def f_def] by (auto simp: f32_to_i32_r_minMag_def Let_def ex raise_inexact_def)
  next
    case large
    then have "f32_to_int (- (2 ^ 31)) (2 ^ 31 - 1) (- (2 ^ 31)) RTZ exact a st = (- (2 ^ 31), softfloat_raiseFlags softfloat_flag_invalid st)"
      by (intro f32_to_int_large [of 159]) (simp_all add: e_def)
    with large show ?thesis
      using packToF32UI_power [of 158 a, folded e_def f_def] by (simp add: f32_to_i32_r_minMag_def Let_def ex)
  qed
qed

theorem f32_to_i64_r_minMag_round:
  "f32_to_i64_r_minMag a exact st = f32_to_int (- (2 ^ 63)) (2 ^ 63 - 1) (- (2 ^ 63)) RTZ exact a st"
proof -
  define e f where "e = f32_mag a div 2 ^ 23" and "f = f32_mag a mod 2 ^ 23"
  have f: "f < 2 ^ 23" by (simp add: f_def)
  have sig: "unat (fracF32UI (ucast a) OR 0x00800000) = 2 ^ 23 + f" by (simp only: f32_hidden f_def)
  have ex: "expF32UI (ucast a) = int e" by (simp only: f32_fields e_def)
  consider (small) "e \<le> 150 - 24" | (mid) "127 \<le> e" "e \<le> 189" | (edge) "e = 190" | (large) "191 \<le> e" by linarith
  then show ?thesis
  proof cases
    case small
    from f32_trunc_small [of a, folded e_def, OF this, of "- (2 ^ 63)" "2 ^ 63 - 1" "- (2 ^ 63)" exact st] small show ?thesis
      by (simp add: f32_to_i64_r_minMag_def Let_def ex)
  next
    case mid
    define d where "d = 190 - e"
    have d: "0 < d" "d < 64" "150 + 40 = e + d" "0xBE - int e = int d" using mid by (simp_all add: d_def)
    let ?w = "push_bit 40 (fracF32UI (ucast a) OR 0x00800000)"
    have w: "unat ?w = (2 ^ 23 + f) * 2 ^ 40" unfolding sig [symmetric] using f by (intro unat_push_bit) (simp add: sig)
    have "(2 :: nat) ^ 1 \<le> 2 ^ d" using d(1) by (intro power_increasing) simp_all
    then have "2 ^ 63 * (2 :: nat) \<le> 2 ^ 63 * 2 ^ d" by simp
    then have "(2 ^ 23 + f) * 2 ^ 40 < 2 ^ 63 * 2 ^ d" using f by simp
    then have lt: "unat ?w div 2 ^ d < 2 ^ 63" unfolding w by (simp only: div_less_iff_less_mult zero_less_power zero_less_numeral)
    have res: "f32_to_int (- (2 ^ 63)) (2 ^ 63 - 1) (- (2 ^ 63)) RTZ exact a st =
        (if f32_sign a then - sint (drop_bit d ?w) else sint (drop_bit d ?w), raise_inexact (exact \<and> unat ?w mod 2 ^ d \<noteq> 0) st)"
      using mid by (intro f32_trunc_drop [OF e_def [symmetric] _ _ d(3) w [unfolded f_def] lt]) simp_all
    have lost: "unat ?w mod 2 ^ d \<noteq> 0 \<longleftrightarrow>
        40 - int d < 0 \<and> (ucast (push_bit (nat ((40 - int d) AND 31)) (fracF32UI (ucast a) OR 0x00800000)) :: u32) \<noteq> 0"
      unfolding w sig [symmetric] using d(2) f by (intro lost_bits40) (simp_all add: sig)
    have "\<not> 64 \<le> int d" "\<not> int d \<le> 0" using d by simp_all
    then show ?thesis
      unfolding res f32_to_i64_r_minMag_def Let_def ex d(4) nat_int lost [symmetric] signF32UI_ucast by (simp only: if_False)
  next
    case edge
    have "f32_to_int (- (2 ^ 63)) (2 ^ 63 - 1) (- (2 ^ 63)) RTZ exact a st =
        (if f32_sign a \<and> f = 0 then (- (2 ^ 63), raise_inexact False st) else (- (2 ^ 63), softfloat_raiseFlags softfloat_flag_invalid st))"
      using f32_trunc [of a e 40 0 "- (2 ^ 63)" "2 ^ 63 - 1" "- (2 ^ 63)" exact st] edge
      unfolding e_def [symmetric] f_def [symmetric] by auto
    with edge show ?thesis
      using packToF32UI_power [of 190 a, folded e_def f_def] by (auto simp: f32_to_i64_r_minMag_def Let_def ex raise_inexact_def)
  next
    case large
    then have "f32_to_int (- (2 ^ 63)) (2 ^ 63 - 1) (- (2 ^ 63)) RTZ exact a st = (- (2 ^ 63), softfloat_raiseFlags softfloat_flag_invalid st)"
      by (intro f32_to_int_large [of 191]) (simp_all add: e_def)
    with large show ?thesis
      using packToF32UI_power [of 190 a, folded e_def f_def] by (simp add: f32_to_i64_r_minMag_def Let_def ex)
  qed
qed

theorem f32_to_ui32_r_minMag_round:
  "apfst uint (f32_to_ui32_r_minMag a exact st) = f32_to_int 0 (2 ^ 32 - 1) (2 ^ 32 - 1) RTZ exact a st"
proof -
  define e f where "e = f32_mag a div 2 ^ 23" and "f = f32_mag a mod 2 ^ 23"
  have f: "f < 2 ^ 23" by (simp add: f_def)
  have sig: "unat (fracF32UI (ucast a) OR 0x00800000) = 2 ^ 23 + f" by (simp only: f32_hidden f_def)
  have ex: "expF32UI (ucast a) = int e" by (simp only: f32_fields e_def)
  consider (small) "e \<le> 150 - 24" | (mid) "127 \<le> e" "e \<le> 158" | (large) "159 \<le> e" by linarith
  then show ?thesis
  proof cases
    case small
    from f32_trunc_small [of a, folded e_def, OF this, of 0 "2 ^ 32 - 1" "2 ^ 32 - 1" exact st] small show ?thesis
      by (simp add: f32_to_ui32_r_minMag_def Let_def ex)
  next
    case mid
    define d where "d = 158 - e"
    have d: "d < 32" "150 + 8 = e + d" "0x9E - int e = int d" using mid by (simp_all add: d_def)
    let ?w = "push_bit 8 (fracF32UI (ucast a) OR 0x00800000)"
    have w: "unat ?w = (2 ^ 23 + f) * 2 ^ 8" unfolding sig [symmetric] using f by (intro unat_push_bit) (simp add: sig)
    have "unat ?w < 2 ^ 32" unfolding w using f by simp
    then have lt: "unat ?w div 2 ^ d < 2 ^ 32" by (rule le_less_trans [OF div_le_dividend])
    have "(2 :: nat) ^ d \<le> 2 ^ (32 - 1)" using d by (intro power_increasing) simp_all
    then have ge: "2 ^ d \<le> unat ?w" unfolding w by simp
    have res: "f32_to_int 0 (2 ^ 32 - 1) (2 ^ 32 - 1) RTZ exact a st =
        (if f32_sign a then (2 ^ 32 - 1, softfloat_raiseFlags softfloat_flag_invalid st)
         else (uint (drop_bit d ?w), raise_inexact (exact \<and> unat ?w mod 2 ^ d \<noteq> 0) st))"
      using mid by (intro f32_trunc_drop_unsigned [OF e_def [symmetric] _ _ d(2) w [unfolded f_def] lt ge]) simp_all
    have "\<not> 32 \<le> int d" "\<not> int d < 0" using d by simp_all
    then show ?thesis
      unfolding res f32_to_ui32_r_minMag_def Let_def ex d(3) nat_int push_drop_eq signF32UI_ucast
      by (cases "f32_sign a") simp_all
  next
    case large
    then have "f32_to_int 0 (2 ^ 32 - 1) (2 ^ 32 - 1) RTZ exact a st = (2 ^ 32 - 1, softfloat_raiseFlags softfloat_flag_invalid st)"
      by (intro f32_to_int_large [of 159]) (simp_all add: e_def)
    with large show ?thesis by (simp add: f32_to_ui32_r_minMag_def Let_def ex)
  qed
qed

theorem f32_to_ui64_r_minMag_round:
  "apfst uint (f32_to_ui64_r_minMag a exact st) = f32_to_int 0 (2 ^ 64 - 1) (2 ^ 64 - 1) RTZ exact a st"
proof -
  define e f where "e = f32_mag a div 2 ^ 23" and "f = f32_mag a mod 2 ^ 23"
  have f: "f < 2 ^ 23" by (simp add: f_def)
  have sig: "unat (fracF32UI (ucast a) OR 0x00800000) = 2 ^ 23 + f" by (simp only: f32_hidden f_def)
  have ex: "expF32UI (ucast a) = int e" by (simp only: f32_fields e_def)
  consider (small) "e \<le> 150 - 24" | (mid) "127 \<le> e" "e \<le> 190" | (large) "191 \<le> e" by linarith
  then show ?thesis
  proof cases
    case small
    from f32_trunc_small [of a, folded e_def, OF this, of 0 "2 ^ 64 - 1" "2 ^ 64 - 1" exact st] small show ?thesis
      by (simp add: f32_to_ui64_r_minMag_def Let_def ex)
  next
    case mid
    define d where "d = 190 - e"
    have d: "d < 64" "150 + 40 = e + d" "0xBE - int e = int d" using mid by (simp_all add: d_def)
    let ?w = "push_bit 40 (fracF32UI (ucast a) OR 0x00800000)"
    have w: "unat ?w = (2 ^ 23 + f) * 2 ^ 40" unfolding sig [symmetric] using f by (intro unat_push_bit) (simp add: sig)
    have "unat ?w < 2 ^ 64" unfolding w using f by simp
    then have lt: "unat ?w div 2 ^ d < 2 ^ 64" by (rule le_less_trans [OF div_le_dividend])
    have "(2 :: nat) ^ d \<le> 2 ^ (64 - 1)" using d by (intro power_increasing) simp_all
    then have ge: "2 ^ d \<le> unat ?w" unfolding w by simp
    have res: "f32_to_int 0 (2 ^ 64 - 1) (2 ^ 64 - 1) RTZ exact a st =
        (if f32_sign a then (2 ^ 64 - 1, softfloat_raiseFlags softfloat_flag_invalid st)
         else (uint (drop_bit d ?w), raise_inexact (exact \<and> unat ?w mod 2 ^ d \<noteq> 0) st))"
      using mid by (intro f32_trunc_drop_unsigned [OF e_def [symmetric] _ _ d(2) w [unfolded f_def] lt ge]) simp_all
    have lost: "unat ?w mod 2 ^ d \<noteq> 0 \<longleftrightarrow>
        40 - int d < 0 \<and> (ucast (push_bit (nat ((40 - int d) AND 31)) (fracF32UI (ucast a) OR 0x00800000)) :: u32) \<noteq> 0"
      unfolding w sig [symmetric] using d(1) f by (intro lost_bits40) (simp_all add: sig)
    have "\<not> 64 \<le> int d" "\<not> int d < 0" using d by simp_all
    then show ?thesis
      unfolding res f32_to_ui64_r_minMag_def Let_def ex d(3) nat_int lost [symmetric] signF32UI_ucast
      by (cases "f32_sign a") simp_all
  next
    case large
    then have "f32_to_int 0 (2 ^ 64 - 1) (2 ^ 64 - 1) RTZ exact a st = (2 ^ 64 - 1, softfloat_raiseFlags softfloat_flag_invalid st)"
      by (intro f32_to_int_large [of 191]) (simp_all add: e_def)
    with large show ?thesis by (simp add: f32_to_ui64_r_minMag_def Let_def ex)
  qed
qed

theorem f64_to_i32_r_minMag_round:
  "f64_to_i32_r_minMag a exact st = f64_to_int (- (2 ^ 31)) (2 ^ 31 - 1) (- (2 ^ 31)) RTZ exact a st"
proof -
  define e f where "e = f64_mag a div 2 ^ 52" and "f = f64_mag a mod 2 ^ 52"
  have f: "f < 2 ^ 52" by (simp add: f_def)
  have sig: "unat (fracF64UI a OR 0x0010000000000000) = (2 ^ 52 + f) * 2 ^ 0" by (simp only: f64_hidden f_def) simp
  have ex: "expF64UI a = int e" by (simp only: f64_fields e_def)
  let ?w = "fracF64UI a OR 0x0010000000000000"
  consider (small) "e \<le> 1075 - 53" | (mid) "1023 \<le> e" "e \<le> 1053" | (edge) "e = 1054" | (large) "1055 \<le> e" by linarith
  then show ?thesis
  proof cases
    case small
    from f64_trunc_small [of a, folded e_def, OF this, of "- (2 ^ 31)" "2 ^ 31 - 1" "- (2 ^ 31)" exact st] small show ?thesis
      by (simp add: f64_to_i32_r_minMag_def Let_def ex)
  next
    case mid
    define d where "d = 1075 - e"
    have d: "22 \<le> d" "d \<le> 52" "1075 + 0 = e + d" "0x433 - int e = int d" using mid by (simp_all add: d_def)
    have "(2 :: nat) ^ 22 \<le> 2 ^ d" using d by (intro power_increasing) simp_all
    then have "2 ^ 31 * 2 ^ 22 \<le> 2 ^ 31 * (2 :: nat) ^ d" by simp
    moreover have "(2 ^ 52 + f) * 2 ^ 0 < 2 ^ 31 * 2 ^ 22" using f by simp
    ultimately have "unat ?w < 2 ^ 31 * 2 ^ d" unfolding sig by (rule less_le_trans [rotated])
    then have lt: "unat ?w div 2 ^ d < 2 ^ 31" by (simp only: div_less_iff_less_mult zero_less_power zero_less_numeral)
    have res: "f64_to_int (- (2 ^ 31)) (2 ^ 31 - 1) (- (2 ^ 31)) RTZ exact a st =
        (if f64_sign a then - sint (drop_bit d ?w) else sint (drop_bit d ?w), raise_inexact (exact \<and> unat ?w mod 2 ^ d \<noteq> 0) st)"
      using mid by (intro f64_trunc_drop [OF e_def [symmetric] _ _ d(3) sig [unfolded f_def] lt]) simp_all
    have "\<not> 53 \<le> int d" "\<not> int d < 22" using d by simp_all
    then show ?thesis
      unfolding res f64_to_i32_r_minMag_def Let_def ex d(4) nat_int push_drop_neq signF64UI_eq by (simp only: if_False)
  next
    case edge
    have "(2 ^ 52 + f) * 2 ^ 0 div 2 ^ 21 = 2 ^ 31 + f div 2 ^ 21" "(2 ^ 52 + f) * 2 ^ 0 mod 2 ^ 21 = f mod 2 ^ 21"
      using div_mult_self4 [of "2 ^ 21" "2 ^ 31" f] mod_mult_self4 [of "2 ^ 21" "2 ^ 31" f] by simp_all
    moreover have "f div 2 ^ 21 = 0 \<longleftrightarrow> f < 2 ^ 21" by (simp add: div_eq_0_iff)
    moreover have sl: "fracF64UI a < 0x0000000000200000 \<longleftrightarrow> f < 2 ^ 21" "fracF64UI a = 0 \<longleftrightarrow> f = 0"
      by (simp_all add: word_less_nat_alt word_unat_eq_iff f64_fields f_def)
    ultimately have "f64_to_int (- (2 ^ 31)) (2 ^ 31 - 1) (- (2 ^ 31)) RTZ exact a st =
        (if f64_sign a \<and> f < 2 ^ 21 then (- (2 ^ 31), raise_inexact (exact \<and> f \<noteq> 0) st) else (- (2 ^ 31), softfloat_raiseFlags softfloat_flag_invalid st))"
      using f64_trunc [of a e 0 21 "- (2 ^ 31)" "2 ^ 31 - 1" "- (2 ^ 31)" exact st] edge
      unfolding e_def [symmetric] f_def [symmetric] by (cases "f < 2 ^ 21") auto
    with edge sl show ?thesis by (auto simp: f64_to_i32_r_minMag_def Let_def ex signF64UI_eq)
  next
    case large
    then have "f64_to_int (- (2 ^ 31)) (2 ^ 31 - 1) (- (2 ^ 31)) RTZ exact a st = (- (2 ^ 31), softfloat_raiseFlags softfloat_flag_invalid st)"
      by (intro f64_to_int_large [of 1055]) (simp_all add: e_def)
    with large show ?thesis by (simp add: f64_to_i32_r_minMag_def Let_def ex)
  qed
qed

theorem f64_to_ui32_r_minMag_round:
  "apfst uint (f64_to_ui32_r_minMag a exact st) = f64_to_int 0 (2 ^ 32 - 1) (2 ^ 32 - 1) RTZ exact a st"
proof -
  define e f where "e = f64_mag a div 2 ^ 52" and "f = f64_mag a mod 2 ^ 52"
  have f: "f < 2 ^ 52" by (simp add: f_def)
  have sig: "unat (fracF64UI a OR 0x0010000000000000) = (2 ^ 52 + f) * 2 ^ 0" by (simp only: f64_hidden f_def) simp
  have ex: "expF64UI a = int e" by (simp only: f64_fields e_def)
  let ?w = "fracF64UI a OR 0x0010000000000000"
  consider (small) "e \<le> 1075 - 53" | (mid) "1023 \<le> e" "e \<le> 1054" | (large) "1055 \<le> e" by linarith
  then show ?thesis
  proof cases
    case small
    from f64_trunc_small [of a, folded e_def, OF this, of 0 "2 ^ 32 - 1" "2 ^ 32 - 1" exact st] small show ?thesis
      by (simp add: f64_to_ui32_r_minMag_def Let_def ex)
  next
    case mid
    define d where "d = 1075 - e"
    have d: "21 \<le> d" "d \<le> 52" "1075 + 0 = e + d" "0x433 - int e = int d" using mid by (simp_all add: d_def)
    have "(2 :: nat) ^ 21 \<le> 2 ^ d" using d by (intro power_increasing) simp_all
    then have "2 ^ 32 * 2 ^ 21 \<le> 2 ^ 32 * (2 :: nat) ^ d" by simp
    moreover have "(2 ^ 52 + f) * 2 ^ 0 < 2 ^ 32 * 2 ^ 21" using f by simp
    ultimately have "unat ?w < 2 ^ 32 * 2 ^ d" unfolding sig by (rule less_le_trans [rotated])
    then have lt: "unat ?w div 2 ^ d < 2 ^ 32" by (simp only: div_less_iff_less_mult zero_less_power zero_less_numeral)
    have "(2 :: nat) ^ d \<le> 2 ^ 52" using d by (intro power_increasing) simp_all
    then have ge: "2 ^ d \<le> unat ?w" unfolding sig by simp
    have res: "f64_to_int 0 (2 ^ 32 - 1) (2 ^ 32 - 1) RTZ exact a st =
        (if f64_sign a then (2 ^ 32 - 1, softfloat_raiseFlags softfloat_flag_invalid st)
         else (uint (drop_bit d ?w), raise_inexact (exact \<and> unat ?w mod 2 ^ d \<noteq> 0) st))"
      using mid by (intro f64_trunc_drop_unsigned [OF e_def [symmetric] _ _ d(3) sig [unfolded f_def] lt ge]) simp_all
    have "\<not> 53 \<le> int d" "\<not> int d < 21" using d by simp_all
    then show ?thesis
      unfolding res f64_to_ui32_r_minMag_def Let_def ex d(4) nat_int push_drop_eq signF64UI_eq
      by (cases "f64_sign a") simp_all
  next
    case large
    then have "f64_to_int 0 (2 ^ 32 - 1) (2 ^ 32 - 1) RTZ exact a st = (2 ^ 32 - 1, softfloat_raiseFlags softfloat_flag_invalid st)"
      by (intro f64_to_int_large [of 1055]) (simp_all add: e_def)
    with large show ?thesis by (simp add: f64_to_ui32_r_minMag_def Let_def ex)
  qed
qed

theorem f64_to_i64_r_minMag_round:
  "f64_to_i64_r_minMag a exact st = f64_to_int (- (2 ^ 63)) (2 ^ 63 - 1) (- (2 ^ 63)) RTZ exact a st"
proof -
  define e f where "e = f64_mag a div 2 ^ 52" and "f = f64_mag a mod 2 ^ 52"
  have f: "f < 2 ^ 52" by (simp add: f_def)
  have sig: "unat (fracF64UI a OR 0x0010000000000000) = (2 ^ 52 + f) * 2 ^ 0" by (simp only: f64_hidden f_def) simp
  have ex: "expF64UI a = int e" by (simp only: f64_fields e_def)
  let ?w = "fracF64UI a OR 0x0010000000000000"
  consider (small) "e \<le> 1075 - 53" | (mid) "1023 \<le> e" "e \<le> 1074" | (left) "1075 \<le> e" "e \<le> 1085" | (edge) "e = 1086" | (large) "1087 \<le> e" by linarith
  then show ?thesis
  proof cases
    case small
    from f64_trunc_small [of a, folded e_def, OF this, of "- (2 ^ 63)" "2 ^ 63 - 1" "- (2 ^ 63)" exact st] small show ?thesis
      by (simp add: f64_to_i64_r_minMag_def Let_def ex)
  next
    case mid
    define d where "d = 1075 - e"
    have d: "1 \<le> d" "d \<le> 52" "1075 + 0 = e + d" "0x433 - int e = int d" using mid by (simp_all add: d_def)
    have "unat ?w < 2 ^ 63" unfolding sig using f by simp
    then have lt: "unat ?w div 2 ^ d < 2 ^ 63" by (rule le_less_trans [OF div_le_dividend])
    have res: "f64_to_int (- (2 ^ 63)) (2 ^ 63 - 1) (- (2 ^ 63)) RTZ exact a st =
        (if f64_sign a then - sint (drop_bit d ?w) else sint (drop_bit d ?w), raise_inexact (exact \<and> unat ?w mod 2 ^ d \<noteq> 0) st)"
      using mid by (intro f64_trunc_drop [OF e_def [symmetric] _ _ d(3) sig [unfolded f_def] lt]) simp_all
    have "\<not> 53 \<le> int d" "\<not> int d \<le> 0" using d by simp_all
    then show ?thesis
      unfolding res f64_to_i64_r_minMag_def Let_def ex d(4) nat_int push_drop_neq signF64UI_eq by (simp only: if_False)
  next
    case left
    define c where "c = e - 1075"
    have c: "c \<le> 10" "1075 + c = e + 0" "nat (- (0x433 - int e)) = c" using left by (simp_all add: c_def)
    have "(2 :: nat) ^ c \<le> 2 ^ 10" using c by (intro power_increasing) simp_all
    then have "(2 ^ 52 + f) * 2 ^ c < 2 ^ 53 * 2 ^ 10" using f by (intro mult_less_le_imp_less) simp_all
    then have lt0: "(2 ^ 52 + f) * 2 ^ c < 2 ^ 63" by simp
    have w: "unat (push_bit c ?w) = (2 ^ 52 + f) * 2 ^ c" using lt0 sig by (subst unat_push_bit) simp_all
    have lt: "unat (push_bit c ?w) div 2 ^ 0 < 2 ^ 63" unfolding w using lt0 by simp
    have res: "f64_to_int (- (2 ^ 63)) (2 ^ 63 - 1) (- (2 ^ 63)) RTZ exact a st =
        (if f64_sign a then - sint (drop_bit 0 (push_bit c ?w)) else sint (drop_bit 0 (push_bit c ?w)), raise_inexact (exact \<and> unat (push_bit c ?w) mod 2 ^ 0 \<noteq> 0) st)"
      using left by (intro f64_trunc_drop [OF e_def [symmetric] _ _ c(2) w [unfolded f_def] lt]) simp_all
    have "0x433 - int e \<le> 0" "\<not> 0x433 - int e < - 10" using left by simp_all
    then show ?thesis
      unfolding res f64_to_i64_r_minMag_def Let_def ex c(3) signF64UI_eq by (simp only: if_True if_False) (simp add: raise_inexact_def)
  next
    case edge
    have "f64_to_int (- (2 ^ 63)) (2 ^ 63 - 1) (- (2 ^ 63)) RTZ exact a st =
        (if f64_sign a \<and> f = 0 then (- (2 ^ 63), raise_inexact False st) else (- (2 ^ 63), softfloat_raiseFlags softfloat_flag_invalid st))"
      using f64_trunc [of a e 11 0 "- (2 ^ 63)" "2 ^ 63 - 1" "- (2 ^ 63)" exact st] edge
      unfolding e_def [symmetric] f_def [symmetric] by auto
    with edge show ?thesis
      using packToF64UI_power [of 1086 a, folded e_def f_def] by (auto simp: f64_to_i64_r_minMag_def Let_def ex raise_inexact_def)
  next
    case large
    then have "f64_to_int (- (2 ^ 63)) (2 ^ 63 - 1) (- (2 ^ 63)) RTZ exact a st = (- (2 ^ 63), softfloat_raiseFlags softfloat_flag_invalid st)"
      by (intro f64_to_int_large [of 1087]) (simp_all add: e_def)
    with large show ?thesis
      using packToF64UI_power [of 1086 a, folded e_def f_def] by (simp add: f64_to_i64_r_minMag_def Let_def ex)
  qed
qed

theorem f64_to_ui64_r_minMag_round:
  "apfst uint (f64_to_ui64_r_minMag a exact st) = f64_to_int 0 (2 ^ 64 - 1) (2 ^ 64 - 1) RTZ exact a st"
proof -
  define e f where "e = f64_mag a div 2 ^ 52" and "f = f64_mag a mod 2 ^ 52"
  have f: "f < 2 ^ 52" by (simp add: f_def)
  have sig: "unat (fracF64UI a OR 0x0010000000000000) = (2 ^ 52 + f) * 2 ^ 0" by (simp only: f64_hidden f_def) simp
  have ex: "expF64UI a = int e" by (simp only: f64_fields e_def)
  let ?w = "fracF64UI a OR 0x0010000000000000"
  consider (small) "e \<le> 1075 - 53" | (mid) "1023 \<le> e" "e \<le> 1074" | (left) "1075 \<le> e" "e \<le> 1086" | (large) "1087 \<le> e" by linarith
  then show ?thesis
  proof cases
    case small
    from f64_trunc_small [of a, folded e_def, OF this, of 0 "2 ^ 64 - 1" "2 ^ 64 - 1" exact st] small show ?thesis
      by (simp add: f64_to_ui64_r_minMag_def Let_def ex)
  next
    case mid
    define d where "d = 1075 - e"
    have d: "1 \<le> d" "d \<le> 52" "1075 + 0 = e + d" "0x433 - int e = int d" using mid by (simp_all add: d_def)
    have "unat ?w < 2 ^ 64" unfolding sig using f by simp
    then have lt: "unat ?w div 2 ^ d < 2 ^ 64" by (rule le_less_trans [OF div_le_dividend])
    have "(2 :: nat) ^ d \<le> 2 ^ 52" using d by (intro power_increasing) simp_all
    then have ge: "2 ^ d \<le> unat ?w" unfolding sig by simp
    have res: "f64_to_int 0 (2 ^ 64 - 1) (2 ^ 64 - 1) RTZ exact a st =
        (if f64_sign a then (2 ^ 64 - 1, softfloat_raiseFlags softfloat_flag_invalid st)
         else (uint (drop_bit d ?w), raise_inexact (exact \<and> unat ?w mod 2 ^ d \<noteq> 0) st))"
      using mid by (intro f64_trunc_drop_unsigned [OF e_def [symmetric] _ _ d(3) sig [unfolded f_def] lt ge]) simp_all
    have "- int d AND 63 = (- int d) mod 2 ^ 6" using take_bit_eq_mask [of 6 "- int d"] by (simp add: take_bit_eq_mod mask_eq_exp_minus_1)
    also have "\<dots> = 64 - int d" using d int_mod_range [of "- 1" 64 "- int d"] by simp
    finally have n: "nat (- int d AND 63) = 64 - d" using d by simp
    have lost: "push_bit (64 - d) ?w = 0 \<longleftrightarrow> unat ?w mod 2 ^ d = 0"
      using push_bit_eq_0_iff_mod [of "64 - d" ?w] d by simp
    have "\<not> 53 \<le> int d" "\<not> int d \<le> 0" using d by simp_all
    then show ?thesis
      unfolding res f64_to_ui64_r_minMag_def Let_def ex d(4) n nat_int lost signF64UI_eq
      by (cases "f64_sign a") simp_all
  next
    case left
    define c where "c = e - 1075"
    have c: "c \<le> 11" "1075 + c = e + 0" "nat (- (0x433 - int e)) = c" using left by (simp_all add: c_def)
    have "(2 :: nat) ^ c \<le> 2 ^ 11" using c by (intro power_increasing) simp_all
    then have "(2 ^ 52 + f) * 2 ^ c < 2 ^ 53 * 2 ^ 11" using f by (intro mult_less_le_imp_less) simp_all
    then have lt0: "(2 ^ 52 + f) * 2 ^ c < 2 ^ 64" by simp
    have w: "unat (push_bit c ?w) = (2 ^ 52 + f) * 2 ^ c" using lt0 sig by (subst unat_push_bit) simp_all
    have lt: "unat (push_bit c ?w) div 2 ^ 0 < 2 ^ 64" and ge: "2 ^ 0 \<le> unat (push_bit c ?w)" unfolding w using lt0 by simp_all
    have res: "f64_to_int 0 (2 ^ 64 - 1) (2 ^ 64 - 1) RTZ exact a st =
        (if f64_sign a then (2 ^ 64 - 1, softfloat_raiseFlags softfloat_flag_invalid st)
         else (uint (drop_bit 0 (push_bit c ?w)), raise_inexact (exact \<and> unat (push_bit c ?w) mod 2 ^ 0 \<noteq> 0) st))"
      using left by (intro f64_trunc_drop_unsigned [OF e_def [symmetric] _ _ c(2) w [unfolded f_def] lt ge]) simp_all
    have "\<not> 53 \<le> 0x433 - int e" "0x433 - int e \<le> 0" "\<not> 0x433 - int e < - 11" using left by simp_all
    then show ?thesis
      unfolding res f64_to_ui64_r_minMag_def Let_def ex c(3) signF64UI_eq
      by (cases "f64_sign a") (simp_all add: raise_inexact_def)
  next
    case large
    then have "f64_to_int 0 (2 ^ 64 - 1) (2 ^ 64 - 1) RTZ exact a st = (2 ^ 64 - 1, softfloat_raiseFlags softfloat_flag_invalid st)"
      by (intro f64_to_int_large [of 1087]) (simp_all add: e_def)
    with large show ?thesis by (simp add: f64_to_ui64_r_minMag_def Let_def ex)
  qed
qed

lemma apfst_uint_inject: "apfst uint x = apfst uint y \<longleftrightarrow> x = y" for x y :: "'a::len word \<times> 'b"
  by (cases x; cases y) (simp add: word_uint_eq_iff)

end
