(* ===== verification/SF_Laws.thy ===== *)
theory SF_Laws
  imports SF_Mul SF_Div SF_RoundToInt SF_Trunc
begin

text \<open>
  What the arithmetic of both formats promises its callers, proved once from the contract
  \<open>rounded_arith\<close>: the operations commute, they are exact when the exact result is a number of the
  format, they deliver a nearest number in the modes to nearest, and the difference of two
  numbers within a factor of two of each other is exact.
\<close>

subsection \<open>Rounding to a nearest number\<close>

context float_format
begin

lemma mval_gap: "pow2 (ulp_exp fmt 0) \<le> mval fmt (Suc m) - mval fmt m"
proof -
  obtain e q where "m = e * 2 ^ F + q" "2 ^ F \<le> q \<or> e = 0" "q < 2 * 2 ^ F" by (rule code_cases)
  then have "mval fmt (Suc m) - mval fmt m = pow2 (ulp_exp fmt e)" by (simp add: mval_Suc_code)
  moreover have "ulp_exp fmt 0 \<le> ulp_exp fmt e" by (simp add: ulp_exp_def)
  ultimately show ?thesis by simp
qed

lemma mval_unbounded: "\<exists>k. x < mval fmt k"
proof -
  have ge: "real k * pow2 (ulp_exp fmt 0) \<le> mval fmt k" for k
  proof (induction k)
    case (Suc k)
    have "real (Suc k) * pow2 (ulp_exp fmt 0) = real k * pow2 (ulp_exp fmt 0) + pow2 (ulp_exp fmt 0)" by (simp add: algebra_simps)
    also have "\<dots> \<le> mval fmt (Suc k)" using Suc mval_gap [of k] by linarith
    finally show ?case .
  qed simp
  obtain k where "x < real k * pow2 (ulp_exp fmt 0)" using reals_Archimedean3 [of "pow2 (ulp_exp fmt 0)"] by auto
  with ge [of k] show ?thesis by (meson less_le_trans)
qed

lemma mfloor_bounds:
  assumes "0 \<le> x"
  shows "mval fmt (mfloor fmt x) \<le> x" "x < mval fmt (Suc (mfloor fmt x))"
proof -
  obtain k where "x < mval fmt k" using mval_unbounded by blast
  then have "x < mval fmt (Suc k)" using mval_less_Suc [of k] by (rule less_trans)
  then show "x < mval fmt (Suc (mfloor fmt x))" unfolding mfloor_def by (rule LeastI)
  show "mval fmt (mfloor fmt x) \<le> x"
  proof (cases "mfloor fmt x")
    case (Suc j)
    then have "\<not> x < mval fmt (Suc j)" unfolding mfloor_def by (metis lessI not_less_Least)
    then show ?thesis by (simp add: Suc)
  qed (simp add: assms)
qed

text \<open>Rounding to nearest leaves no code nearer; the directed modes stay on their side.\<close>

lemma round_mag_nearest:
  assumes x: "0 \<le> x" and rm: "rm = RNE \<or> rm = RMM"
  shows "\<bar>mval fmt (round_mag fmt rm s x) - x\<bar> \<le> \<bar>mval fmt j - x\<bar>"
proof -
  define k where "k = mfloor fmt x"
  note b = mfloor_bounds [OF x, folded k_def]
  define g where "g = mval fmt (Suc k) - mval fmt k"
  define t where "t = (x - mval fmt k) / g"
  have g: "0 < g" using mval_less_Suc [of k] by (simp add: g_def)
  have xt: "x - mval fmt k = t * g" using g by (simp add: t_def)
  have up: "mval fmt (Suc k) - x = (1 - t) * g" using xt by (simp add: g_def algebra_simps)
  have rnd: "round_mag fmt rm s x = k + of_bool (rnd_up rm s (odd k) t)"
    by (simp add: round_mag_def k_def t_def g_def Let_def)
  have "mval fmt j \<le> mval fmt k \<or> mval fmt (Suc k) \<le> mval fmt j" by (simp add: Suc_le_eq) linarith
  then have j: "t * g \<le> \<bar>mval fmt j - x\<bar> \<or> (1 - t) * g \<le> \<bar>mval fmt j - x\<bar>" unfolding xt [symmetric] up [symmetric] by linarith
  show ?thesis
  proof (cases "rnd_up rm s (odd k) t")
    case True
    then have "1 / 2 \<le> t" using rm by auto
    then have "(1 - t) * g \<le> t * g" using g by simp
    moreover have "\<bar>mval fmt (round_mag fmt rm s x) - x\<bar> = (1 - t) * g" using True b(2) up by (simp add: rnd)
    ultimately show ?thesis using j by linarith
  next
    case False
    then have "t \<le> 1 / 2" using rm by auto
    then have "t * g \<le> (1 - t) * g" using g by simp
    moreover have "\<bar>mval fmt (round_mag fmt rm s x) - x\<bar> = t * g" using False b(1) xt by (simp add: rnd)
    ultimately show ?thesis using j by linarith
  qed
qed

lemma round_mag_directed:
  assumes "0 \<le> x"
  shows "rm = RTZ \<or> rm = RDN \<and> \<not> s \<or> rm = RUP \<and> s \<Longrightarrow> mval fmt (round_mag fmt rm s x) \<le> x"
    and "rm = RUP \<and> \<not> s \<or> rm = RDN \<and> s \<Longrightarrow> x \<le> mval fmt (round_mag fmt rm s x)"
proof -
  define k where "k = mfloor fmt x"
  note b = mfloor_bounds [OF assms, folded k_def]
  define t where "t = (x - mval fmt k) / (mval fmt (Suc k) - mval fmt k)"
  have rnd: "round_mag fmt rm s x = k + of_bool (rnd_up rm s (odd k) t)"
    by (simp add: round_mag_def k_def t_def Let_def)
  have t: "0 < t \<longleftrightarrow> mval fmt k < x" using mval_less_Suc [of k] by (simp add: t_def zero_less_divide_iff)
  show "rm = RTZ \<or> rm = RDN \<and> \<not> s \<or> rm = RUP \<and> s \<Longrightarrow> mval fmt (round_mag fmt rm s x) \<le> x"
    using b unfolding rnd by auto
  show "rm = RUP \<and> \<not> s \<or> rm = RDN \<and> s \<Longrightarrow> x \<le> mval fmt (round_mag fmt rm s x)"
    using b t unfolding rnd by (auto simp: not_less)
qed

text \<open>
  Every multiple of a unit in the last place with at most \<open>F + 1\<close> bits is a number of the format;
  so the difference of two numbers within a factor of two of each other is one.
\<close>

lemma mval_multiple:
  assumes "n \<le> 2 * 2 ^ F"
  shows "\<exists>m \<le> e * 2 ^ F + n. mval fmt m = real n * pow2 (ulp_exp fmt e)"
  using assms
proof (induction e arbitrary: n)
  case 0
  then show ?case using mval_code [of n 0] by auto
next
  case (Suc e)
  show ?case
  proof (cases "2 ^ F \<le> n")
    case True
    then show ?thesis using mval_code [of n "Suc e"] Suc.prems by auto
  next
    case False
    then have "2 * n \<le> 2 * 2 ^ F" by simp
    from Suc.IH [OF this] obtain m where m: "m \<le> e * 2 ^ F + 2 * n" "mval fmt m = real (2 * n) * pow2 (ulp_exp fmt e)" by blast
    have "ulp_exp fmt (Suc e) = ulp_exp fmt e + 1" by (simp add: ulp_exp_def)
    then have "mval fmt m = real n * pow2 (ulp_exp fmt (Suc e))" using m(2) by (simp add: power_int_add_1)
    moreover have "m \<le> Suc e * 2 ^ F + n" using m(1) False by simp
    ultimately show ?thesis by blast
  qed
qed

lemma mval_multiple_of_ulp:
  assumes "m = e * 2 ^ F + q" "2 ^ F \<le> q \<or> e = 0" "q < 2 * 2 ^ F" "m \<le> n"
  shows "\<exists>N. mval fmt n = real N * pow2 (ulp_exp fmt e)"
proof -
  obtain e' q' where n: "n = e' * 2 ^ F + q'" "2 ^ F \<le> q' \<or> e' = 0" "q' < 2 * 2 ^ F" by (rule code_cases)
  have "e \<le> e'"
  proof (rule ccontr)
    assume "\<not> e \<le> e'"
    then have "Suc e' \<le> e" by simp
    then have "Suc e' * 2 ^ F \<le> e * 2 ^ F" by (rule mult_right_mono) simp
    moreover have "2 ^ F \<le> q" using assms(2) \<open>\<not> e \<le> e'\<close> by auto
    ultimately show False using n(1,3) assms(1,4) by simp
  qed
  then have "ulp_exp fmt e' = ulp_exp fmt e + int (e' - e)" by (simp add: ulp_exp_def)
  then have "mval fmt n = real (q' * 2 ^ (e' - e)) * pow2 (ulp_exp fmt e)"
    using n mval_code [of q' e'] by (simp add: pow2_add pow2_nat)
  then show ?thesis by blast
qed

lemma sterbenz_mag:
  assumes "m \<le> n" "mval fmt n \<le> 2 * mval fmt m"
  obtains d where "mval fmt d = mval fmt n - mval fmt m" "d \<le> m"
proof -
  obtain e q where m: "m = e * 2 ^ F + q" "2 ^ F \<le> q \<or> e = 0" "q < 2 * 2 ^ F" by (rule code_cases)
  obtain N where N: "mval fmt n = real N * pow2 (ulp_exp fmt e)" using mval_multiple_of_ulp [OF m assms(1)] by blast
  have mv: "mval fmt m = real q * pow2 (ulp_exp fmt e)" using m mval_code [of q e] by simp
  have "mval fmt m \<le> mval fmt n" using assms(1) by simp
  then have "q \<le> N" unfolding N mv by simp
  moreover have "N \<le> 2 * q" using assms(2) unfolding N mv by (simp add: mult.assoc [symmetric] flip: of_nat_le_iff)
  ultimately have "N - q \<le> q" by simp
  then have "N - q \<le> 2 * 2 ^ F" using m(3) by simp
  from mval_multiple [OF this, of e] obtain d where d: "mval fmt d = real (N - q) * pow2 (ulp_exp fmt e)" by blast
  then have "mval fmt d = mval fmt n - mval fmt m" using \<open>q \<le> N\<close> by (simp add: N mv of_nat_diff left_diff_distrib)
  moreover have "d \<le> m" using calculation assms(2) mval_le_iff [of d m] by simp
  ultimately show thesis by (rule that)
qed

end

subsection \<open>Correctly rounded arithmetic\<close>

text \<open>
  The contract of the arithmetic of a format: the exact result, handed to a rounding that is
  exact on the numbers of the format and otherwise delivers a nearest one.
\<close>

locale rounded_arith =
  fixes sgn :: "'w \<Rightarrow> bool" and val :: "'w \<Rightarrow> real" and fin :: "'w \<Rightarrow> bool"
    and rnd :: "bool \<Rightarrow> real \<Rightarrow> softfloat_state \<Rightarrow> 'w \<times> softfloat_state"
    and add sub mul quot :: "'w \<Rightarrow> 'w \<Rightarrow> softfloat_state \<Rightarrow> 'w \<times> softfloat_state"
  assumes rnd_exact: "fin c \<Longrightarrow> (val c = 0 \<Longrightarrow> sgn c = s) \<Longrightarrow> rnd s (val c) st = (c, st)"
    and rnd_nearest: "st_rmode st = RNE \<or> st_rmode st = RMM \<Longrightarrow> fin (fst (rnd s x st)) \<Longrightarrow> fin c \<Longrightarrow>
          \<bar>val (fst (rnd s x st)) - x\<bar> \<le> \<bar>val c - x\<bar>"
    and close_diff: "fin a \<Longrightarrow> fin b \<Longrightarrow> 0 \<le> val b \<Longrightarrow> val b \<le> 2 * val a \<Longrightarrow> val a \<le> 2 * val b \<Longrightarrow>
          \<exists>c. fin c \<and> val c = val a - val b"
    and add_rnd: "fin a \<Longrightarrow> fin b \<Longrightarrow>
          add a b st = rnd (if sgn a = sgn b then sgn a else st_rmode st = RDN) (val a + val b) st"
    and sub_rnd: "fin a \<Longrightarrow> fin b \<Longrightarrow>
          sub a b st = rnd (if sgn a \<noteq> sgn b then sgn a else st_rmode st = RDN) (val a - val b) st"
    and mul_rnd: "fin a \<Longrightarrow> fin b \<Longrightarrow> mul a b st = rnd (sgn a \<noteq> sgn b) (val a * val b) st"
    and quot_rnd: "fin a \<Longrightarrow> fin b \<Longrightarrow> val b \<noteq> 0 \<Longrightarrow> quot a b st = rnd (sgn a \<noteq> sgn b) (val a / val b) st"
begin

lemma add_commute: "fin a \<Longrightarrow> fin b \<Longrightarrow> add a b st = add b a st"
  by (simp add: add_rnd add.commute)

lemma mul_commute:
  assumes "fin a" "fin b"
  shows "mul a b st = mul b a st"
proof -
  have "(sgn a \<noteq> sgn b) = (sgn b \<noteq> sgn a)" by blast
  then show ?thesis unfolding mul_rnd [OF assms] mul_rnd [OF assms(2,1)] by (simp only: mult.commute)
qed

lemma exact:
  assumes "fin c" "val c \<noteq> 0"
  shows "val c = x \<Longrightarrow> rnd s x st = (c, st)"
  using rnd_exact [OF assms(1), of s st] assms(2) by auto

lemma arith_exact:
  assumes "fin a" "fin b" "fin c" "val c \<noteq> 0"
  shows "val c = val a + val b \<Longrightarrow> add a b st = (c, st)"
    and "val c = val a - val b \<Longrightarrow> sub a b st = (c, st)"
    and "val c = val a * val b \<Longrightarrow> mul a b st = (c, st)"
    and "val b \<noteq> 0 \<Longrightarrow> val c = val a / val b \<Longrightarrow> quot a b st = (c, st)"
  using assms by (simp_all add: add_rnd sub_rnd mul_rnd quot_rnd exact)

lemma exact_product_quot:
  assumes "fin a" "fin b" "fin c" "val c \<noteq> 0" "val c = val a * val b"
  shows "mul a b st = (c, st)" "quot c b st = (a, st)"
proof -
  have nz: "val a \<noteq> 0" "val b \<noteq> 0" using assms(4,5) by auto
  show "mul a b st = (c, st)" by (rule arith_exact(3) [OF assms])
  show "quot c b st = (a, st)" by (rule arith_exact(4) [OF assms(3,2,1) nz]) (simp add: assms(5) nz)
qed

lemma arith_nearest:
  assumes "st_rmode st = RNE \<or> st_rmode st = RMM" "fin a" "fin b" "fin c"
  shows "fin (fst (add a b st)) \<Longrightarrow> \<bar>val (fst (add a b st)) - (val a + val b)\<bar> \<le> \<bar>val c - (val a + val b)\<bar>"
    and "fin (fst (sub a b st)) \<Longrightarrow> \<bar>val (fst (sub a b st)) - (val a - val b)\<bar> \<le> \<bar>val c - (val a - val b)\<bar>"
    and "fin (fst (mul a b st)) \<Longrightarrow> \<bar>val (fst (mul a b st)) - val a * val b\<bar> \<le> \<bar>val c - val a * val b\<bar>"
    and "val b \<noteq> 0 \<Longrightarrow> fin (fst (quot a b st)) \<Longrightarrow> \<bar>val (fst (quot a b st)) - val a / val b\<bar> \<le> \<bar>val c - val a / val b\<bar>"
  using assms rnd_nearest by (simp_all add: add_rnd sub_rnd mul_rnd quot_rnd)

lemma sterbenz:
  assumes "fin a" "fin b" "0 \<le> val b" "val b \<le> 2 * val a" "val a \<le> 2 * val b" "val a \<noteq> val b"
  obtains c where "fin c" "val c = val a - val b" "sub a b st = (c, st)"
proof -
  obtain c where c: "fin c" "val c = val a - val b" using close_diff assms by blast
  then have "sub a b st = (c, st)" using assms by (intro arith_exact(2)) simp_all
  with c show thesis by (rule that)
qed

end

lemma f32_round_signed_exact:
  assumes "f32_finite c" "f32_val c = 0 \<Longrightarrow> f32_sign c = s"
  shows "f32_round_signed s (f32_val c) st = (c, st)"
proof -
  have "f32_round_signed s (f32_val c) st = f32_round_signed (f32_sign c) (f32_val c) st"
    using assms(2) by (cases "f32_val c = 0") (simp_all add: f32_round_signed_def)
  also have "\<dots> = f32_round (f32_sign c) (mval f32_fmt (f32_mag c)) st"
    unfolding f32_val_def by (rule f32_round_signed_sgn) simp
  finally show ?thesis using assms(1) by (simp add: f32_round_exact f32_finite_def)
qed

lemma f32_mag_exists: "m < inf_code f32_fmt \<Longrightarrow> \<exists>c. f32_finite c \<and> f32_sign c = s \<and> f32_mag c = m"
  by (rule exI [of _ "f32_pack s m"]) (simp add: f32_finite_def f32_pack_fields inf_code_f32)

lemma f32_round_finite:
  assumes rm: "st_rmode st = RNE \<or> st_rmode st = RMM" and fin: "f32_finite (fst (f32_round s x st))"
  shows "f32_sign (fst (f32_round s x st)) = s" "f32_mag (fst (f32_round s x st)) = round_mag f32_fmt (st_rmode st) s x"
proof -
  define m where "m = round_mag f32_fmt (st_rmode st) s x"
  have inf: "inf_code f32_fmt < 2 ^ 31" by (simp add: inf_code_f32)
  have "m < inf_code f32_fmt"
  proof (rule ccontr)
    assume "\<not> m < inf_code f32_fmt"
    then have "fst (f32_round s x st) = f32_pack s (inf_code f32_fmt)"
      using rm by (auto simp: f32_round_def ieee_round_def m_def Let_def overflow_mag_def)
    then show False using fin by (simp add: f32_finite_def f32_pack_fields [OF inf])
  qed
  then have "fst (f32_round s x st) = f32_pack s m" "m < 2 ^ 31"
    using inf by (simp_all add: f32_round_def ieee_round_def m_def [symmetric] Let_def)
  then show "f32_sign (fst (f32_round s x st)) = s" "f32_mag (fst (f32_round s x st)) = m"
    by (simp_all add: f32_pack_fields)
qed

lemma f32_round_signed_nearest:
  assumes rm: "st_rmode st = RNE \<or> st_rmode st = RMM" and fin: "f32_finite (fst (f32_round_signed s x st))"
  shows "\<bar>f32_val (fst (f32_round_signed s x st)) - x\<bar> \<le> \<bar>f32_val c - x\<bar>"
proof -
  define t where "t = (if x = 0 then s else x < 0)"
  have x: "x = sgn_val t \<bar>x\<bar>" by (simp add: t_def sgn_val_def)
  have r: "f32_round_signed s x st = f32_round t \<bar>x\<bar> st" by (simp add: f32_round_signed_def t_def)
  define m where "m = round_mag f32_fmt (st_rmode st) t \<bar>x\<bar>"
  have v: "f32_val (fst (f32_round_signed s x st)) = sgn_val t (mval f32_fmt m)"
    using f32_round_finite [OF rm, of t "\<bar>x\<bar>"] fin unfolding r f32_val_def m_def by simp
  have near: "\<bar>mval f32_fmt m - \<bar>x\<bar>\<bar> \<le> \<bar>mval f32_fmt j - \<bar>x\<bar>\<bar>" for j
    unfolding m_def by (rule f32.round_mag_nearest [OF _ rm]) simp
  have "\<bar>sgn_val t (mval f32_fmt m) - x\<bar> = \<bar>mval f32_fmt m - \<bar>x\<bar>\<bar>" by (subst x) (simp add: sgn_val_def abs_minus_commute)
  moreover have "\<bar>mval f32_fmt m - \<bar>x\<bar>\<bar> \<le> \<bar>f32_val c - x\<bar>"
  proof (cases "f32_sign c = t")
    case True
    then have "\<bar>f32_val c - x\<bar> = \<bar>mval f32_fmt (f32_mag c) - \<bar>x\<bar>\<bar>" by (subst x) (simp add: sgn_val_def f32_val_def abs_minus_commute)
    with near show ?thesis by simp
  next
    case False
    obtain M where M: "mval f32_fmt (f32_mag c) = M" "0 \<le> M" by simp
    have "\<bar>x\<bar> \<le> \<bar>f32_val c - x\<bar>"
      unfolding f32_val_def M(1) using False x M(2) by (cases t) (auto simp: sgn_val_def)
    then show ?thesis using near [of 0] by simp
  qed
  ultimately show ?thesis by (simp only: v)
qed

lemma f32_close_diff:
  assumes fin: "f32_finite a" "f32_finite b" and b: "0 \<le> f32_val b"
    and close: "f32_val b \<le> 2 * f32_val a" "f32_val a \<le> 2 * f32_val b"
  shows "\<exists>c. f32_finite c \<and> f32_val c = f32_val a - f32_val b"
proof -
  let ?m = "mval f32_fmt"
  have nn: "f32_val d = ?m (f32_mag d)" if "0 \<le> f32_val d" for d
    using that f32.mval_nonneg [of "f32_mag d"] by (cases "f32_sign d") (auto simp: f32_val_def sgn_val_def simp del: f32.mval_nonneg)
  have "0 \<le> f32_val a" using b close by linarith
  with b have v: "f32_val a = ?m (f32_mag a)" "f32_val b = ?m (f32_mag b)" by (blast intro: nn)+
  have mags: "f32_mag a < inf_code f32_fmt" "f32_mag b < inf_code f32_fmt" using fin by (simp_all add: f32_finite_def)
  consider "f32_mag b \<le> f32_mag a" | "f32_mag a \<le> f32_mag b" by linarith
  then show ?thesis
  proof cases
    case 1
    from f32.sterbenz_mag [OF 1] obtain d where d: "?m d = ?m (f32_mag a) - ?m (f32_mag b)" "d \<le> f32_mag b"
      using close v by auto
    obtain c where "f32_finite c" "\<not> f32_sign c" "f32_mag c = d" using f32_mag_exists [of d False] d(2) mags by auto
    with d show ?thesis by (intro exI [of _ c]) (simp add: f32_val_def [of c] sgn_val_def v)
  next
    case 2
    from f32.sterbenz_mag [OF 2] obtain d where d: "?m d = ?m (f32_mag b) - ?m (f32_mag a)" "d \<le> f32_mag a"
      using close v by auto
    obtain c where "f32_finite c" "f32_sign c" "f32_mag c = d" using f32_mag_exists [of d True] d(2) mags by auto
    with d show ?thesis by (intro exI [of _ c]) (simp add: f32_val_def [of c] sgn_val_def v)
  qed
qed

interpretation f32_arith: rounded_arith f32_sign f32_val f32_finite f32_round_signed f32_add f32_sub f32_mul f32_div
proof (unfold_locales, goal_cases)
  case (1 c s st)
  then show ?case by (rule f32_round_signed_exact)
next
  case (2 st s x c)
  then show ?case by (intro f32_round_signed_nearest)
next
  case (3 a b)
  then show ?case by (rule f32_close_diff)
next
  case (4 a b st)
  then show ?case by (rule f32_add_finite)
next
  case (5 a b st)
  then show ?case by (rule f32_sub_finite)
next
  case (6 a b st)
  then show ?case by (rule f32_mul_finite)
next
  case (7 a b st)
  from 7(3) have "f32_mag b \<noteq> 0" unfolding f32_val_def sgn_val_def by (metis f32.mval_0 neg_equal_0_iff_equal)
  with 7(1,2) show ?case by (rule f32_div_finite)
qed

lemma f64_round_signed_exact:
  assumes "f64_finite c" "f64_val c = 0 \<Longrightarrow> f64_sign c = s"
  shows "f64_round_signed s (f64_val c) st = (c, st)"
proof -
  have "f64_round_signed s (f64_val c) st = f64_round_signed (f64_sign c) (f64_val c) st"
    using assms(2) by (cases "f64_val c = 0") (simp_all add: f64_round_signed_def)
  also have "\<dots> = f64_round (f64_sign c) (mval f64_fmt (f64_mag c)) st"
    unfolding f64_val_def by (rule f64_round_signed_sgn) simp
  finally show ?thesis using assms(1) by (simp add: f64_round_exact f64_finite_def)
qed

lemma f64_mag_exists: "m < inf_code f64_fmt \<Longrightarrow> \<exists>c. f64_finite c \<and> f64_sign c = s \<and> f64_mag c = m"
  by (rule exI [of _ "f64_pack s m"]) (simp add: f64_finite_def f64_pack_fields inf_code_f64)

lemma f64_round_finite:
  assumes rm: "st_rmode st = RNE \<or> st_rmode st = RMM" and fin: "f64_finite (fst (f64_round s x st))"
  shows "f64_sign (fst (f64_round s x st)) = s" "f64_mag (fst (f64_round s x st)) = round_mag f64_fmt (st_rmode st) s x"
proof -
  define m where "m = round_mag f64_fmt (st_rmode st) s x"
  have inf: "inf_code f64_fmt < 2 ^ 63" by (simp add: inf_code_f64)
  have "m < inf_code f64_fmt"
  proof (rule ccontr)
    assume "\<not> m < inf_code f64_fmt"
    then have "fst (f64_round s x st) = f64_pack s (inf_code f64_fmt)"
      using rm by (auto simp: f64_round_def ieee_round_def m_def Let_def overflow_mag_def)
    then show False using fin by (simp add: f64_finite_def f64_pack_fields [OF inf])
  qed
  then have "fst (f64_round s x st) = f64_pack s m" "m < 2 ^ 63"
    using inf by (simp_all add: f64_round_def ieee_round_def m_def [symmetric] Let_def)
  then show "f64_sign (fst (f64_round s x st)) = s" "f64_mag (fst (f64_round s x st)) = m"
    by (simp_all add: f64_pack_fields)
qed

lemma f64_round_signed_nearest:
  assumes rm: "st_rmode st = RNE \<or> st_rmode st = RMM" and fin: "f64_finite (fst (f64_round_signed s x st))"
  shows "\<bar>f64_val (fst (f64_round_signed s x st)) - x\<bar> \<le> \<bar>f64_val c - x\<bar>"
proof -
  define t where "t = (if x = 0 then s else x < 0)"
  have x: "x = sgn_val t \<bar>x\<bar>" by (simp add: t_def sgn_val_def)
  have r: "f64_round_signed s x st = f64_round t \<bar>x\<bar> st" by (simp add: f64_round_signed_def t_def)
  define m where "m = round_mag f64_fmt (st_rmode st) t \<bar>x\<bar>"
  have v: "f64_val (fst (f64_round_signed s x st)) = sgn_val t (mval f64_fmt m)"
    using f64_round_finite [OF rm, of t "\<bar>x\<bar>"] fin unfolding r f64_val_def m_def by simp
  have near: "\<bar>mval f64_fmt m - \<bar>x\<bar>\<bar> \<le> \<bar>mval f64_fmt j - \<bar>x\<bar>\<bar>" for j
    unfolding m_def by (rule f64.round_mag_nearest [OF _ rm]) simp
  have "\<bar>sgn_val t (mval f64_fmt m) - x\<bar> = \<bar>mval f64_fmt m - \<bar>x\<bar>\<bar>" by (subst x) (simp add: sgn_val_def abs_minus_commute)
  moreover have "\<bar>mval f64_fmt m - \<bar>x\<bar>\<bar> \<le> \<bar>f64_val c - x\<bar>"
  proof (cases "f64_sign c = t")
    case True
    then have "\<bar>f64_val c - x\<bar> = \<bar>mval f64_fmt (f64_mag c) - \<bar>x\<bar>\<bar>" by (subst x) (simp add: sgn_val_def f64_val_def abs_minus_commute)
    with near show ?thesis by simp
  next
    case False
    obtain M where M: "mval f64_fmt (f64_mag c) = M" "0 \<le> M" by simp
    have "\<bar>x\<bar> \<le> \<bar>f64_val c - x\<bar>"
      unfolding f64_val_def M(1) using False x M(2) by (cases t) (auto simp: sgn_val_def)
    then show ?thesis using near [of 0] by simp
  qed
  ultimately show ?thesis by (simp only: v)
qed

lemma f64_close_diff:
  assumes fin: "f64_finite a" "f64_finite b" and b: "0 \<le> f64_val b"
    and close: "f64_val b \<le> 2 * f64_val a" "f64_val a \<le> 2 * f64_val b"
  shows "\<exists>c. f64_finite c \<and> f64_val c = f64_val a - f64_val b"
proof -
  let ?m = "mval f64_fmt"
  have nn: "f64_val d = ?m (f64_mag d)" if "0 \<le> f64_val d" for d
    using that f64.mval_nonneg [of "f64_mag d"] by (cases "f64_sign d") (auto simp: f64_val_def sgn_val_def simp del: f64.mval_nonneg)
  have "0 \<le> f64_val a" using b close by linarith
  with b have v: "f64_val a = ?m (f64_mag a)" "f64_val b = ?m (f64_mag b)" by (blast intro: nn)+
  have mags: "f64_mag a < inf_code f64_fmt" "f64_mag b < inf_code f64_fmt" using fin by (simp_all add: f64_finite_def)
  consider "f64_mag b \<le> f64_mag a" | "f64_mag a \<le> f64_mag b" by linarith
  then show ?thesis
  proof cases
    case 1
    from f64.sterbenz_mag [OF 1] obtain d where d: "?m d = ?m (f64_mag a) - ?m (f64_mag b)" "d \<le> f64_mag b"
      using close v by auto
    obtain c where "f64_finite c" "\<not> f64_sign c" "f64_mag c = d" using f64_mag_exists [of d False] d(2) mags by auto
    with d show ?thesis by (intro exI [of _ c]) (simp add: f64_val_def [of c] sgn_val_def v)
  next
    case 2
    from f64.sterbenz_mag [OF 2] obtain d where d: "?m d = ?m (f64_mag b) - ?m (f64_mag a)" "d \<le> f64_mag a"
      using close v by auto
    obtain c where "f64_finite c" "f64_sign c" "f64_mag c = d" using f64_mag_exists [of d True] d(2) mags by auto
    with d show ?thesis by (intro exI [of _ c]) (simp add: f64_val_def [of c] sgn_val_def v)
  qed
qed

interpretation f64_arith: rounded_arith f64_sign f64_val f64_finite f64_round_signed f64_add f64_sub f64_mul f64_div
proof (unfold_locales, goal_cases)
  case (1 c s st)
  then show ?case by (rule f64_round_signed_exact)
next
  case (2 st s x c)
  then show ?case by (intro f64_round_signed_nearest)
next
  case (3 a b)
  then show ?case by (rule f64_close_diff)
next
  case (4 a b st)
  then show ?case by (rule f64_add_finite)
next
  case (5 a b st)
  then show ?case by (rule f64_sub_finite)
next
  case (6 a b st)
  then show ?case by (rule f64_mul_finite)
next
  case (7 a b st)
  from 7(3) have "f64_mag b \<noteq> 0" unfolding f64_val_def sgn_val_def by (metis f64.mval_0 neg_equal_0_iff_equal)
  with 7(1,2) show ?case by (rule f64_div_finite)
qed

subsection \<open>Integers through double precision\<close>

lemma f64_int_exact:
  assumes "\<bar>n\<bar> \<le> 2 ^ 53"
  obtains c where "f64_finite c" "f64_val c = real_of_int n" "\<And>st. f64_round_signed False (real_of_int n) st = (c, st)"
proof -
  have "nat \<bar>n\<bar> \<le> 2 * 2 ^ fracbits f64_fmt" using assms by simp
  from f64.mval_multiple [OF this, of 1074] obtain m
    where m: "m \<le> 1074 * 2 ^ 52 + nat \<bar>n\<bar>" "mval f64_fmt m = real_of_int \<bar>n\<bar>" by (auto simp: ulp_exp_f64)
  have "m < inf_code f64_fmt" using m(1) assms by (simp add: inf_code_f64)
  then obtain c where c: "f64_finite c" "f64_sign c = (n < 0)" "f64_mag c = m" using f64_mag_exists [of m "n < 0"] by auto
  then have v: "f64_val c = real_of_int n" using m(2) by (simp add: f64_val_def sgn_val_def abs_if)
  have "f64_round_signed False (real_of_int n) st = (c, st)" for st
    using f64_round_signed_exact [OF c(1), of False st] c(2) v by simp
  with c v show thesis by (intro that)
qed

lemma f64_to_int_exact:
  assumes "f64_finite c" "f64_val c = real_of_int n" "lo \<le> n" "n \<le> hi"
  shows "f64_to_int lo hi bad rm exact c st = (n, st)"
proof -
  have y: "mval f64_fmt (f64_mag c) = real_of_int (if f64_sign c then - n else n)"
    using assms(2) by (simp add: f64_val_def sgn_val_def split: if_splits)
  show ?thesis unfolding f64_to_int_def round_to_int_def y Let_def rint_of_int using assms(1,3,4) Ints_of_int by (auto simp: raise_inexact_def simp del: of_int_minus)
qed

lemma i32_f64_roundtrip: "f64_to_i32 (i32_to_f64 a) mode exact st = (sint a, st)"
proof -
  have b: "- (2 ^ 31) \<le> sint a" "sint a < 2 ^ 31" using sint_ge [of a] sint_lt [of a] by simp_all
  then have "\<bar>sint a\<bar> \<le> 2 ^ 53" by simp
  then obtain c where c: "f64_finite c" "f64_val c = real_of_int (sint a)" "f64_round_signed False (real_of_int (sint a)) st = (c, st)"
    by (rule f64_int_exact) blast
  have "i32_to_f64 a = c" using i32_to_f64_round [of a st] c(3) by (simp only: prod.inject)
  then show ?thesis using f64_to_int_exact [OF c(1,2)] b by (simp add: f64_to_i32_round)
qed

lemma ui32_f64_roundtrip: "f64_to_ui32 (ui32_to_f64 a) mode exact st = (ucast a, st)"
proof -
  have b: "int (unat a) < 2 ^ 32" using unat_bound [of a] by simp
  then have "\<bar>int (unat a)\<bar> \<le> 2 ^ 53" by simp
  then obtain c where c: "f64_finite c" "f64_val c = real_of_int (int (unat a))" "f64_round_signed False (real_of_int (int (unat a))) st = (c, st)"
    by (rule f64_int_exact) blast
  have "ui32_to_f64 a = c" using ui32_to_f64_round [of a st] c(3) by (simp only: prod.inject of_int_of_nat_eq)
  then have "apfst uint (f64_to_ui32 (ui32_to_f64 a) mode exact st) = (int (unat a), st)"
    using f64_to_int_exact [OF c(1,2)] b by (simp add: f64_to_ui32_round)
  also have "\<dots> = apfst uint (ucast a :: u64, st)" by (simp add: uint_nat unat_ucast32)
  finally show ?thesis by (simp only: apfst_uint_inject)
qed

lemma round_to_int_range:
  assumes "lo \<le> bad" "bad \<le> hi"
  shows "lo \<le> fst (f32_to_int lo hi bad rm exact a st) \<and> fst (f32_to_int lo hi bad rm exact a st) \<le> hi"
    and "lo \<le> fst (f64_to_int lo hi bad rm exact b st) \<and> fst (f64_to_int lo hi bad rm exact b st) \<le> hi"
  using assms by (simp_all add: f32_to_int_def f64_to_int_def round_to_int_def Let_def)

end
