(* ===== verification/SF_MulAdd.thy ===== *)
theory SF_MulAdd
  imports SF_Laws SF_Wide
begin

text \<open>
  Fused multiply-add (\<open>source/s_mulAddF32.c\<close>, \<open>s_mulAddF64.c\<close>, \<open>f32_mulAdd.c\<close>, \<open>f64_mulAdd.c\<close>): the exact
  \<open>a * b + c\<close> is rounded once. The sticky bits kept by the alignment shifts, the borrow of the
  128-bit difference and the normalisation after cancellation all lose nothing the rounding needs.
\<close>

unbundle bit_operations_syntax

abbreviation (input) softfloat_mulAdd_subC :: u8 where "softfloat_mulAdd_subC \<equiv> 1"
abbreviation (input) softfloat_mulAdd_subProd :: u8 where "softfloat_mulAdd_subProd \<equiv> 2"

lemma unat_neg_64: "w \<noteq> 0 \<Longrightarrow> unat (- w) = 2 ^ 64 - unat w" for w :: u64
  using unat_sub_if' [of 0 w] by (simp add: unat_gt_0)

lemma and_top64: "w AND 0x8000000000000000 \<noteq> 0 \<longleftrightarrow> 2 ^ 63 \<le> unat w" for w :: u64
proof -
  have "w AND 0x8000000000000000 \<noteq> 0 \<longleftrightarrow> bit w 63"
    using and_exp_eq_0_iff_not_bit [of w 63] by simp
  also have "\<dots> \<longleftrightarrow> odd (unat w div 2 ^ 63)" using bit_unsigned_iff [of w 63, where 'a = nat] by (simp add: bit_iff_odd)
  also have "\<dots> \<longleftrightarrow> 2 ^ 63 \<le> unat w"
  proof -
    have "unat w div 2 ^ 63 < 2" using unat_bound [of w] by (simp add: less_mult_imp_div_less)
    then show ?thesis by (cases "unat w div 2 ^ 63") (auto simp: div_eq_0_iff)
  qed
  finally show ?thesis .
qed

subsection \<open>Single precision\<close>

text \<open>The end of \<open>softfloat_mulAddF32\<close> for a difference: normalise it to 31 bits and round.\<close>

definition mulAddF32_normRound :: "bool \<Rightarrow> int \<Rightarrow> u64 \<Rightarrow> softfloat_state \<Rightarrow> u32 \<times> softfloat_state" where
  "mulAddF32_normRound signZ expZ sig64Z st =
     (let shiftDist = uint (softfloat_countLeadingZeros64 sig64Z) - 1;
          expZ = expZ - shiftDist;
          shiftDist = shiftDist - 32;
          sigZ = (if shiftDist < 0 then softfloat_shortShiftRightJam64 sig64Z (word_of_int (- shiftDist))
                  else push_bit (nat shiftDist) sig64Z)
      in softfloat_roundPackToF32 signZ expZ sigZ st)"

text \<open>
  The sum of a product and an addend, both normalised: the part of \<open>softfloat_mulAddF32\<close> from the
  difference of the exponents on.
\<close>

definition mulAddF32_sum ::
  "bool \<Rightarrow> int \<Rightarrow> u64 \<Rightarrow> bool \<Rightarrow> int \<Rightarrow> u64 \<Rightarrow> softfloat_state \<Rightarrow> u32 \<times> softfloat_state" where
  "mulAddF32_sum signProd expProd sigProd signC expC sigC st =
     (let expDiff = expProd - expC
      in if signProd = signC then
           let (expZ, sigZ) =
                 (if expDiff \<le> 0
                  then (expC, sigC + softfloat_shiftRightJam64 sigProd (word_of_int (32 - expDiff)))
                  else (expProd,
                        let sig64Z = sigProd + softfloat_shiftRightJam64 (push_bit 32 sigC) (word_of_int expDiff)
                        in softfloat_shortShiftRightJam64 sig64Z 32))
           in if sigZ < 0x40000000
              then softfloat_roundPackToF32 signProd (expZ - 1) (push_bit 1 sigZ) st
              else softfloat_roundPackToF32 signProd expZ sigZ st
         else
           let sig64C = push_bit 32 sigC
           in if expDiff = 0 \<and> sigProd - sig64C = 0
              then (ucast (packToF32UI (softfloat_roundingMode st = softfloat_round_min) 0 0), st)
              else
                let (signZ, expZ, sig64Z) =
                      (if expDiff < 0
                       then (signC, expC, sig64C - softfloat_shiftRightJam64 sigProd (word_of_int (- expDiff)))
                       else if expDiff = 0 then
                         let sig64Z = sigProd - sig64C
                         in if sig64Z AND 0x8000000000000000 \<noteq> 0 then (\<not> signProd, expProd, - sig64Z)
                            else (signProd, expProd, sig64Z)
                       else (signProd, expProd, sigProd - softfloat_shiftRightJam64 sig64C (word_of_int expDiff)))
                in mulAddF32_normRound signZ expZ sig64Z st)"

definition softfloat_mulAddF32 :: "u64 \<Rightarrow> u64 \<Rightarrow> u64 \<Rightarrow> u8 \<Rightarrow> softfloat_state \<Rightarrow> u32 \<times> softfloat_state" where
  "softfloat_mulAddF32 uiA uiB uiC op st =
     (let signA = signF32UI uiA; expA = expF32UI uiA; sigA = fracF32UI uiA;
          signB = signF32UI uiB; expB = expF32UI uiB; sigB = fracF32UI uiB;
          signC = (signF32UI uiC \<noteq> (op = softfloat_mulAdd_subC)); expC = expF32UI uiC; sigC = fracF32UI uiC;
          signProd = ((signA \<noteq> signB) \<noteq> (op = softfloat_mulAdd_subProd));
          propagateNaN_ZC = (\<lambda>uiZ st. case softfloat_propagateNaNF32UI uiZ uiC st of (uiZ, st) \<Rightarrow> (ucast uiZ, st));
          propagateNaN_ABC = (case softfloat_propagateNaNF32UI uiA uiB st of (uiZ, st) \<Rightarrow> propagateNaN_ZC uiZ st);
          invalid = propagateNaN_ZC defaultNaNF32UI (softfloat_raiseFlags softfloat_flag_invalid st);
          infProdArg = (\<lambda>magBits :: u64.
            if magBits \<noteq> 0 then
              let uiZ = packToF32UI signProd 0xFF 0
              in if expC \<noteq> 0xFF then (ucast uiZ, st)
                 else if sigC \<noteq> 0 then propagateNaN_ZC uiZ st
                 else if signProd = signC then (ucast uiZ, st)
                 else invalid
            else invalid);
          zeroProd = (if word_of_int expC OR sigC = 0 \<and> signProd \<noteq> signC
                      then (ucast (packToF32UI (softfloat_roundingMode st = softfloat_round_min) 0 0), st)
                      else (ucast uiC, st))
      in if expA = 0xFF then
           if sigA \<noteq> 0 \<or> expB = 0xFF \<and> sigB \<noteq> 0 then propagateNaN_ABC
           else infProdArg (word_of_int expB OR sigB)
         else if expB = 0xFF then
           if sigB \<noteq> 0 then propagateNaN_ABC
           else infProdArg (word_of_int expA OR sigA)
         else if expC = 0xFF then
           if sigC \<noteq> 0 then propagateNaN_ZC 0 st
           else (ucast uiC, st)
         else if expA = 0 \<and> sigA = 0 then zeroProd
         else
           let (expA, sigA) = (if expA = 0 then softfloat_normSubnormalF32Sig sigA else (expA, sigA))
           in if expB = 0 \<and> sigB = 0 then zeroProd
              else
                let (expB, sigB) = (if expB = 0 then softfloat_normSubnormalF32Sig sigB else (expB, sigB));
                    expProd = expA + expB - 0x7E;
                    sigA = push_bit 7 (sigA OR 0x00800000);
                    sigB = push_bit 7 (sigB OR 0x00800000);
                    sigProd = sigA * sigB;
                    (expProd, sigProd) =
                      (if sigProd < 0x2000000000000000 then (expProd - 1, push_bit 1 sigProd) else (expProd, sigProd))
                in if expC = 0 \<and> sigC = 0
                   then softfloat_roundPackToF32 signProd (expProd - 1) (softfloat_shortShiftRightJam64 sigProd 31) st
                   else
                     let (expC, sigC) = (if expC = 0 then softfloat_normSubnormalF32Sig sigC else (expC, sigC));
                         sigC = push_bit 6 (sigC OR 0x00800000)
                     in mulAddF32_sum signProd expProd sigProd signC expC sigC st)"

definition f32_mulAdd :: "u32 \<Rightarrow> u32 \<Rightarrow> u32 \<Rightarrow> softfloat_state \<Rightarrow> u32 \<times> softfloat_state" where
  "f32_mulAdd a b c st = softfloat_mulAddF32 (ucast a) (ucast b) (ucast c) 0 st"

text \<open>Normalising a difference of up to 63 bits and rounding it.\<close>

lemma mulAddF32_normalise:
  fixes z :: u64
  assumes z: "0 < unat z" "unat z < 2 ^ 63"
    and x: "real (unat z) = x \<or> int (unat z) = rodd x \<and> 2 ^ 31 \<le> unat z"
    and e: "- (2 ^ 14) \<le> e" "e < 2 ^ 14"
  shows "mulAddF32_normRound s e z st = f32_round s (x * pow2 (e - 188)) st"
proof -
  define shiftDist where "shiftDist = uint (softfloat_countLeadingZeros64 z) - 1"
  note def = mulAddF32_normRound_def Let_def shiftDist_def [symmetric]
  have "unat z < 2 ^ (64 - 1)" using z(2) by simp
  then obtain k where k: "uint (softfloat_countLeadingZeros64 z) = int (1 + k)"
    "2 ^ (63 - 1) \<le> unat z * 2 ^ k" "unat z * 2 ^ k < 2 ^ (64 - 1)" by (rule clz64_norm [OF z(1)]) simp
  have k': "2 ^ 62 \<le> unat z * 2 ^ k" "unat z * 2 ^ k < 2 ^ 63" using k(2,3) by simp_all
  have sd: "shiftDist = int k" by (simp add: shiftDist_def k(1))
  have "2 ^ k \<le> unat z * 2 ^ k" using z(1) by simp
  then have "(2 :: nat) ^ k < 2 ^ 63" using k'(2) by (rule le_less_trans)
  then have k63: "k < 63" by (rule power_less_imp_less_exp [rotated]) simp
  show ?thesis
  proof (cases "k < 32")
    case True
    define j where "j = 32 - k"
    have j: "0 < j" "j < 64" "k + j = 32" using True by (simp_all add: j_def)
    have w: "- (shiftDist - 32) = int j" using True by (simp add: sd j_def of_nat_diff)
    have "unat (word_of_int (int j) :: u8) = j" using j by (simp add: unat_of_nat)
    then have jam: "int (unat (softfloat_shortShiftRightJam64 z (word_of_int (int j)))) = rodd (real (unat z) / 2 ^ j)"
      using softfloat_shortShiftRightJam64_rodd [of "word_of_int (int j)" z] j(2) by simp
    have rx: "rodd (real (unat z) / 2 ^ j) = rodd (x / 2 ^ j)"
      using x rodd_rodd_div [OF j(1), of x] by (metis of_int_of_nat_eq)
    define w where "w = softfloat_shortShiftRightJam64 z (word_of_int (int j))"
    have wr: "int (unat w) = rodd (x / 2 ^ j)" unfolding w_def jam rx ..
    then have "real (unat w) = of_int (rodd (x / 2 ^ j))" by (metis of_int_of_nat_eq)
    then have ag: "agree (7 - 1) (real (unat w)) (x / 2 ^ j)" by (simp only:) (rule agree_rodd, simp)
    have ag1: "agree 1 (real (unat z)) x" using x agree_rodd [of 1 x] by (metis agree_refl of_int_of_nat_eq zero_less_one)
    have zk: "2 ^ 30 * 2 ^ j \<le> unat z" "unat z < 2 ^ 31 * 2 ^ j"
    proof -
      have "2 ^ 30 * 2 ^ j * 2 ^ k \<le> unat z * 2 ^ k" "unat z * 2 ^ k < 2 ^ 31 * 2 ^ j * 2 ^ k"
        using k(2,3) j(3) by (simp_all add: mult.assoc power_add [symmetric] add.commute)
      then show "2 ^ 30 * 2 ^ j \<le> unat z" "unat z < 2 ^ 31 * 2 ^ j" by simp_all
    qed
    have "real (2 ^ 30 * 2 ^ j) \<le> real (unat z)" "\<not> real (2 ^ 31 * 2 ^ j) \<le> real (unat z)"
      using zk by (simp_all only: of_nat_le_iff not_le)
    then have "2 ^ 30 * 2 ^ j \<le> x" "x < 2 ^ 31 * 2 ^ j"
      using agree_le_iff [OF ag1, of "2 ^ 29 * 2 ^ j"] agree_le_iff [OF ag1, of "2 ^ 30 * 2 ^ j"] by simp_all
    then have r: "2 ^ 30 \<le> x / 2 ^ j" "x / 2 ^ j < 2 ^ 31" by (simp_all add: pos_le_divide_eq pos_divide_less_eq)
    have "softfloat_roundPackToF32 s (e - int k) w st = f32_round s (x / 2 ^ j * pow2 (e - int k - 156)) st"
      using r ag e k63 by (intro softfloat_roundPackToF32_round) simp_all
    also have "x / 2 ^ j * pow2 (e - int k - 156) = x * pow2 (e - 188)"
    proof -
      have "e - int k - 156 = e - 188 + int j" using j(3) by linarith
      then show ?thesis by (simp only:) (simp only: pow2_add pow2_nat, simp)
    qed
    finally show ?thesis unfolding def using True by (simp add: sd w_def j_def of_nat_diff)
  next
    case False
    define i where "i = k - 32"
    have i: "k = 32 + i" using False by (simp add: i_def)
    have zi: "2 ^ 30 \<le> unat z * 2 ^ i" "unat z * 2 ^ i < 2 ^ 31"
      using k' unfolding i by (simp_all add: power_add)
    have "unat z \<le> unat z * 2 ^ i" by simp
    then have "\<not> 2 ^ 31 \<le> unat z" using zi(2) by linarith
    then have xz: "x = real (unat z)" using x by blast
    have u: "unat (push_bit i z) = unat z * 2 ^ i" using zi by (intro unat_push_bit) simp
    have "real (2 ^ 30) \<le> real (unat z * 2 ^ i)" "real (unat z * 2 ^ i) < real (2 ^ 31)"
      using zi by (simp_all only: of_nat_le_iff of_nat_less_iff)
    then have "softfloat_roundPackToF32 s (e - int k) (push_bit i z) st = f32_round s (real (unat z * 2 ^ i) * pow2 (e - int k - 156)) st"
      using e k63 by (intro softfloat_roundPackToF32_round) (simp_all add: u)
    also have "real (unat z * 2 ^ i) * pow2 (e - int k - 156) = x * pow2 (e - 188)"
      using pow2_shift [of "e - 188" i] by (simp add: xz i algebra_simps)
    finally show ?thesis unfolding def using False by (simp add: sd i_def nat_diff_distrib)
  qed
qed

text \<open>The sum of the two magnitudes, and their difference.\<close>

lemma mulAddF32_sum_add:
  fixes sigProd sigC :: u64
  assumes P: "2 ^ 61 \<le> unat sigProd" "unat sigProd < 2 ^ 62" "even (unat sigProd)"
    and S: "2 ^ 29 \<le> unat sigC" "unat sigC < 2 ^ 30" "even (unat sigC)"
    and e: "- (2 ^ 13) \<le> expProd" "expProd < 2 ^ 13" "- (2 ^ 13) \<le> expC" "expC < 2 ^ 13"
  shows "mulAddF32_sum s expProd sigProd s expC sigC st
    = f32_round s (real (unat sigProd) * pow2 (expProd - 188) + real (unat sigC) * pow2 (expC - 156)) st"
proof (cases "expProd \<le> expC")
  case True
  define d where "d = 32 - (expProd - expC)"
  define J where "J = softfloat_shiftRightJam64 sigProd (word_of_int d)"
  define r where "r = real (unat sigC) + real (unat sigProd) / 2 ^ nat d"
  have d: "0 < d" "d < 2 ^ 64" "32 \<le> d" using True e by (simp_all add: d_def)
  have J: "int (unat J) = rodd (real (unat sigProd) / 2 ^ nat d)" unfolding J_def by (rule jam64_rodd [OF d(1,2)])
  have "(2 :: real) ^ 32 \<le> 2 ^ nat d" using d(3) by (intro power_increasing) simp_all
  then have "real (unat sigProd) / 2 ^ nat d \<le> real (unat sigProd) / 2 ^ 32" by (intro divide_left_mono) simp_all
  also have "\<dots> < 2 ^ 30" using P(2) by simp
  finally have y: "real (unat sigProd) / 2 ^ nat d < 2 ^ 30" .
  then have "int (unat J) < 2 ^ 30" unfolding J using rodd_less_even [of _ "2 ^ 30"] by simp
  then have u: "int (unat (sigC + J)) = int (unat sigC) + int (unat J)" using S(2) by (subst unat_plus) simp_all
  have n: "int (unat (sigC + J)) = rodd r"
    using rodd_add_even [of "int (unat sigC)" "real (unat sigProd) / 2 ^ nat d"] S(3) by (simp add: u J r_def)
  have r: "2 ^ 29 \<le> r" "r < 2 ^ 31"
    using y S(1,2) unfolding r_def by (simp_all add: add_increasing2)
  have v: "r * pow2 (expC - 156) = real (unat sigProd) * pow2 (expProd - 188) + real (unat sigC) * pow2 (expC - 156)"
  proof -
    have "pow2 (expC - 156) = pow2 (expProd - 188) * 2 ^ nat d" using d(1) by (intro pow2_plus) (simp add: d_def)
    then show ?thesis by (simp add: r_def distrib_right)
  qed
  have "mulAddF32_sum s expProd sigProd s expC sigC st =
      (if sigC + J < 0x40000000 then softfloat_roundPackToF32 s (expC - 1) (push_bit 1 (sigC + J)) st
       else softfloat_roundPackToF32 s expC (sigC + J) st)"
    using True by (simp add: mulAddF32_sum_def Let_def d_def J_def)
  also have "\<dots> = f32_round s (r * pow2 (expC - 156)) st"
    using e by (intro softfloat_roundPackToF32_norm1 [OF n r]) simp_all
  finally show ?thesis unfolding v .
next
  case False
  define d where "d = expProd - expC"
  define C where "C = push_bit 32 sigC"
  define J where "J = softfloat_shiftRightJam64 C (word_of_int d)"
  define x where "x = real (unat sigProd) + real (unat C) / 2 ^ nat d"
  have d: "0 < d" "d < 2 ^ 64" "1 \<le> nat d" using False e by (simp_all add: d_def)
  have C: "unat C = unat sigC * 2 ^ 32" unfolding C_def using S(2) by (intro unat_push_bit) simp
  have J: "int (unat J) = rodd (real (unat C) / 2 ^ nat d)" unfolding J_def by (rule jam64_rodd [OF d(1,2)])
  have y: "real (unat C) / 2 ^ nat d \<le> real (unat C) / 2 ^ 1"
    using d(3) by (intro divide_left_mono power_increasing) simp_all
  then have y': "real (unat C) / 2 ^ nat d < 2 ^ 61" using S(2) by (simp add: C)
  then have "int (unat J) < 2 ^ 61" unfolding J using rodd_less_even [of _ "2 ^ 61"] by simp
  then have u: "int (unat (sigProd + J)) = int (unat sigProd) + int (unat J)" using P(2) by (subst unat_plus) simp_all
  have n: "int (unat (sigProd + J)) = rodd x"
    using rodd_add_even [of "int (unat sigProd)" "real (unat C) / 2 ^ nat d"] P(3) by (simp add: u J x_def)
  then have nr: "real (unat (sigProd + J)) = of_int (rodd x)" by (metis of_int_of_nat_eq)
  define z where "z = softfloat_shortShiftRightJam64 (sigProd + J) 32"
  have n': "int (unat z) = rodd (x / 2 ^ 32)"
    using softfloat_shortShiftRightJam64_rodd [of 32 "sigProd + J"] rodd_rodd_div [of 32 x] by (simp add: nr z_def)
  have r: "2 ^ 29 \<le> x / 2 ^ 32" "x / 2 ^ 32 < 2 ^ 31"
    using y' P(1,2) unfolding x_def by (simp_all add: add_increasing2)
  have v: "x / 2 ^ 32 * pow2 (expProd - 156) = real (unat sigProd) * pow2 (expProd - 188) + real (unat sigC) * pow2 (expC - 156)"
  proof -
    have "pow2 (expProd - 156) = pow2 (expC - 156) * 2 ^ nat d" using d(1) by (intro pow2_plus) (simp add: d_def)
    moreover have "pow2 (expProd - 156) = pow2 (expProd - 188) * 2 ^ 32" by (rule pow2_plus) simp
    ultimately show ?thesis by (simp add: x_def C add_divide_distrib distrib_right)
  qed
  have "mulAddF32_sum s expProd sigProd s expC sigC st =
      (if z < 0x40000000 then softfloat_roundPackToF32 s (expProd - 1) (push_bit 1 z) st
       else softfloat_roundPackToF32 s expProd z st)"
    using False by (simp add: mulAddF32_sum_def Let_def d_def C_def J_def z_def)
  also have "\<dots> = f32_round s (x / 2 ^ 32 * pow2 (expProd - 156)) st"
    using e by (intro softfloat_roundPackToF32_norm1 [OF n' r]) simp_all
  finally show ?thesis unfolding v .
qed

lemma diff_rodd:
  fixes m n :: u64
  assumes m: "2 ^ 61 \<le> unat m" "even (unat m)" and n: "unat n < 2 ^ 62" "even (unat n)" and d: "0 < d" "d < 2 ^ 64"
  defines "x \<equiv> real (unat m) - real (unat n) / 2 ^ nat d"
    and "z \<equiv> m - softfloat_shiftRightJam64 n (word_of_int d)"
  shows "0 < x" "0 < unat z" "unat z \<le> unat m" "real (unat z) = x \<or> int (unat z) = rodd x \<and> 2 ^ 31 \<le> unat z"
proof -
  define J where "J = softfloat_shiftRightJam64 n (word_of_int d)"
  define y where "y = real (unat n) / 2 ^ nat d"
  have J: "int (unat J) = rodd y" unfolding J_def y_def by (rule jam64_rodd [OF d])
  have "1 \<le> nat d" using d(1) by simp
  then have "y \<le> real (unat n) / 2 ^ 1" unfolding y_def by (intro divide_left_mono power_increasing) simp_all
  then have y: "y < 2 ^ 61" using n(1) by simp
  then have J61: "int (unat J) < 2 ^ 61" unfolding J using rodd_less_even [of y "2 ^ 61"] by simp
  have x: "x = real (unat m) - y" by (simp add: x_def y_def)
  have "2 ^ 61 \<le> real (unat m)" using m(1) by simp
  then show "0 < x" using y unfolding x by linarith
  have "unat J < 2 ^ 61" using J61 by simp
  then have le: "unat J \<le> unat m" and lt: "unat J < unat m" using m(1) by linarith+
  have u: "unat z = unat m - unat J" unfolding z_def J_def [symmetric] by (rule unat_minus [OF le])
  then show "0 < unat z" "unat z \<le> unat m" using lt by simp_all
  have zi: "int (unat z) = rodd x"
    using rodd_diff_even [of "int (unat m)" y] m(2) le by (simp add: u x J of_nat_diff)
  show "real (unat z) = x \<or> int (unat z) = rodd x \<and> 2 ^ 31 \<le> unat z"
  proof (cases "d = 1")
    case True
    obtain h where "unat n = 2 * h" using n(2) by (auto elim: evenE)
    then have "x = of_int (int (unat m) - int h)" by (simp add: x y_def True)
    then have "rodd x = int (unat m) - int h" "x = of_int (int (unat m) - int h)" by (simp_all only: rodd_of_int)
    then have "real (unat z) = x" using zi by (metis of_int_of_nat_eq)
    then show ?thesis ..
  next
    case False
    then have "2 \<le> nat d" using d(1) by simp
    then have "y \<le> real (unat n) / 2 ^ 2" unfolding y_def by (intro divide_left_mono power_increasing) simp_all
    then have "y < 2 ^ 60" using n(1) by simp
    then have "of_int (2 ^ 60) \<le> x" using m(1) \<open>2 ^ 61 \<le> real (unat m)\<close> unfolding x by simp
    then have "2 ^ 60 \<le> rodd x" by (rule rodd_ge)
    then show ?thesis using zi by simp
  qed
qed

lemma mulAddF32_sum_sub:
  fixes sigProd sigC :: u64
  assumes P: "2 ^ 61 \<le> unat sigProd" "unat sigProd < 2 ^ 62" "even (unat sigProd)"
    and S: "2 ^ 29 \<le> unat sigC" "unat sigC < 2 ^ 30"
    and e: "- (2 ^ 13) \<le> expProd" "expProd < 2 ^ 13" "- (2 ^ 13) \<le> expC" "expC < 2 ^ 13"
  defines "xP \<equiv> real (unat sigProd) * pow2 (expProd - 188)" and "xC \<equiv> real (unat sigC) * pow2 (expC - 156)"
  shows "mulAddF32_sum s expProd sigProd (\<not> s) expC sigC st =
    (if xP = xC then (f32_pack (softfloat_roundingMode st = softfloat_round_min) 0, st)
     else f32_round (if xC < xP then s else \<not> s) \<bar>xP - xC\<bar> st)"
proof -
  define C where "C = push_bit 32 sigC"
  define d where "d = expProd - expC"
  have C: "unat C = unat sigC * 2 ^ 32" unfolding C_def using S(2) by (intro unat_push_bit) simp
  have C': "2 ^ 61 \<le> unat C" "unat C < 2 ^ 62" "even (unat C)" using S by (simp_all add: C)
  have xC: "xC = real (unat C) * pow2 (expC - 188)"
    using pow2_plus [of "expC - 156" "expC - 188" 32] by (simp add: xC_def C)
  note def = mulAddF32_sum_def C_def [symmetric] d_def [symmetric]
  consider "d < 0" | "d = 0" | "0 < d" by linarith
  then show ?thesis
  proof cases
    case 1
    define z where "z = C - softfloat_shiftRightJam64 sigProd (word_of_int (- d))"
    define x where "x = real (unat C) - real (unat sigProd) / 2 ^ nat (- d)"
    have d: "0 < - d" "- d < 2 ^ 64" using 1 e by (simp_all add: d_def)
    note z = diff_rodd [OF C'(1,3) P(2,3) d, folded z_def x_def]
    have "pow2 (expC - 188) = pow2 (expProd - 188) * 2 ^ nat (- d)" using 1 by (intro pow2_plus) (simp add: d_def)
    then have v: "xC - xP = x * pow2 (expC - 188)" by (simp add: xC xP_def x_def left_diff_distrib)
    then have "0 < xC - xP" using z(1) by simp
    then have "\<not> xC < xP" "xP \<noteq> xC" "\<bar>xP - xC\<bar> = x * pow2 (expC - 188)" using v by simp_all
    moreover have "mulAddF32_sum s expProd sigProd (\<not> s) expC sigC st = f32_round (\<not> s) (x * pow2 (expC - 188)) st"
      using 1 mulAddF32_normalise [OF z(2) _ z(4), of expC "\<not> s" st] z(3) C'(2) e
      unfolding def by (simp add: Let_def z_def)
    ultimately show ?thesis by simp
  next
    case 2
    then have v: "xP = real (unat sigProd) * pow2 (expProd - 188)" "xC = real (unat C) * pow2 (expProd - 188)"
      by (simp_all add: xC xP_def d_def)
    consider "unat sigProd = unat C" | "unat C < unat sigProd" | "unat sigProd < unat C" by linarith
    then show ?thesis
    proof cases
      case 1
      then have "sigProd = C" by (simp add: word_unat_eq_iff)
      then show ?thesis using 2 v unfolding def by (simp add: Let_def packToF32UI_pack)
    next
      case a: 2
      define z where "z = sigProd - C"
      have z: "unat z = unat sigProd - unat C" unfolding z_def using a by (intro unat_minus) simp
      then have z': "0 < unat z" "unat z < 2 ^ 63" using a P(2) by simp_all
      have nz: "z \<noteq> 0" "z AND 0x8000000000000000 = 0" using z' and_top64 [of z] by auto
      have "\<bar>xP - xC\<bar> = real (unat z) * pow2 (expProd - 188)" "xC < xP" "xP \<noteq> xC"
        using a by (simp_all add: v z of_nat_diff left_diff_distrib)
      moreover have "mulAddF32_sum s expProd sigProd (\<not> s) expC sigC st = f32_round s (real (unat z) * pow2 (expProd - 188)) st"
        using 2 nz mulAddF32_normalise [OF z', of "real (unat z)" expProd s st] e a
        unfolding def by (auto simp: Let_def z_def [symmetric])
      ultimately show ?thesis by simp
    next
      case a: 3
      define z where "z = C - sigProd"
      have zn: "sigProd - C = - z" by (simp add: z_def)
      have z: "unat z = unat C - unat sigProd" unfolding z_def using a by (intro unat_minus) simp
      then have z': "0 < unat z" "unat z < 2 ^ 63" using a C'(2) by simp_all
      then have "z \<noteq> 0" by auto
      have "unat (- z) = 2 ^ 64 - unat z" using \<open>z \<noteq> 0\<close> by (simp add: unat_neg_64)
      then have nz: "- z \<noteq> 0" "(- z) AND 0x8000000000000000 \<noteq> 0" using z' and_top64 [of "- z"] by auto
      have "\<bar>xP - xC\<bar> = real (unat z) * pow2 (expProd - 188)" "\<not> xC < xP" "xP \<noteq> xC"
        using a by (simp_all add: v z of_nat_diff left_diff_distrib)
      moreover have "mulAddF32_sum s expProd sigProd (\<not> s) expC sigC st = f32_round (\<not> s) (real (unat z) * pow2 (expProd - 188)) st"
        using 2 nz mulAddF32_normalise [OF z', of "real (unat z)" expProd "\<not> s" st] e a
        unfolding def by (auto simp: Let_def zn)
      ultimately show ?thesis by simp
    qed
  next
    case 3
    define z where "z = sigProd - softfloat_shiftRightJam64 C (word_of_int d)"
    define x where "x = real (unat sigProd) - real (unat C) / 2 ^ nat d"
    have d: "0 < d" "d < 2 ^ 64" using 3 e by (simp_all add: d_def)
    note z = diff_rodd [OF P(1,3) C'(2,3) d, folded z_def x_def]
    have "pow2 (expProd - 188) = pow2 (expC - 188) * 2 ^ nat d" using 3 by (intro pow2_plus) (simp add: d_def)
    then have v: "xP - xC = x * pow2 (expProd - 188)" by (simp add: xC xP_def x_def left_diff_distrib)
    then have "0 < xP - xC" using z(1) by simp
    then have "xC < xP" "xP \<noteq> xC" "\<bar>xP - xC\<bar> = x * pow2 (expProd - 188)" using v by simp_all
    moreover have "mulAddF32_normRound s expProd z st = f32_round s (x * pow2 (expProd - 188)) st"
      using z(3) P(2) e by (intro mulAddF32_normalise [OF z(2) _ z(4)]) simp_all
    moreover have "mulAddF32_sum s expProd sigProd (\<not> s) expC sigC st = mulAddF32_normRound s expProd z st"
      using 3 unfolding def by (simp add: Let_def z_def)
    ultimately show ?thesis by simp
  qed
qed

lemma f32_round_signed_sum:
  assumes "0 < x" "0 < y"
  shows "f32_round_signed (if s = t then s else st_rmode st = RDN) (sgn_val s x + sgn_val t y) st =
    (if s = t then f32_round s (x + y) st
     else if x = y then (f32_pack (softfloat_roundingMode st = softfloat_round_min) 0, st)
     else f32_round (if y < x then s else \<not> s) \<bar>x - y\<bar> st)"
  using assms by (cases s; cases t) (auto simp: f32_round_signed_def sgn_val_def f32_round_0 sf_rmode_simps abs_if add.commute)

lemma mulAddF32_sum_round:
  fixes sigProd sigC :: u64
  assumes P: "2 ^ 61 \<le> unat sigProd" "unat sigProd < 2 ^ 62" "even (unat sigProd)"
    and S: "2 ^ 29 \<le> unat sigC" "unat sigC < 2 ^ 30" "even (unat sigC)"
    and e: "- (2 ^ 13) \<le> expProd" "expProd < 2 ^ 13" "- (2 ^ 13) \<le> expC" "expC < 2 ^ 13"
  shows "mulAddF32_sum s expProd sigProd t expC sigC st =
    f32_round_signed (if s = t then s else st_rmode st = RDN)
      (sgn_val s (real (unat sigProd) * pow2 (expProd - 188)) + sgn_val t (real (unat sigC) * pow2 (expC - 156))) st"
proof -
  have pos: "0 < real (unat sigProd) * pow2 (expProd - 188)" "0 < real (unat sigC) * pow2 (expC - 156)"
    using P(1) S(1) by simp_all
  show ?thesis
  proof (cases "s = t")
    case True
    then show ?thesis unfolding f32_round_signed_sum [OF pos] by (simp only: if_True refl mulAddF32_sum_add [OF P S e])
  next
    case False
    then have t: "(\<not> s) = t" "(s = t) = False" by blast+
    show ?thesis
      using mulAddF32_sum_sub [OF P S(1,2) e, of s st] unfolding f32_round_signed_sum [OF pos] unfolding t if_False .
  qed
qed

text \<open>The product of two normalised significands, normalised.\<close>

lemma mulAddF32_prod:
  fixes u v :: u64
  assumes u: "unat u = S" "2 ^ 23 \<le> S" "S < 2 ^ 24" and v: "unat v = T" "2 ^ 23 \<le> T" "T < 2 ^ 24"
  obtains p e' where
    "(if push_bit 7 u * push_bit 7 v < 0x2000000000000000
      then (e - 1, push_bit 1 (push_bit 7 u * push_bit 7 v)) else (e, push_bit 7 u * push_bit 7 v)) = (e', p)"
    "2 ^ 61 \<le> unat p" "unat p < 2 ^ 62" "even (unat p)" "e - 1 \<le> e'" "e' \<le> e"
    "real (unat p) * pow2 (e' - 188) = real (S * T) * pow2 (e - 174)"
proof -
  define q where "q = push_bit 7 u * push_bit 7 v"
  have up: "unat (push_bit 7 u) = S * 2 ^ 7" using u by (subst unat_push_bit) simp_all
  have vp: "unat (push_bit 7 v) = T * 2 ^ 7" using v by (subst unat_push_bit) simp_all
  have lt: "S * T < 2 ^ 24 * 2 ^ 24" using u(3) v(3) by (rule mult_strict_mono') simp_all
  have ge: "2 ^ 23 * 2 ^ 23 \<le> S * T" using u(2) v(2) by (rule mult_le_mono)
  have prod: "S * 2 ^ 7 * (T * 2 ^ 7) = S * T * 2 ^ 14" by simp
  have q: "unat q = S * T * 2 ^ 14"
    using lt unfolding q_def prod [symmetric] by (simp add: unat_word_ariths up vp)
  have v: "real (unat q) * pow2 (e - 188) = real (S * T) * pow2 (e - 174)"
    unfolding q using pow2_plus [of "e - 174" "e - 188" 14] by simp
  show thesis
  proof (cases "q < 0x2000000000000000")
    case True
    then have "unat q < 2 ^ 61" by (simp add: word_less_nat_alt)
    then have u: "unat (push_bit 1 q) = unat q * 2" by (subst unat_push_bit) simp_all
    have "pow2 (e - 188) = pow2 (e - 1 - 188) * 2 ^ 1" by (rule pow2_plus) simp
    then have "real (unat (push_bit 1 q)) * pow2 (e - 1 - 188) = real (S * T) * pow2 (e - 174)"
      unfolding v [symmetric] u by simp
    then show thesis using True \<open>unat q < 2 ^ 61\<close> ge u
      by (intro that [of "e - 1" "push_bit 1 q"]) (simp_all add: q_def [symmetric], simp_all add: q)
  next
    case False
    then have "2 ^ 61 \<le> unat q" by (simp add: word_less_nat_alt)
    then show thesis using False v lt
      by (intro that [of e q]) (simp_all add: q_def [symmetric], simp_all add: q)
  qed
qed

lemma f32_round_signed_pos: "0 < x \<Longrightarrow> f32_round_signed z (sgn_val s x) st = f32_round s x st"
  by (cases s) (auto simp: f32_round_signed_def sgn_val_def)

lemma f32_val_eq_0: "f32_val c = 0 \<longleftrightarrow> f32_mag c = 0"
  by (simp add: f32_val_def sgn_val_def)

theorem softfloat_mulAddF32_finite:
  assumes fin: "f32_finite a" "f32_finite b" "f32_finite c"
    and op: "op \<noteq> softfloat_mulAdd_subC \<or> f32_mag a \<noteq> 0 \<and> f32_mag b \<noteq> 0"
  defines "s \<equiv> (f32_sign a \<noteq> f32_sign b) \<noteq> (op = softfloat_mulAdd_subProd)"
    and "t \<equiv> f32_sign c \<noteq> (op = softfloat_mulAdd_subC)"
  shows "softfloat_mulAddF32 (ucast a) (ucast b) (ucast c) op st =
    f32_round_signed (if s = t then s else st_rmode st = RDN)
      (sgn_val s (mval f32_fmt (f32_mag a) * mval f32_fmt (f32_mag b)) + sgn_val t (mval f32_fmt (f32_mag c))) st"
proof -
  let ?uA = "ucast a :: u64" and ?uB = "ucast b :: u64" and ?uC = "ucast c :: u64"
  have k: "(expF32UI ?uA = 0xFF) = False" "(expF32UI ?uB = 0xFF) = False" "(expF32UI ?uC = 0xFF) = False"
    using fin by (simp_all only: f32_fields f32_finite_exp) simp_all
  have zero: "expF32UI (ucast d) = 0 \<and> fracF32UI (ucast d) = 0 \<longleftrightarrow> f32_mag d = 0" for d
    unfolding f32_fields fracF32_eq_0 using div_mult_mod_eq [of "f32_mag d" "2 ^ 23"] by auto
  note code = softfloat_mulAddF32_def Let_def k if_False signF32UI_ucast zero magbits32_eq_0
    s_def [symmetric] t_def [symmetric]
  show ?thesis
  proof (cases "f32_mag a = 0 \<or> f32_mag b = 0")
    case True
    then have t: "t = f32_sign c" using op by (auto simp: t_def)
    then have x: "sgn_val s (mval f32_fmt (f32_mag a) * mval f32_fmt (f32_mag b)) + sgn_val t (mval f32_fmt (f32_mag c)) = f32_val c"
      using True by (auto simp: f32_val_def sgn_val_def)
    have "softfloat_mulAddF32 ?uA ?uB ?uC op st =
        (if f32_mag c = 0 \<and> s \<noteq> t then (ucast (packToF32UI (softfloat_roundingMode st = softfloat_round_min) 0 0), st)
         else (ucast ?uC, st))"
      unfolding code using True by (cases "f32_mag a = 0") (simp_all only: simp_thms if_True if_False prod.case_eq_if)
    also have "\<dots> = (if f32_mag c = 0 \<and> s \<noteq> t then (f32_pack (softfloat_roundingMode st = softfloat_round_min) 0, st) else (c, st))"
      by (simp add: packToF32UI_pack)
    finally have "softfloat_mulAddF32 ?uA ?uB ?uC op st = \<dots>" .
    moreover have "f32_round_signed (if s = t then s else st_rmode st = RDN) (f32_val c) st = \<dots>"
    proof (cases "f32_mag c = 0 \<and> s \<noteq> t")
      case True
      then show ?thesis by (simp add: f32_val_def sgn_val_def f32_round_signed_def f32_round_0 sf_rmode_simps)
    next
      case False
      then show ?thesis using t by (auto simp: f32_val_eq_0 intro!: f32_round_signed_exact fin(3))
    qed
    ultimately show ?thesis unfolding x by simp
  next
    case False
    then have nz: "\<not> (expF32UI ?uA = 0 \<and> fracF32UI ?uA = 0)" "\<not> (expF32UI ?uB = 0 \<and> fracF32UI ?uB = 0)"
      unfolding zero by simp_all
    obtain eA sA S where A: "(if expF32UI ?uA = 0 then softfloat_normSubnormalF32Sig (fracF32UI ?uA) else (expF32UI ?uA, fracF32UI ?uA)) = (eA, sA)"
      "unat (sA OR 0x00800000) = S" "2 ^ 23 \<le> S" "S < 2 ^ 24"
      "mval f32_fmt (f32_mag a) = real S * pow2 (eA - 150)" "- 23 \<le> eA" "eA < 0xFF"
      using normF32_operand [OF fin(1) nz(1)] .
    obtain eB sB T where B: "(if expF32UI ?uB = 0 then softfloat_normSubnormalF32Sig (fracF32UI ?uB) else (expF32UI ?uB, fracF32UI ?uB)) = (eB, sB)"
      "unat (sB OR 0x00800000) = T" "2 ^ 23 \<le> T" "T < 2 ^ 24"
      "mval f32_fmt (f32_mag b) = real T * pow2 (eB - 150)" "- 23 \<le> eB" "eB < 0xFF"
      using normF32_operand [OF fin(2) nz(2)] .
    obtain p e where P: "(if push_bit 7 (sA OR 0x00800000) * push_bit 7 (sB OR 0x00800000) < 0x2000000000000000
        then (eA + eB - 0x7E - 1, push_bit 1 (push_bit 7 (sA OR 0x00800000) * push_bit 7 (sB OR 0x00800000)))
        else (eA + eB - 0x7E, push_bit 7 (sA OR 0x00800000) * push_bit 7 (sB OR 0x00800000))) = (e, p)"
      "2 ^ 61 \<le> unat p" "unat p < 2 ^ 62" "even (unat p)" "eA + eB - 0x7E - 1 \<le> e" "e \<le> eA + eB - 0x7E"
      "real (unat p) * pow2 (e - 188) = real (S * T) * pow2 (eA + eB - 0x7E - 174)"
      by (rule mulAddF32_prod [OF A(2-4) B(2-4)])
    have "pow2 (eA - 150) * pow2 (eB - 150) = pow2 (eA + eB - 300)" by (simp add: algebra_simps flip: pow2_add)
    then have x: "mval f32_fmt (f32_mag a) * mval f32_fmt (f32_mag b) = real (unat p) * pow2 (e - 188)"
      unfolding P(7) A(5) B(5) by simp
    have e: "- (2 ^ 13) \<le> e" "e < 2 ^ 13" using A(6,7) B(6,7) P(5,6) by simp_all
    show ?thesis
    proof (cases "f32_mag c = 0")
      case True
      have "softfloat_mulAddF32 ?uA ?uB ?uC op st = softfloat_roundPackToF32 s (e - 1) (softfloat_shortShiftRightJam64 p 31) st"
        using False True unfolding code A(1) B(1) P(1) prod.case by (simp only: de_Morgan_disj simp_thms if_True if_False)
      also have "\<dots> = f32_round s (real (unat p) / 2 ^ 31 * pow2 (e - 1 - 156)) st"
      proof (rule softfloat_roundPackToF32_round)
        have "int (unat (softfloat_shortShiftRightJam64 p 31)) = rodd (real (unat p) / 2 ^ 31)"
          using softfloat_shortShiftRightJam64_rodd [of 31 p] by simp
        then have "real (unat (softfloat_shortShiftRightJam64 p 31)) = of_int (rodd (real (unat p) / 2 ^ 31))"
          by (metis of_int_of_nat_eq)
        then show "agree (7 - 1) (real (unat (softfloat_shortShiftRightJam64 p 31))) (real (unat p) / 2 ^ 31)"
          by (simp only:) (rule agree_rodd, simp)
        show "real (unat p) / 2 ^ 31 < 2 ^ 31" using P(3) by simp
      qed (use P(2) e in simp_all)
      also have "real (unat p) / 2 ^ 31 * pow2 (e - 1 - 156) = mval f32_fmt (f32_mag a) * mval f32_fmt (f32_mag b)"
        unfolding x using pow2_plus [of "e - 1 - 156" "e - 188" 31] by simp
      also have "f32_round s (mval f32_fmt (f32_mag a) * mval f32_fmt (f32_mag b)) st =
          f32_round_signed (if s = t then s else st_rmode st = RDN) (sgn_val s (mval f32_fmt (f32_mag a) * mval f32_fmt (f32_mag b))) st"
        unfolding x using f32_round_signed_pos [of "real (unat p) * pow2 (e - 188)"] P(2) by simp
      finally show ?thesis using True by (simp add: sgn_val_def)
    next
      case c: False
      then have nc: "\<not> (expF32UI ?uC = 0 \<and> fracF32UI ?uC = 0)" unfolding zero by simp
      obtain eC sC U where C: "(if expF32UI ?uC = 0 then softfloat_normSubnormalF32Sig (fracF32UI ?uC) else (expF32UI ?uC, fracF32UI ?uC)) = (eC, sC)"
        "unat (sC OR 0x00800000) = U" "2 ^ 23 \<le> U" "U < 2 ^ 24"
        "mval f32_fmt (f32_mag c) = real U * pow2 (eC - 150)" "- 23 \<le> eC" "eC < 0xFF"
        using normF32_operand [OF fin(3) nc] .
      define q where "q = push_bit 6 (sC OR 0x00800000)"
      have q: "unat q = U * 2 ^ 6" unfolding q_def using C(2-4) by (subst unat_push_bit) simp_all
      then have q': "2 ^ 29 \<le> unat q" "unat q < 2 ^ 30" "even (unat q)" using C(3,4) by simp_all
      have y: "mval f32_fmt (f32_mag c) = real (unat q) * pow2 (eC - 156)"
        unfolding C(5) q using pow2_plus [of "eC - 150" "eC - 156" 6] by simp
      have "softfloat_mulAddF32 ?uA ?uB ?uC op st = mulAddF32_sum s e p t eC q st"
        using False c unfolding code A(1) B(1) C(1) P(1) prod.case q_def by (simp only: de_Morgan_disj simp_thms if_True if_False)
      also have "\<dots> = f32_round_signed (if s = t then s else st_rmode st = RDN)
          (sgn_val s (real (unat p) * pow2 (e - 188)) + sgn_val t (real (unat q) * pow2 (eC - 156))) st"
        by (rule mulAddF32_sum_round [OF P(2-4) q' e]) (use C(6,7) in simp_all)
      finally show ?thesis unfolding x y .
    qed
  qed
qed

theorem f32_mulAdd_finite:
  assumes "f32_finite a" "f32_finite b" "f32_finite c"
  shows "f32_mulAdd a b c st =
    f32_round_signed (if (f32_sign a \<noteq> f32_sign b) = f32_sign c then f32_sign c else st_rmode st = RDN)
      (f32_val a * f32_val b + f32_val c) st"
  using softfloat_mulAddF32_finite [OF assms, of 0 st]
  by (auto simp: f32_mulAdd_def f32_val_def sgn_val_def split: if_splits)

lemma propagateNaNF32UI_ucast:
  "softfloat_propagateNaNF32UI (ucast a) (ucast b) st = (case f32_nan_result a b st of (z, st') \<Rightarrow> (ucast z, st'))"
proof -
  have "ucast c OR 0x00400000 = (ucast (c OR 0x00400000) :: u64)" for c :: u32
    by (rule bit_eqI) (simp add: bit_simps unsigned_or_eq)
  then show ?thesis
    by (simp add: softfloat_propagateNaNF32UI_def f32_nan_result_def Let_def isNaNF32UI_isnan
        softfloat_isSigNaNF32UI_issnan f32_issnan_def)
qed

lemma f32_nan_result_default:
  "\<not> f32_isnan c \<Longrightarrow> f32_nan_result (ucast defaultNaNF32UI) c st = (ucast defaultNaNF32UI, st)"
  by (simp add: f32_nan_result_def f32_isnan_def f32_issnan_def f32_mag_def inf_code_f32)

theorem f32_mulAdd_special:
  assumes "\<not> (f32_finite a \<and> f32_finite b \<and> f32_finite c)"
  defines "s \<equiv> f32_sign a \<noteq> f32_sign b"
  shows "f32_mulAdd a b c st =
    (if f32_isnan a \<or> f32_isnan b then (case f32_nan_result a b st of (z, st') \<Rightarrow> f32_nan_result z c st')
     else if f32_isinf a \<or> f32_isinf b then
       if f32_mag a = 0 \<or> f32_mag b = 0 \<or> f32_isinf c \<and> f32_sign c \<noteq> s
       then f32_nan_result (ucast defaultNaNF32UI) c (softfloat_raiseFlags softfloat_flag_invalid st)
       else if f32_isnan c then f32_nan_result 0 c st
       else (f32_pack s (inf_code f32_fmt), st)
     else if f32_isnan c then f32_nan_result 0 c st
     else (c, st))"
proof -
  let ?eA = "f32_mag a div 2 ^ 23" and ?eB = "f32_mag b div 2 ^ 23" and ?eC = "f32_mag c div 2 ^ 23"
  have nz: "f32_mag d \<noteq> 0" if "f32_mag d div 2 ^ 23 = 0xFF" for d using that by (intro notI) simp
  have i: "(int (f32_mag d div 2 ^ 23) = 0xFF) = (f32_mag d div 2 ^ 23 = 0xFF)" for d by simp
  have pk: "packToF32UI s 0xFF 0 = ucast (f32_pack s (inf_code f32_fmt))"
    by (simp add: packToF32UI_def f32_pack_def inf_code_f32)
  have n: "f32_nan_result (f32_pack s (inf_code f32_fmt)) c st = f32_nan_result 0 c st"
    by (simp add: f32_nan_result_def f32_isnan_def f32_issnan_def f32_mag_def f32_pack_def inf_code_f32)
  note p = softfloat_propagateNaNF32UI_result
  have z: "(case softfloat_propagateNaNF32UI 0 (ucast c) st of (uiZ, st') \<Rightarrow> (ucast uiZ, st')) = f32_nan_result 0 c st"
    "(case softfloat_propagateNaNF32UI defaultNaNF32UI (ucast c) st' of (uiZ, st'') \<Rightarrow> (ucast uiZ, st'')) = f32_nan_result (ucast defaultNaNF32UI) c st'"
    "(case softfloat_propagateNaNF32UI (packToF32UI s 0xFF 0) (ucast c) st of (uiZ, st') \<Rightarrow> (ucast uiZ, st')) = f32_nan_result 0 c st"
    "(case softfloat_propagateNaNF32UI (ucast a) (ucast b) st of (uiZ, st') \<Rightarrow>
        case softfloat_propagateNaNF32UI uiZ (ucast c) st' of (uiZ, st'') \<Rightarrow> (ucast uiZ, st'')) =
      (case f32_nan_result a b st of (z, st') \<Rightarrow> f32_nan_result z c st')" for st'
    using p [of 0 c st] p [of "ucast defaultNaNF32UI" c st'] p [of "f32_pack s (inf_code f32_fmt)" c st]
    by (simp_all add: pk n propagateNaNF32UI_ucast p split: prod.split)
  note code = f32_mulAdd_def softfloat_mulAddF32_def Let_def f32_fields magbits32_eq_0 [unfolded expF32UI_ucast] fracF32_eq_0 i
    s_def [symmetric] z packToF32UI_inf
  have op: "(P \<noteq> ((0 :: u8) = softfloat_mulAdd_subC)) = P" "(P \<noteq> ((0 :: u8) = softfloat_mulAdd_subProd)) = P" for P by simp_all
  consider "?eA = 0xFF" | "?eA \<noteq> 0xFF" "?eB = 0xFF" | "?eA \<noteq> 0xFF" "?eB \<noteq> 0xFF" "?eC = 0xFF"
    using assms(1) unfolding f32_classes by blast
  then show ?thesis
  proof cases
    case 1
    then show ?thesis unfolding f32_classes op code using nz [of a] by auto
  next
    case 2
    then show ?thesis unfolding f32_classes op code using nz [of b] by auto
  next
    case 3
    then show ?thesis unfolding f32_classes op code by auto
  qed
qed

text \<open>When the product is zero the addend comes back as it is, whatever \<open>op\<close> says about its sign.\<close>

lemma softfloat_mulAddF32_zeroProd:
  assumes fin: "f32_finite a" "f32_finite b" "f32_finite c" and z: "f32_mag a = 0 \<or> f32_mag b = 0" and c: "f32_mag c \<noteq> 0"
  shows "softfloat_mulAddF32 (ucast a) (ucast b) (ucast c) op st = (c, st)"
proof -
  let ?uA = "ucast a :: u64" and ?uB = "ucast b :: u64" and ?uC = "ucast c :: u64"
  have k: "(expF32UI ?uA = 0xFF) = False" "(expF32UI ?uB = 0xFF) = False" "(expF32UI ?uC = 0xFF) = False"
    using fin by (simp_all only: f32_fields f32_finite_exp) simp_all
  have zero: "expF32UI (ucast d) = 0 \<and> fracF32UI (ucast d) = 0 \<longleftrightarrow> f32_mag d = 0" for d
    unfolding f32_fields fracF32_eq_0 using div_mult_mod_eq [of "f32_mag d" "2 ^ 23"] by auto
  have "softfloat_mulAddF32 ?uA ?uB ?uC op st = (ucast ?uC, st)"
    unfolding softfloat_mulAddF32_def Let_def k if_False zero magbits32_eq_0
    using z c by (cases "f32_mag a = 0") (simp_all only: simp_thms if_True if_False prod.case_eq_if)
  then show ?thesis by simp
qed

subsection \<open>Double precision\<close>

text \<open>The end of \<open>softfloat_mulAddF64\<close> for a difference: normalise it to 63 bits and round.\<close>

definition mulAddF64_normRound :: "bool \<Rightarrow> int \<Rightarrow> uint128 \<Rightarrow> softfloat_state \<Rightarrow> u64 \<times> softfloat_state" where
  "mulAddF64_normRound signZ expZ sig128Z st =
     (let (expZ, sig128Z) =
            (if v64 sig128Z = 0 then (expZ - 64, \<lparr>v64 = v0 sig128Z, v0 = 0\<rparr>) else (expZ, sig128Z));
          shiftDist = uint (softfloat_countLeadingZeros64 (v64 sig128Z)) - 1;
          expZ = expZ - shiftDist;
          (sigZ, sig128Z) =
            (if shiftDist < 0
             then (softfloat_shortShiftRightJam64 (v64 sig128Z) (word_of_int (- shiftDist)), sig128Z)
             else let sig128Z = softfloat_shortShiftLeft128 (v64 sig128Z) (v0 sig128Z) (word_of_int shiftDist)
                  in (v64 sig128Z, sig128Z))
      in softfloat_roundPackToF64 signZ expZ (sigZ OR of_bool (v0 sig128Z \<noteq> 0)) st)"

text \<open>
  The sum of a product and an addend, both normalised: the part of \<open>softfloat_mulAddF64\<close> from the
  difference of the exponents on.
\<close>

definition mulAddF64_sum ::
  "bool \<Rightarrow> int \<Rightarrow> uint128 \<Rightarrow> bool \<Rightarrow> int \<Rightarrow> u64 \<Rightarrow> softfloat_state \<Rightarrow> u64 \<times> softfloat_state" where
  "mulAddF64_sum signZ expZ sig128Z signC expC sigC st =
     (let expDiff = expZ - expC;
          (expZ, sig128Z) =
            (if expDiff < 0 then
               (expC,
                if signZ = signC \<or> expDiff < - 1
                then sig128Z\<lparr>v64 := softfloat_shiftRightJam64 (v64 sig128Z) (word_of_int (- expDiff))\<rparr>
                else softfloat_shortShiftRightJam128 (v64 sig128Z) (v0 sig128Z) 1)
             else (expZ, sig128Z))
      in if signZ = signC then
           let sigZ =
                 (if expDiff \<le> 0 then (sigC + v64 sig128Z) OR of_bool (v0 sig128Z \<noteq> 0)
                  else let sig128C = softfloat_shiftRightJam128 sigC 0 (word_of_int expDiff);
                           sig128Z = softfloat_add128 (v64 sig128Z) (v0 sig128Z) (v64 sig128C) (v0 sig128C)
                       in v64 sig128Z OR of_bool (v0 sig128Z \<noteq> 0))
           in if sigZ < 0x4000000000000000
              then softfloat_roundPackToF64 signZ (expZ - 1) (push_bit 1 sigZ) st
              else softfloat_roundPackToF64 signZ expZ sigZ st
         else if expDiff < 0 then
           mulAddF64_normRound signC expZ (softfloat_sub128 sigC 0 (v64 sig128Z) (v0 sig128Z)) st
         else if expDiff = 0 then
           let sig128Z = sig128Z\<lparr>v64 := v64 sig128Z - sigC\<rparr>
           in if v64 sig128Z OR v0 sig128Z = 0
              then (packToF64UI (softfloat_roundingMode st = softfloat_round_min) 0 0, st)
              else if v64 sig128Z AND 0x8000000000000000 \<noteq> 0
              then mulAddF64_normRound (\<not> signZ) expZ (softfloat_sub128 0 0 (v64 sig128Z) (v0 sig128Z)) st
              else mulAddF64_normRound signZ expZ sig128Z st
         else
           let sig128C = softfloat_shiftRightJam128 sigC 0 (word_of_int expDiff)
           in mulAddF64_normRound signZ expZ
             (softfloat_sub128 (v64 sig128Z) (v0 sig128Z) (v64 sig128C) (v0 sig128C)) st)"

definition softfloat_mulAddF64 :: "u64 \<Rightarrow> u64 \<Rightarrow> u64 \<Rightarrow> u8 \<Rightarrow> softfloat_state \<Rightarrow> u64 \<times> softfloat_state" where
  "softfloat_mulAddF64 uiA uiB uiC op st =
     (let signA = signF64UI uiA; expA = expF64UI uiA; sigA = fracF64UI uiA;
          signB = signF64UI uiB; expB = expF64UI uiB; sigB = fracF64UI uiB;
          signC = (signF64UI uiC \<noteq> (op = softfloat_mulAdd_subC)); expC = expF64UI uiC; sigC = fracF64UI uiC;
          signZ = ((signA \<noteq> signB) \<noteq> (op = softfloat_mulAdd_subProd));
          propagateNaN_ZC = (\<lambda>uiZ st. softfloat_propagateNaNF64UI uiZ uiC st);
          propagateNaN_ABC = (case softfloat_propagateNaNF64UI uiA uiB st of (uiZ, st) \<Rightarrow> propagateNaN_ZC uiZ st);
          invalid = propagateNaN_ZC defaultNaNF64UI (softfloat_raiseFlags softfloat_flag_invalid st);
          infProdArg = (\<lambda>magBits :: u64.
            if magBits \<noteq> 0 then
              let uiZ = packToF64UI signZ 0x7FF 0
              in if expC \<noteq> 0x7FF then (uiZ, st)
                 else if sigC \<noteq> 0 then propagateNaN_ZC uiZ st
                 else if signZ = signC then (uiZ, st)
                 else invalid
            else invalid);
          zeroProd = (if word_of_int expC OR sigC = 0 \<and> signZ \<noteq> signC
                      then (packToF64UI (softfloat_roundingMode st = softfloat_round_min) 0 0, st)
                      else (uiC, st))
      in if expA = 0x7FF then
           if sigA \<noteq> 0 \<or> expB = 0x7FF \<and> sigB \<noteq> 0 then propagateNaN_ABC
           else infProdArg (word_of_int expB OR sigB)
         else if expB = 0x7FF then
           if sigB \<noteq> 0 then propagateNaN_ABC
           else infProdArg (word_of_int expA OR sigA)
         else if expC = 0x7FF then
           if sigC \<noteq> 0 then propagateNaN_ZC 0 st
           else (uiC, st)
         else if expA = 0 \<and> sigA = 0 then zeroProd
         else
           let (expA, sigA) = (if expA = 0 then softfloat_normSubnormalF64Sig sigA else (expA, sigA))
           in if expB = 0 \<and> sigB = 0 then zeroProd
              else
                let (expB, sigB) = (if expB = 0 then softfloat_normSubnormalF64Sig sigB else (expB, sigB));
                    expZ = expA + expB - 0x3FE;
                    sigA = push_bit 10 (sigA OR 0x0010000000000000);
                    sigB = push_bit 10 (sigB OR 0x0010000000000000);
                    sig128Z = softfloat_mul64To128 sigA sigB;
                    (expZ, sig128Z) =
                      (if v64 sig128Z < 0x2000000000000000
                       then (expZ - 1, softfloat_add128 (v64 sig128Z) (v0 sig128Z) (v64 sig128Z) (v0 sig128Z))
                       else (expZ, sig128Z))
                in if expC = 0 \<and> sigC = 0
                   then softfloat_roundPackToF64 signZ (expZ - 1)
                          (push_bit 1 (v64 sig128Z) OR of_bool (v0 sig128Z \<noteq> 0)) st
                   else
                     let (expC, sigC) = (if expC = 0 then softfloat_normSubnormalF64Sig sigC else (expC, sigC));
                         sigC = push_bit 9 (sigC OR 0x0010000000000000)
                     in mulAddF64_sum signZ expZ sig128Z signC expC sigC st)"

definition f64_mulAdd :: "u64 \<Rightarrow> u64 \<Rightarrow> u64 \<Rightarrow> softfloat_state \<Rightarrow> u64 \<times> softfloat_state" where
  "f64_mulAdd a b c st = softfloat_mulAddF64 a b c 0 st"

lemma wide_rodd: "int (unat (hi OR of_bool (lo \<noteq> 0))) = rodd (real (wide hi lo) / 2 ^ 64)"
proof -
  have "wide hi lo div 2 ^ 64 = unat hi" "wide hi lo mod 2 ^ 64 = unat lo"
    using unat_bound [of lo] by (simp_all add: wide_def)
  then show ?thesis by (simp only: rodd_nat_div unat_or_bit unat_eq_0)
qed

lemma agree_int_rodd: "int n = rodd x \<Longrightarrow> 0 < j \<Longrightarrow> agree j (real n) x"
  using agree_rodd [of j x] by (metis of_int_of_nat_eq)

lemma rodd_eq_agree: "rodd x = rodd y \<Longrightarrow> agree 1 x y"
  using agree_trans [OF agree_sym [OF agree_rodd [of 1 x]], of y] agree_rodd [of 1 y] by simp

text \<open>Normalising a difference of up to 126 bits and rounding it.\<close>

lemma mulAddF64_normalise_lo:
  assumes z: "v64 z = 0" "0 < u128 z" and e: "- (2 ^ 14) \<le> e" "e < 2 ^ 14"
  shows "mulAddF64_normRound s e z st = f64_round s (real (u128 z) * pow2 (e - 1148)) st"
proof -
  define w where "w = v0 z"
  have w: "u128 z = unat w" "0 < unat w" using z by (simp_all add: u128_def wide_def w_def)
  have "unat w < 2 ^ (64 - 0)" using unat_bound [of w] by simp
  then obtain k where k: "uint (softfloat_countLeadingZeros64 w) = int k" "2 ^ 63 \<le> unat w * 2 ^ k" "unat w * 2 ^ k < 2 ^ 64"
    by (rule clz64_norm [OF w(2)]) simp_all
  have "2 ^ k \<le> unat w * 2 ^ k" using w(2) by simp
  then have "(2 :: nat) ^ k < 2 ^ 64" using k(3) by (rule le_less_trans)
  then have k64: "k < 64" by (rule power_less_imp_less_exp [rotated]) simp
  show ?thesis
  proof (cases "k = 0")
    case True
    define j where "j = softfloat_shortShiftRightJam64 w 1"
    have "int (unat j) = rodd (real (unat w) / 2 ^ 1)"
      using softfloat_shortShiftRightJam64_rodd [of 1 w] by (simp add: j_def)
    then have ag: "agree (10 - 1) (real (unat j)) (real (unat w) / 2 ^ 1)" by (rule agree_int_rodd) simp
    have "mulAddF64_normRound s e z st = softfloat_roundPackToF64 s (e - 63) j st"
      using True k(1) z(1) by (simp add: mulAddF64_normRound_def Let_def w_def j_def)
    also have "\<dots> = f64_round s (real (unat w) / 2 ^ 1 * pow2 (e - 63 - 1084)) st"
      using ag e k True by (intro softfloat_roundPackToF64_round) simp_all
    also have "real (unat w) / 2 ^ 1 * pow2 (e - 63 - 1084) = real (u128 z) * pow2 (e - 1148)"
      using pow2_plus [of "e - 63 - 1084" "e - 1148" 1] by (simp add: w)
    finally show ?thesis .
  next
    case False
    then obtain i where i: "k = Suc i" using not0_implies_Suc by blast
    have wi: "2 ^ 62 \<le> unat w * 2 ^ i" "unat w * 2 ^ i < 2 ^ 63" using k(2,3) by (simp_all add: i)
    have u: "unat (push_bit i w) = unat w * 2 ^ i" using wi by (intro unat_push_bit) simp
    have "unat (word_of_int (int i) :: u8) = i" using k64 by (simp add: i unat_of_nat)
    then have "mulAddF64_normRound s e z st = softfloat_roundPackToF64 s (e - 64 - int i) (push_bit i w) st"
      using k(1) z(1) by (simp add: mulAddF64_normRound_def Let_def w_def [symmetric] i softfloat_shortShiftLeft128_def algebra_simps)
    also have "\<dots> = f64_round s (real (unat w * 2 ^ i) * pow2 (e - 64 - int i - 1084)) st"
    proof (rule softfloat_roundPackToF64_round)
      have "real (2 ^ 62) \<le> real (unat w * 2 ^ i)" "real (unat w * 2 ^ i) < real (2 ^ 63)"
        using wi by (simp_all only: of_nat_le_iff of_nat_less_iff)
      then show "real (unat w * 2 ^ i) < 2 ^ 63" "2 ^ 62 \<le> real (unat w * 2 ^ i) \<or> e - 64 - int i < 0 \<and> 0 \<le> real (unat w * 2 ^ i)" by simp_all
    qed (use u e k64 i in simp_all)
    also have "real (unat w * 2 ^ i) * pow2 (e - 64 - int i - 1084) = real (u128 z) * pow2 (e - 1148)"
      using pow2_plus [of "e - 1148" "e - 64 - int i - 1084" i] by (simp add: w)
    finally show ?thesis .
  qed
qed

lemma mulAddF64_normalise_hi:
  assumes z: "v64 z \<noteq> 0" "u128 z < 2 ^ 126"
    and x: "real (u128 z) = x \<or> agree 65 (real (u128 z)) x \<and> 2 ^ 124 \<le> u128 z"
    and e: "- (2 ^ 14) \<le> e" "e < 2 ^ 14"
  shows "mulAddF64_normRound s e z st = f64_round s (x * pow2 (e - 1148)) st"
proof -
  define w where "w = v64 z"
  have w0: "0 < unat w" using z(1) by (simp add: w_def unat_gt_0)
  have zw: "unat w * 2 ^ 64 \<le> u128 z" "u128 z < (unat w + 1) * 2 ^ 64"
    using unat_bound [of "v0 z"] by (simp_all add: u128_def wide_def w_def)
  then have w62: "unat w < 2 ^ 62" using z(2) by simp
  then have "unat w < 2 ^ (64 - 1)" by simp
  then obtain k where k: "uint (softfloat_countLeadingZeros64 w) = int (1 + k)"
    "2 ^ 62 \<le> unat w * 2 ^ k" "unat w * 2 ^ k < 2 ^ 63"
    by (rule clz64_norm [OF w0]) simp_all
  have "2 ^ k \<le> unat w * 2 ^ k" using w0 by simp
  then have "(2 :: nat) ^ k < 2 ^ 63" using k(3) by (rule le_less_trans)
  then have k63: "k < 63" by (rule power_less_imp_less_exp [rotated]) simp
  have "k \<noteq> 0" using k(2) w62 by (intro notI) simp
  have kw: "unat (word_of_int (int k) :: u8) = k" using k63 by (simp add: unat_of_nat)
  then have kw': "(word_of_int (int k) :: u8) \<noteq> 0" using \<open>k \<noteq> 0\<close> by (metis unat_0)
  have p: "(2 :: nat) ^ (63 - k) * 2 ^ k = 2 ^ 63" using k63 by (simp flip: power_add)
  have "unat w < 2 ^ (63 - k)" using k(3) unfolding p [symmetric] by simp
  then have "(unat w + 1) * 2 ^ k \<le> 2 ^ (63 - k) * 2 ^ k" by (intro mult_right_mono) simp_all
  then have up: "(unat w + 1) * 2 ^ k \<le> 2 ^ 63" unfolding p .
  define z' where "z' = softfloat_shortShiftLeft128 (v64 z) (v0 z) (word_of_int (int k))"
  have n': "2 ^ 126 \<le> u128 z * 2 ^ k" "u128 z * 2 ^ k < 2 ^ 127"
  proof -
    have "2 ^ 126 \<le> unat w * 2 ^ k * 2 ^ 64" using k(2) by simp
    also have "\<dots> \<le> u128 z * 2 ^ k" using zw(1) by (simp add: mult.commute mult.left_commute)
    finally show "2 ^ 126 \<le> u128 z * 2 ^ k" .
    have "u128 z * 2 ^ k < (unat w + 1) * 2 ^ 64 * 2 ^ k" using zw(2) by simp
    also have "\<dots> = (unat w + 1) * 2 ^ k * 2 ^ 64" by (simp add: distrib_right)
    also have "\<dots> \<le> 2 ^ 63 * 2 ^ 64" using up by (intro mult_right_mono) simp_all
    finally show "u128 z * 2 ^ k < 2 ^ 127" by simp
  qed
  have "u128 z' = u128 z * 2 ^ k"
    using u128_shortShiftLeft [of "word_of_int (int k)" "v0 z" "v64 z"] kw kw' k63 n'(2) by (simp add: z'_def u128_def)
  then have z': "wide (v64 z') (v0 z') = u128 z * 2 ^ k" by (simp add: u128_def)
  define g where "g = v64 z' OR of_bool (v0 z' \<noteq> 0)"
  define r where "r = x * 2 ^ k / 2 ^ 64"
  have g: "int (unat g) = rodd (real (u128 z * 2 ^ k) / 2 ^ 64)" unfolding g_def wide_rodd z' ..
  have ag: "agree 9 (real (unat g)) r"
  proof (rule agree_trans)
    show "agree 9 (real (unat g)) (real (u128 z * 2 ^ k) / 2 ^ 64)" by (rule agree_int_rodd [OF g]) simp
    show "agree 9 (real (u128 z * 2 ^ k) / 2 ^ 64) r"
      using x
    proof
      assume "agree 65 (real (u128 z)) x \<and> 2 ^ 124 \<le> u128 z"
      then have ag: "agree 65 (real (u128 z)) x" and "2 ^ 124 \<le> u128 z" by simp_all
      then have "2 ^ 124 * 2 ^ k \<le> u128 z * 2 ^ k" by simp
      then have "(2 :: nat) ^ (124 + k) < 2 ^ 127" unfolding power_add using n'(2) by (rule le_less_trans)
      then have "124 + k < 127" by (rule power_less_imp_less_exp [rotated]) simp
      then have k2: "1 + k \<le> 9" by simp
      have "agree (65 + k) (real (u128 z) * 2 ^ k) (x * 2 ^ k)" using ag by (simp only: agree_scale)
      then have "agree ((1 + k) + 64) (real (u128 z * 2 ^ k) / 2 ^ 64 * 2 ^ 64) (r * 2 ^ 64)" by (simp add: r_def add.commute)
      then have "agree (1 + k) (real (u128 z * 2 ^ k) / 2 ^ 64) r" by (simp only: agree_scale)
      then show ?thesis using k2 by (rule agree_mono)
    qed (simp add: r_def)
  qed
  have gr: "2 ^ 62 \<le> real (unat g)" "\<not> 2 ^ 63 \<le> real (unat g)"
  proof -
    define y where "y = real (u128 z * 2 ^ k) / 2 ^ 64"
    have "real (2 ^ 126) \<le> real (u128 z * 2 ^ k)" "real (u128 z * 2 ^ k) < real (2 ^ 127)"
      using n' by (simp_all only: of_nat_le_iff of_nat_less_iff)
    then have "of_int (2 ^ 62) \<le> y" "y < of_int (2 ^ 63)" by (simp_all add: y_def pos_le_divide_eq pos_divide_less_eq)
    then have "2 ^ 62 \<le> rodd y" "rodd y < 2 ^ 63" using rodd_ge [of "2 ^ 62" y] rodd_less_even [of y "2 ^ 63"] by simp_all
    then show "2 ^ 62 \<le> real (unat g)" "\<not> 2 ^ 63 \<le> real (unat g)" unfolding y_def g [symmetric] by simp_all
  qed
  have r: "2 ^ 62 \<le> r" "r < 2 ^ 63"
    using gr agree_le_iff [OF ag, of "2 ^ 53"] agree_le_iff [OF ag, of "2 ^ 54"] by simp_all
  have "mulAddF64_normRound s e z st = softfloat_roundPackToF64 s (e - int k) g st"
    using k(1) z(1) by (simp add: mulAddF64_normRound_def Let_def w_def g_def z'_def)
  also have "\<dots> = f64_round s (r * pow2 (e - int k - 1084)) st"
    using r ag e k63 by (intro softfloat_roundPackToF64_round) simp_all
  also have "r * pow2 (e - int k - 1084) = x * pow2 (e - 1148)"
    using pow2_plus [of "e - int k - 1084 + int k" "e - int k - 1084" k] pow2_plus [of "e - 1084" "e - 1148" 64] by (simp add: r_def)
  finally show ?thesis .
qed

lemma mulAddF64_normalise:
  assumes "0 < u128 z" "u128 z < 2 ^ 126"
    and x: "real (u128 z) = x \<or> agree 65 (real (u128 z)) x \<and> 2 ^ 124 \<le> u128 z"
    and e: "- (2 ^ 14) \<le> e" "e < 2 ^ 14"
  shows "mulAddF64_normRound s e z st = f64_round s (x * pow2 (e - 1148)) st"
proof (cases "v64 z = 0")
  case True
  then have "u128 z < 2 ^ 64" using unat_bound [of "v0 z"] by (simp add: u128_def wide_def)
  then have "x = real (u128 z)" using x by auto
  then show ?thesis using mulAddF64_normalise_lo [OF True assms(1) e] by simp
next
  case False
  then show ?thesis using assms by (intro mulAddF64_normalise_hi)
qed

lemma jam_high_word:
  assumes "0 \<le> d" "d < 2 ^ 64"
  shows "int (unat ((if d = 0 then hi else softfloat_shiftRightJam64 hi (word_of_int d)) OR of_bool (lo \<noteq> 0)))
    = rodd (real (wide hi lo) / 2 ^ (64 + nat d))"
proof (cases "d = 0")
  case True
  then show ?thesis using wide_rodd [of hi lo] by simp
next
  case False
  then have J: "int (unat (softfloat_shiftRightJam64 hi (word_of_int d))) = rodd (real (unat hi) / 2 ^ nat d)"
    using assms by (intro jam64_rodd) simp_all
  have "unat (softfloat_shiftRightJam64 hi (word_of_int d) OR of_bool (lo \<noteq> 0)) =
      (wide hi lo div 2 ^ (64 + nat d) OR of_bool (wide hi lo mod 2 ^ (64 + nat d) \<noteq> 0))"
  proof -
    have "unat (softfloat_shiftRightJam64 hi (word_of_int d)) = (unat hi div 2 ^ nat d OR of_bool (unat hi mod 2 ^ nat d \<noteq> 0))"
      using J unfolding rodd_nat_div by (simp only: of_nat_eq_iff)
    then show ?thesis unfolding unat_or_bit wide_div_high wide_mod_high by (auto simp: or.assoc)
  qed
  then show ?thesis using False by (simp only: rodd_nat_div if_False)
qed

lemma mulAddF64_sum_add:
  fixes sigC :: u64
  assumes P: "2 ^ 125 \<le> u128 z" "u128 z < 2 ^ 126" "even (u128 z)"
    and S: "2 ^ 61 \<le> unat sigC" "unat sigC < 2 ^ 62" "even (unat sigC)"
    and e: "- (2 ^ 13) \<le> expZ" "expZ < 2 ^ 13" "- (2 ^ 13) \<le> expC" "expC < 2 ^ 13"
  shows "mulAddF64_sum s expZ z s expC sigC st
    = f64_round s (real (u128 z) * pow2 (expZ - 1148) + real (unat sigC) * pow2 (expC - 1084)) st"
proof (cases "expZ \<le> expC")
  case True
  define d where "d = - (expZ - expC)"
  define J where "J = (if d = 0 then v64 z else softfloat_shiftRightJam64 (v64 z) (word_of_int d))"
  define g where "g = (sigC + J) OR of_bool (v0 z \<noteq> 0)"
  define y where "y = real (u128 z) / 2 ^ (64 + nat d)"
  have d: "0 \<le> d" "d < 2 ^ 64" using True e by (simp_all add: d_def)
  have J: "int (unat (J OR of_bool (v0 z \<noteq> 0))) = rodd y"
    unfolding J_def y_def u128_def by (rule jam_high_word [OF d])
  have "(2 :: real) ^ 64 \<le> 2 ^ (64 + nat d)" by (intro power_increasing) simp_all
  then have "y \<le> real (u128 z) / 2 ^ 64" unfolding y_def by (intro divide_left_mono) simp_all
  also have "\<dots> < 2 ^ 62" using P(2) by simp
  finally have y: "y < 2 ^ 62" .
  then have J62: "int (unat (J OR of_bool (v0 z \<noteq> 0))) < 2 ^ 62" unfolding J using rodd_less_even [of _ "2 ^ 62"] by simp
  have u: "int (unat g) = int (unat sigC) + int (unat (J OR of_bool (v0 z \<noteq> 0)))"
  proof -
    have or: "m + n OR of_bool b = m + (n OR of_bool b)" if "even m" for m n :: nat and b
      using that by (cases b) (simp_all only: of_bool_eq or_one_eq or.right_neutral, simp_all)
    have le: "n \<le> (n OR of_bool b)" for n :: nat and b
      using or_one_eq [of n] by (cases b) simp_all
    have "unat J \<le> unat (J OR of_bool (v0 z \<noteq> 0))"
      unfolding unat_or_bit by (rule le)
    then have "unat sigC + unat J < 2 ^ 64" using S(2) J62 by simp
    then have "unat (sigC + J) = unat sigC + unat J" by (intro unat_plus) simp
    then show ?thesis by (simp only: g_def unat_or_bit or [OF S(3)] of_nat_add)
  qed
  have n: "int (unat g) = rodd (real (unat sigC) + y)"
    using rodd_add_even [of "int (unat sigC)" y] S(3) by (simp add: u J)
  have "0 \<le> y" by (simp add: y_def)
  then have r: "2 ^ 61 \<le> real (unat sigC) + y" "real (unat sigC) + y < 2 ^ 63" using y S(1,2) by simp_all
  have v: "(real (unat sigC) + y) * pow2 (expC - 1084) = real (u128 z) * pow2 (expZ - 1148) + real (unat sigC) * pow2 (expC - 1084)"
  proof -
    have "pow2 (expC - 1084) = pow2 (expZ - 1148) * 2 ^ (64 + nat d)" using d(1) by (intro pow2_plus) (simp add: d_def)
    then show ?thesis by (simp add: y_def distrib_right)
  qed
  have "mulAddF64_sum s expZ z s expC sigC st =
      (if g < 0x4000000000000000 then softfloat_roundPackToF64 s (expC - 1) (push_bit 1 g) st
       else softfloat_roundPackToF64 s expC g st)"
    using True by (cases "expZ = expC") (simp_all add: mulAddF64_sum_def Let_def d_def J_def g_def)
  also have "\<dots> = f64_round s ((real (unat sigC) + y) * pow2 (expC - 1084)) st"
    using e by (intro softfloat_roundPackToF64_norm1 [OF n r]) simp_all
  finally show ?thesis unfolding v .
next
  case False
  define d where "d = expZ - expC"
  define C where "C = softfloat_shiftRightJam128 sigC 0 (word_of_int d)"
  define y where "y = real (wide sigC 0) / 2 ^ nat d"
  define x where "x = real (u128 z) + y"
  have d: "0 < d" "d < 2 ^ 64" "1 \<le> nat d" using False e by (simp_all add: d_def)
  have J: "int (u128 C) = rodd y" unfolding C_def y_def by (rule jam128_rodd [OF d(1,2)])
  have w: "wide sigC 0 = unat sigC * 2 ^ 64" by (simp add: wide_def)
  have "y \<le> real (wide sigC 0) / 2 ^ 1"
    unfolding y_def using d(3) by (intro divide_left_mono power_increasing) simp_all
  then have y: "y < 2 ^ 125" using S(2) by (simp add: w)
  then have "int (u128 C) < 2 ^ 125" unfolding J using rodd_less_even [of _ "2 ^ 125"] by simp
  define g where "g = softfloat_add128 (v64 z) (v0 z) (v64 C) (v0 C)"
  have "u128 g = (u128 z + u128 C) mod 2 ^ 128" unfolding g_def u128_add by (simp only: u128_def)
  then have u: "u128 g = u128 z + u128 C" using \<open>int (u128 C) < 2 ^ 125\<close> P(2) by simp
  have n: "int (u128 g) = rodd x"
    using rodd_add_even [of "int (u128 z)" y] P(3) by (simp add: u J x_def)
  then have nr: "real (u128 g) = of_int (rodd x)" by (metis of_int_of_nat_eq)
  define q where "q = v64 g OR of_bool (v0 g \<noteq> 0)"
  have n': "int (unat q) = rodd (x / 2 ^ 64)"
    using wide_rodd [of "v64 g" "v0 g"] rodd_rodd_div [of 64 x] unfolding q_def u128_def [symmetric] nr by simp
  have "0 \<le> y" by (simp add: y_def)
  then have r: "2 ^ 61 \<le> x / 2 ^ 64" "x / 2 ^ 64 < 2 ^ 63"
    using y P(1,2) unfolding x_def by (simp_all add: pos_le_divide_eq pos_divide_less_eq)
  have v: "x / 2 ^ 64 * pow2 (expZ - 1084) = real (u128 z) * pow2 (expZ - 1148) + real (unat sigC) * pow2 (expC - 1084)"
  proof -
    have "pow2 (expZ - 1084) = pow2 (expC - 1084) * 2 ^ nat d" using d(1) by (intro pow2_plus) (simp add: d_def)
    moreover have "pow2 (expZ - 1084) = pow2 (expZ - 1148) * 2 ^ 64" by (rule pow2_plus) simp
    ultimately show ?thesis by (simp add: x_def y_def w add_divide_distrib distrib_right)
  qed
  have "mulAddF64_sum s expZ z s expC sigC st =
      (if q < 0x4000000000000000 then softfloat_roundPackToF64 s (expZ - 1) (push_bit 1 q) st
       else softfloat_roundPackToF64 s expZ q st)"
    using False by (simp add: mulAddF64_sum_def Let_def d_def C_def g_def q_def)
  also have "\<dots> = f64_round s (x / 2 ^ 64 * pow2 (expZ - 1084)) st"
    using e by (intro softfloat_roundPackToF64_norm1 [OF n' r]) simp_all
  finally show ?thesis unfolding v .
qed

lemma agree_diff:
  assumes "agree j x y" "2 ^ j dvd N"
  shows "agree j (of_int N - x) (of_int N - y)"
proof -
  obtain q where "N = 2 ^ j * q" using assms(2) by (elim dvdE)
  then have d: "(of_int N - t) / 2 ^ j = of_int q - t / 2 ^ j" for t :: real by (simp add: diff_divide_distrib)
  have fl: "\<lfloor>of_int q - t\<rfloor> = (if t \<in> \<int> then q - \<lfloor>t\<rfloor> else q - \<lfloor>t\<rfloor> - 1)" for t :: real
  proof (cases "t \<in> \<int>")
    case True
    then obtain m where "t = of_int m" by (elim Ints_cases)
    then show ?thesis by simp
  next
    case False
    have "\<lfloor>of_int q - t\<rfloor> = q - \<lceil>t\<rceil>" 
      using floor_add_int [of "- t" q] by (simp add: floor_minus)
    then show ?thesis using False by (simp add: ceiling_altdef) (metis Ints_of_int)
  qed
  have "of_int q - t \<in> \<int> \<longleftrightarrow> t \<in> \<int>" for t :: real
    using Ints_diff [of "of_int q" "of_int q - t"] Ints_diff [of "of_int q" t] by auto
  then show ?thesis using assms(1) unfolding agree_def d by (simp add: fl)
qed

lemma mulAddF64_diff_less:
  fixes sigC :: u64
  assumes P: "2 ^ 125 \<le> u128 z" "u128 z < 2 ^ 126" "even (u128 z)"
    and S: "2 ^ 61 \<le> unat sigC" "unat sigC < 2 ^ 62" "even (unat sigC)" and d: "0 < d" "d < 2 ^ 64"
  defines "t \<equiv> if 1 < d then z\<lparr>v64 := softfloat_shiftRightJam64 (v64 z) (word_of_int d)\<rparr>
                else softfloat_shortShiftRightJam128 (v64 z) (v0 z) 1"
    and "x \<equiv> real (unat sigC * 2 ^ 64) - real (u128 z) / 2 ^ nat d"
  defines "g \<equiv> softfloat_sub128 sigC 0 (v64 t) (v0 t)"
  shows "0 < x" "0 < u128 g" "u128 g < 2 ^ 126" "real (u128 g) = x \<or> agree 65 (real (u128 g)) x \<and> 2 ^ 124 \<le> u128 g"
proof -
  define y where "y = real (u128 z) / 2 ^ nat d"
  have x: "x = real (unat sigC * 2 ^ 64) - y" by (simp add: x_def y_def)
  have "1 \<le> nat d" using d(1) by simp
  then have "y \<le> real (u128 z) / 2 ^ 1" unfolding y_def by (intro divide_left_mono power_increasing) simp_all
  then have y: "y < 2 ^ 125" using P(2) by simp
  have S': "2 ^ 125 \<le> unat sigC * 2 ^ 64" "unat sigC * 2 ^ 64 < 2 ^ 126" using S(1,2) by simp_all
  then have S'': "2 ^ 125 \<le> real (unat sigC * 2 ^ 64)" by (metis of_nat_le_iff of_nat_numeral of_nat_power)
  then show "0 < x" using y unfolding x by linarith
  have w: "wide sigC 0 = unat sigC * 2 ^ 64" by (simp add: wide_def)
  have t: "u128 t < 2 ^ 125 \<and> (real (u128 t) = y \<or> agree 65 (real (u128 t)) y \<and> u128 t < 2 ^ 124)"
  proof (cases "1 < d")
    case True
    then have "2 \<le> nat d" by simp
    then have "y \<le> real (u128 z) / 2 ^ 2" unfolding y_def by (intro divide_left_mono power_increasing) simp_all
    then have y124: "y < 2 ^ 124" using P(2) by simp
    define J where "J = softfloat_shiftRightJam64 (v64 z) (word_of_int d)"
    have tJ: "v64 t = J" "v0 t = v0 z" using True by (simp_all add: t_def J_def)
    have J: "int (unat (J OR of_bool (v0 z \<noteq> 0))) = rodd (real (u128 z) / 2 ^ (64 + nat d))"
      using jam_high_word [of d "v64 z" "v0 z"] d True by (simp add: J_def u128_def)
    have eq: "real (u128 z) / 2 ^ (64 + nat d) = y / 2 ^ 64" by (simp add: y_def power_add)
    have "rodd (real (u128 t) / 2 ^ 64) = rodd (y / 2 ^ 64)"
      using wide_rodd [of J "v0 z"] unfolding J eq by (simp add: u128_def tJ)
    then have "agree 1 (real (u128 t) / 2 ^ 64) (y / 2 ^ 64)" by (rule rodd_eq_agree)
    then have "agree (1 + 64) (real (u128 t) / 2 ^ 64 * 2 ^ 64) (y / 2 ^ 64 * 2 ^ 64)" by (simp only: agree_scale)
    then have ag: "agree 65 (real (u128 t)) y" by simp
    have "\<not> real (2 ^ 124) \<le> real (u128 t)" using agree_le_iff [OF ag, of "2 ^ 59"] y124 by simp
    then have "u128 t < 2 ^ 124" by (simp only: of_nat_le_iff not_le)
    then show ?thesis using ag by simp
  next
    case False
    then have "d = 1" using d(1) by simp
    obtain h where h: "u128 z = 2 * h" using P(3) by (elim evenE)
    then have yh: "y = real h" by (simp add: y_def \<open>d = 1\<close>)
    have "int (u128 t) = rodd (real (u128 z) / 2 ^ 1)"
      using u128_shortShiftRightJam [of 1 "v64 z" "v0 z"] False by (simp add: t_def u128_def)
    then have "int (u128 t) = int h" by (simp add: h)
    then show ?thesis using yh h P(2) by simp
  qed
  have le: "wide (v64 t) (v0 t) \<le> wide sigC 0" using t S'(1) unfolding w u128_def by linarith
  have g: "u128 g = unat sigC * 2 ^ 64 - u128 t" unfolding g_def u128_sub [OF le] w by (simp add: u128_def)
  show "0 < u128 g" "u128 g < 2 ^ 126" using t S' by (simp_all add: g)
  have gr: "real (u128 g) = real (unat sigC * 2 ^ 64) - real (u128 t)"
    unfolding g using t S'(1) by (intro of_nat_diff) simp
  show "real (u128 g) = x \<or> agree 65 (real (u128 g)) x \<and> 2 ^ 124 \<le> u128 g"
  proof (cases "real (u128 t) = y")
    case True
    then show ?thesis by (simp add: gr x)
  next
    case False
    then have ag: "agree 65 (real (u128 t)) y" and lt: "u128 t < 2 ^ 124" using t by simp_all
    have "(2 :: int) ^ 65 dvd int (unat sigC) * 2 ^ 64"
    proof -
      obtain h where "unat sigC = 2 * h" using S(3) by (elim evenE)
      then show ?thesis by simp
    qed
    from agree_diff [OF ag this] have "agree 65 (real (u128 g)) x" unfolding gr x by simp
    moreover have "2 ^ 124 \<le> u128 g" unfolding g using lt S'(1) by simp
    ultimately show ?thesis by simp
  qed
qed

lemma mulAddF64_diff_greater:
  fixes sigC :: u64
  assumes P: "2 ^ 125 \<le> u128 z" "u128 z < 2 ^ 126" "even (u128 z)"
    and S: "2 ^ 61 \<le> unat sigC" "unat sigC < 2 ^ 62" and d: "0 < d" "d < 2 ^ 64"
  defines "C \<equiv> softfloat_shiftRightJam128 sigC 0 (word_of_int d)"
    and "x \<equiv> real (u128 z) - real (unat sigC * 2 ^ 64) / 2 ^ nat d"
  defines "g \<equiv> softfloat_sub128 (v64 z) (v0 z) (v64 C) (v0 C)"
  shows "0 < x" "0 < u128 g" "u128 g < 2 ^ 126" "real (u128 g) = x \<or> agree 65 (real (u128 g)) x \<and> 2 ^ 124 \<le> u128 g"
proof -
  define y where "y = real (unat sigC * 2 ^ 64) / 2 ^ nat d"
  have x: "x = real (u128 z) - y" by (simp add: x_def y_def)
  have w: "wide sigC 0 = unat sigC * 2 ^ 64" by (simp add: wide_def)
  have C: "int (u128 C) = rodd y" unfolding C_def y_def w [symmetric] by (rule jam128_rodd [OF d])
  have "1 \<le> nat d" using d(1) by simp
  then have "y \<le> real (unat sigC * 2 ^ 64) / 2 ^ 1" unfolding y_def by (intro divide_left_mono power_increasing) simp_all
  then have y: "y < 2 ^ 125" using S(2) by simp
  then have "int (u128 C) < 2 ^ 125" unfolding C using rodd_less_even [of _ "2 ^ 125"] by simp
  then have C125: "u128 C < 2 ^ 125" by simp
  have P': "2 ^ 125 \<le> real (u128 z)" using P(1) by (metis of_nat_le_iff of_nat_numeral of_nat_power)
  then show "0 < x" using y unfolding x by linarith
  have le: "wide (v64 C) (v0 C) \<le> wide (v64 z) (v0 z)" using C125 P(1) unfolding u128_def by linarith
  have g: "u128 g = u128 z - u128 C" unfolding g_def u128_sub [OF le] by (simp add: u128_def)
  show "0 < u128 g" "u128 g < 2 ^ 126" using C125 P by (simp_all add: g)
  have "int (u128 g) = int (u128 z) - rodd y" unfolding g C [symmetric] using C125 P(1) by (intro of_nat_diff) simp
  then have gi: "int (u128 g) = rodd x" using rodd_diff_even [of "int (u128 z)" y] P(3) by (simp add: x)
  show "real (u128 g) = x \<or> agree 65 (real (u128 g)) x \<and> 2 ^ 124 \<le> u128 g"
  proof (cases "d = 1")
    case True
    then have "y = of_int (int (unat sigC) * 2 ^ 63)" by (simp add: y_def)
    then have "x = of_int (int (u128 z) - int (unat sigC) * 2 ^ 63)" by (simp add: x)
    then have "of_int (rodd x) = x" by (simp only: rodd_of_int)
    then have "real (u128 g) = x" using gi by (metis of_int_of_nat_eq)
    then show ?thesis ..
  next
    case False
    then have "2 \<le> nat d" using d(1) by simp
    then have "y \<le> real (unat sigC * 2 ^ 64) / 2 ^ 2" unfolding y_def by (intro divide_left_mono power_increasing) simp_all
    then have "y < 2 ^ 124" using S(2) by simp
    then have "of_int (2 ^ 124) \<le> x" using P' unfolding x by simp
    then have "2 ^ 124 \<le> rodd x" by (rule rodd_ge)
    then have "2 ^ 124 \<le> u128 g" unfolding gi [symmetric] by simp
    then show ?thesis using agree_int_rodd [OF gi, of 65] by simp
  qed
qed

lemma mulAddF64_diff_equal:
  fixes sigC :: u64
  assumes P: "u128 z < 2 ^ 126" and S: "unat sigC < 2 ^ 62"
  defines "g \<equiv> z\<lparr>v64 := v64 z - sigC\<rparr>"
  shows "v64 g OR v0 g = 0 \<longleftrightarrow> u128 z = unat sigC * 2 ^ 64"
    "unat sigC * 2 ^ 64 < u128 z \<Longrightarrow> v64 g AND 0x8000000000000000 = 0 \<and> u128 g = u128 z - unat sigC * 2 ^ 64"
    "u128 z < unat sigC * 2 ^ 64 \<Longrightarrow> v64 g AND 0x8000000000000000 \<noteq> 0 \<and>
       u128 (softfloat_sub128 0 0 (v64 g) (v0 g)) = unat sigC * 2 ^ 64 - u128 z"
proof -
  define H L where "H = unat (v64 z)" and "L = unat (v0 z)"
  have z: "u128 z = H * 2 ^ 64 + L" "L < 2 ^ 64"
    using unat_bound [of "v0 z"] by (simp_all add: u128_def wide_def H_def L_def)
  have H: "H < 2 ^ 62" using P z by simp
  have g: "v64 g = v64 z - sigC" "v0 g = v0 z" by (simp_all add: g_def)
  have w: "wide sigC 0 = unat sigC * 2 ^ 64" by (simp add: wide_def)
  show "v64 g OR v0 g = 0 \<longleftrightarrow> u128 z = unat sigC * 2 ^ 64"
    unfolding g or_eq_0_iff right_minus_eq w [symmetric] u128_def wide_inject ..
  {
    assume "unat sigC * 2 ^ 64 < u128 z"
    then have le: "unat sigC \<le> H" using z by simp
    then have u: "unat (v64 g) = H - unat sigC" unfolding g H_def by (intro unat_minus)
    then have "\<not> 2 ^ 63 \<le> unat (v64 g)" using H by simp
    then show "v64 g AND 0x8000000000000000 = 0 \<and> u128 g = u128 z - unat sigC * 2 ^ 64"
      using and_top64 [of "v64 g"] u le by (simp add: u128_def [of g] wide_def g(2) L_def [symmetric] z(1) diff_mult_distrib)
  next
    assume lt: "u128 z < unat sigC * 2 ^ 64"
    then have le: "H < unat sigC" using z by simp
    then have u: "unat (v64 g) = 2 ^ 64 + H - unat sigC"
      unfolding g unat_sub_if' H_def using S by simp
    then have "2 ^ 63 \<le> unat (v64 g)" using S by simp
    moreover have wg: "wide (v64 g) (v0 g) = 2 ^ 128 - (unat sigC * 2 ^ 64 - u128 z)"
      unfolding wide_def u g(2) L_def [symmetric] z(1) using le S lt z by simp
    moreover have "wide (v64 g) (v0 g) \<noteq> 0" unfolding wg using lt S by simp
    ultimately show "v64 g AND 0x8000000000000000 \<noteq> 0 \<and>
       u128 (softfloat_sub128 0 0 (v64 g) (v0 g)) = unat sigC * 2 ^ 64 - u128 z"
      using and_top64 [of "v64 g"] S lt by (simp add: u128_neg)
  }
qed

lemma mulAddF64_sum_sub:
  fixes sigC :: u64
  assumes P: "2 ^ 125 \<le> u128 z" "u128 z < 2 ^ 126" "even (u128 z)"
    and S: "2 ^ 61 \<le> unat sigC" "unat sigC < 2 ^ 62" "even (unat sigC)"
    and e: "- (2 ^ 13) \<le> expZ" "expZ < 2 ^ 13" "- (2 ^ 13) \<le> expC" "expC < 2 ^ 13"
  defines "xP \<equiv> real (u128 z) * pow2 (expZ - 1148)" and "xC \<equiv> real (unat sigC) * pow2 (expC - 1084)"
  shows "mulAddF64_sum s expZ z (\<not> s) expC sigC st =
    (if xP = xC then (f64_pack (softfloat_roundingMode st = softfloat_round_min) 0, st)
     else f64_round (if xC < xP then s else \<not> s) \<bar>xP - xC\<bar> st)"
proof -
  define d where "d = expZ - expC"
  have xC: "xC = real (unat sigC * 2 ^ 64) * pow2 (expC - 1148)"
    using pow2_plus [of "expC - 1084" "expC - 1148" 64] by (simp add: xC_def)
  note def = mulAddF64_sum_def d_def [symmetric]
  consider "d < 0" | "d = 0" | "0 < d" by linarith
  then show ?thesis
  proof cases
    case 1
    define t where "t = (if 1 < - d then z\<lparr>v64 := softfloat_shiftRightJam64 (v64 z) (word_of_int (- d))\<rparr>
                else softfloat_shortShiftRightJam128 (v64 z) (v0 z) 1)"
    define g where "g = softfloat_sub128 sigC 0 (v64 t) (v0 t)"
    define x where "x = real (unat sigC * 2 ^ 64) - real (u128 z) / 2 ^ nat (- d)"
    have d: "0 < - d" "- d < 2 ^ 64" using 1 e by (simp_all add: d_def)
    note g = mulAddF64_diff_less [OF P S d, folded t_def x_def, folded g_def]
    have "pow2 (expC - 1148) = pow2 (expZ - 1148) * 2 ^ nat (- d)" using 1 by (intro pow2_plus) (simp add: d_def)
    then have v: "xC - xP = x * pow2 (expC - 1148)" by (simp add: xC xP_def x_def left_diff_distrib)
    then have "0 < xC - xP" using g(1) by simp
    then have "\<not> xC < xP" "xP \<noteq> xC" "\<bar>xP - xC\<bar> = x * pow2 (expC - 1148)" using v by simp_all
    moreover have "mulAddF64_sum s expZ z (\<not> s) expC sigC st = mulAddF64_normRound (\<not> s) expC g st"
      using 1 unfolding def by (simp add: Let_def g_def t_def)
    moreover have "mulAddF64_normRound (\<not> s) expC g st = f64_round (\<not> s) (x * pow2 (expC - 1148)) st"
      using e by (intro mulAddF64_normalise [OF g(2-4)]) simp_all
    ultimately show ?thesis by simp
  next
    case 2
    define g where "g = z\<lparr>v64 := v64 z - sigC\<rparr>"
    note g = mulAddF64_diff_equal [OF P(2) S(2), folded g_def]
    have v: "xP = real (u128 z) * pow2 (expZ - 1148)" "xC = real (unat sigC * 2 ^ 64) * pow2 (expZ - 1148)"
      using 2 by (simp_all only: xC xP_def d_def right_minus_eq)
    have code: "mulAddF64_sum s expZ z (\<not> s) expC sigC st =
        (if v64 g OR v0 g = 0 then (f64_pack (softfloat_roundingMode st = softfloat_round_min) 0, st)
         else if v64 g AND 0x8000000000000000 \<noteq> 0
         then mulAddF64_normRound (\<not> s) expZ (softfloat_sub128 0 0 (v64 g) (v0 g)) st
         else mulAddF64_normRound s expZ g st)"
      using 2 unfolding def by (simp add: Let_def g_def packToF64UI_pack)
    have norm: "mulAddF64_normRound s expZ h st = f64_round s (real (u128 h) * pow2 (expZ - 1148)) st"
      if "0 < u128 h" "u128 h < 2 ^ 126" for s h
      using e by (intro mulAddF64_normalise [OF that]) simp_all
    consider "u128 z = unat sigC * 2 ^ 64" | "unat sigC * 2 ^ 64 < u128 z" | "u128 z < unat sigC * 2 ^ 64" by linarith
    then show ?thesis
    proof cases
      case 1
      then show ?thesis using g(1) v unfolding code by simp
    next
      case a: 2
      then have "\<bar>xP - xC\<bar> = real (u128 g) * pow2 (expZ - 1148)" "xC < xP" "xP \<noteq> xC"
        using g(2) unfolding v by (simp_all add: of_nat_diff left_diff_distrib)
      moreover have "v64 g OR v0 g \<noteq> 0" using g(1) a by simp
      ultimately show ?thesis unfolding code using g(2) [OF a] norm [of g s] a P(2) by simp
    next
      case a: 3
      then have "\<bar>xP - xC\<bar> = real (u128 (softfloat_sub128 0 0 (v64 g) (v0 g))) * pow2 (expZ - 1148)" "\<not> xC < xP" "xP \<noteq> xC"
        using g(3) unfolding v by (simp_all add: of_nat_diff left_diff_distrib)
      moreover have "v64 g OR v0 g \<noteq> 0" using g(1) a by simp
      ultimately show ?thesis
        unfolding code using g(3) [OF a] norm [of "softfloat_sub128 0 0 (v64 g) (v0 g)" "\<not> s"] a S(2) by simp
    qed
  next
    case 3
    define C where "C = softfloat_shiftRightJam128 sigC 0 (word_of_int d)"
    define g where "g = softfloat_sub128 (v64 z) (v0 z) (v64 C) (v0 C)"
    define x where "x = real (u128 z) - real (unat sigC * 2 ^ 64) / 2 ^ nat d"
    have d: "0 < d" "d < 2 ^ 64" using 3 e by (simp_all add: d_def)
    note g = mulAddF64_diff_greater [OF P S(1,2) d, folded C_def x_def, folded g_def]
    have "pow2 (expZ - 1148) = pow2 (expC - 1148) * 2 ^ nat d" using 3 by (intro pow2_plus) (simp add: d_def)
    then have v: "xP - xC = x * pow2 (expZ - 1148)" by (simp add: xC xP_def x_def left_diff_distrib)
    then have "0 < xP - xC" using g(1) by simp
    then have "xC < xP" "xP \<noteq> xC" "\<bar>xP - xC\<bar> = x * pow2 (expZ - 1148)" using v by simp_all
    moreover have "mulAddF64_sum s expZ z (\<not> s) expC sigC st = mulAddF64_normRound s expZ g st"
      using 3 unfolding def by (simp add: Let_def g_def C_def)
    moreover have "mulAddF64_normRound s expZ g st = f64_round s (x * pow2 (expZ - 1148)) st"
      using e by (intro mulAddF64_normalise [OF g(2-4)]) simp_all
    ultimately show ?thesis by simp
  qed
qed

lemma f64_round_signed_sum:
  assumes "0 < x" "0 < y"
  shows "f64_round_signed (if s = t then s else st_rmode st = RDN) (sgn_val s x + sgn_val t y) st =
    (if s = t then f64_round s (x + y) st
     else if x = y then (f64_pack (softfloat_roundingMode st = softfloat_round_min) 0, st)
     else f64_round (if y < x then s else \<not> s) \<bar>x - y\<bar> st)"
  using assms by (cases s; cases t) (auto simp: f64_round_signed_def sgn_val_def f64_round_0 sf_rmode_simps abs_if add.commute)

lemma mulAddF64_sum_round:
  fixes sigC :: u64
  assumes P: "2 ^ 125 \<le> u128 z" "u128 z < 2 ^ 126" "even (u128 z)"
    and S: "2 ^ 61 \<le> unat sigC" "unat sigC < 2 ^ 62" "even (unat sigC)"
    and e: "- (2 ^ 13) \<le> expZ" "expZ < 2 ^ 13" "- (2 ^ 13) \<le> expC" "expC < 2 ^ 13"
  shows "mulAddF64_sum s expZ z t expC sigC st =
    f64_round_signed (if s = t then s else st_rmode st = RDN)
      (sgn_val s (real (u128 z) * pow2 (expZ - 1148)) + sgn_val t (real (unat sigC) * pow2 (expC - 1084))) st"
proof -
  have pos: "0 < real (u128 z) * pow2 (expZ - 1148)" "0 < real (unat sigC) * pow2 (expC - 1084)"
    using P(1) S(1) by simp_all
  show ?thesis
  proof (cases "s = t")
    case True
    then show ?thesis unfolding f64_round_signed_sum [OF pos] by (simp only: if_True refl mulAddF64_sum_add [OF P S e])
  next
    case False
    then have t: "(\<not> s) = t" "(s = t) = False" by blast+
    show ?thesis
      using mulAddF64_sum_sub [OF P S e, of s st] unfolding f64_round_signed_sum [OF pos] unfolding t if_False .
  qed
qed

text \<open>The product of two normalised significands, normalised.\<close>

lemma mulAddF64_prod:
  fixes u v :: u64
  assumes u: "unat u = S" "2 ^ 52 \<le> S" "S < 2 ^ 53" and v: "unat v = T" "2 ^ 52 \<le> T" "T < 2 ^ 53"
  defines "q \<equiv> softfloat_mul64To128 (push_bit 10 u) (push_bit 10 v)"
  obtains p e' where
    "(if v64 q < 0x2000000000000000 then (e - 1, softfloat_add128 (v64 q) (v0 q) (v64 q) (v0 q)) else (e, q)) = (e', p)"
    "2 ^ 125 \<le> u128 p" "u128 p < 2 ^ 126" "even (u128 p)" "e - 1 \<le> e'" "e' \<le> e"
    "real (u128 p) * pow2 (e' - 1148) = real (S * T) * pow2 (e - 1128)"
proof -
  have up: "unat (push_bit 10 u) = S * 2 ^ 10" using u by (subst unat_push_bit) simp_all
  have vp: "unat (push_bit 10 v) = T * 2 ^ 10" using v by (subst unat_push_bit) simp_all
  have lt: "S * T < 2 ^ 53 * 2 ^ 53" using u(3) v(3) by (rule mult_strict_mono') simp_all
  have ge: "2 ^ 52 * 2 ^ 52 \<le> S * T" using u(2) v(2) by (rule mult_le_mono)
  have q: "u128 q = S * T * 2 ^ 20" unfolding q_def u128_mul up vp by simp
  have c: "v64 q < 0x2000000000000000 \<longleftrightarrow> u128 q < 2 ^ 125"
    using unat_bound [of "v0 q"] by (auto simp: word_less_nat_alt u128_def wide_def)
  have v: "real (u128 q) * pow2 (e - 1148) = real (S * T) * pow2 (e - 1128)"
    unfolding q using pow2_plus [of "e - 1128" "e - 1148" 20] by simp
  show thesis
  proof (cases "v64 q < 0x2000000000000000")
    case True
    then have q125: "u128 q < 2 ^ 125" using c by simp
    define p where "p = softfloat_add128 (v64 q) (v0 q) (v64 q) (v0 q)"
    have p: "u128 p = u128 q * 2"
      using q125 unfolding p_def u128_add u128_def [symmetric] by simp
    have "pow2 (e - 1148) = pow2 (e - 1 - 1148) * 2 ^ 1" by (rule pow2_plus) simp
    then have "real (u128 p) * pow2 (e - 1 - 1148) = real (S * T) * pow2 (e - 1128)"
      unfolding v [symmetric] p by simp
    then show thesis using True q125 ge
      by (intro that [of "e - 1" p]) (simp_all add: p_def [symmetric], simp_all add: p q)
  next
    case False
    then have "2 ^ 125 \<le> u128 q" using c by simp
    then show thesis using False v lt
      by (intro that [of e q]) (simp_all add: q)
  qed
qed

lemma mulAddF64_product_sig:
  assumes P: "2 ^ 125 \<le> u128 p" "u128 p < 2 ^ 126"
  defines "r \<equiv> real (u128 p) / 2 ^ 63"
  shows "agree (10 - 1) (real (unat (push_bit 1 (v64 p) OR of_bool (v0 p \<noteq> 0)))) r" "2 ^ 62 \<le> r" "r < 2 ^ 63"
proof -
  define g where "g = push_bit 1 (v64 p) OR of_bool (v0 p \<noteq> 0)"
  have b: "unat (v0 p) < 2 ^ 64" using unat_bound [of "v0 p"] by simp
  have pv: "u128 p = unat (v64 p) * 2 ^ 64 + unat (v0 p)" by (simp add: u128_def wide_def)
  then have h: "unat (v64 p) < 2 ^ 62" using P(2) by simp
  then have "unat (push_bit 1 (v64 p)) = unat (v64 p) * 2" by (subst unat_push_bit) simp_all
  then have g: "unat g = unat (v64 p) * 2 + of_bool (v0 p \<noteq> 0)"
  proof -
    have "(n * 2 OR of_bool b) = n * 2 + of_bool b" for n :: nat and b using or_one_eq [of "n * 2"] by (cases b) simp_all
    then show ?thesis unfolding g_def unat_or_bit \<open>unat (push_bit 1 (v64 p)) = unat (v64 p) * 2\<close> .
  qed
  have dv: "u128 p div 2 ^ 64 = unat (v64 p)" "u128 p mod 2 ^ 64 = unat (v0 p)" unfolding pv using b by simp_all
  have "agree 1 (real (unat g)) r"
  proof (cases "v0 p = 0")
    case True
    then have "r = real (unat g)" by (simp add: r_def pv g)
    then show ?thesis by simp
  next
    case False
    then have "0 < unat (v0 p)" by (simp add: unat_gt_0)
    then have "of_int (int (unat (v64 p))) * 2 ^ 1 < r" "r < of_int (int (unat (v64 p)) + 1) * 2 ^ 1"
      using b by (simp_all add: r_def pv pos_less_divide_eq pos_divide_less_eq)
    then show ?thesis using False by (intro agree_between [of "int (unat (v64 p))"]) (simp_all add: g)
  qed
  then have "agree (10 - 1) (real (unat g)) r" by (rule agree_mono) simp
  then show "agree (10 - 1) (real (unat (push_bit 1 (v64 p) OR of_bool (v0 p \<noteq> 0)))) r" by (simp only: g_def)
  have "real (2 ^ 125) \<le> real (u128 p)" "real (u128 p) < real (2 ^ 126)"
    using P by (simp_all only: of_nat_le_iff of_nat_less_iff)
  then show "2 ^ 62 \<le> r" "r < 2 ^ 63" by (simp_all add: r_def pos_le_divide_eq pos_divide_less_eq)
qed

lemma f64_round_signed_pos: "0 < x \<Longrightarrow> f64_round_signed z (sgn_val s x) st = f64_round s x st"
  by (cases s) (auto simp: f64_round_signed_def sgn_val_def)

lemma f64_val_eq_0: "f64_val c = 0 \<longleftrightarrow> f64_mag c = 0"
  by (simp add: f64_val_def sgn_val_def)

theorem softfloat_mulAddF64_finite:
  assumes fin: "f64_finite a" "f64_finite b" "f64_finite c"
    and op: "op \<noteq> softfloat_mulAdd_subC \<or> f64_mag a \<noteq> 0 \<and> f64_mag b \<noteq> 0"
  defines "s \<equiv> (f64_sign a \<noteq> f64_sign b) \<noteq> (op = softfloat_mulAdd_subProd)"
    and "t \<equiv> f64_sign c \<noteq> (op = softfloat_mulAdd_subC)"
  shows "softfloat_mulAddF64 a b c op st =
    f64_round_signed (if s = t then s else st_rmode st = RDN)
      (sgn_val s (mval f64_fmt (f64_mag a) * mval f64_fmt (f64_mag b)) + sgn_val t (mval f64_fmt (f64_mag c))) st"
proof -
  let ?uA = a and ?uB = b and ?uC = c
  have k: "(expF64UI ?uA = 0x7FF) = False" "(expF64UI ?uB = 0x7FF) = False" "(expF64UI ?uC = 0x7FF) = False"
    using fin by (simp_all only: f64_fields f64_finite_exp) simp_all
  have zero: "expF64UI d = 0 \<and> fracF64UI d = 0 \<longleftrightarrow> f64_mag d = 0" for d
    unfolding f64_fields fracF64_eq_0 using div_mult_mod_eq [of "f64_mag d" "2 ^ 52"] by auto
  note code = softfloat_mulAddF64_def Let_def k if_False signF64UI_eq zero magbits64_eq_0
    s_def [symmetric] t_def [symmetric]
  show ?thesis
  proof (cases "f64_mag a = 0 \<or> f64_mag b = 0")
    case True
    then have t: "t = f64_sign c" using op by (auto simp: t_def)
    then have x: "sgn_val s (mval f64_fmt (f64_mag a) * mval f64_fmt (f64_mag b)) + sgn_val t (mval f64_fmt (f64_mag c)) = f64_val c"
      using True by (auto simp: f64_val_def sgn_val_def)
    have "softfloat_mulAddF64 ?uA ?uB ?uC op st =
        (if f64_mag c = 0 \<and> s \<noteq> t then (packToF64UI (softfloat_roundingMode st = softfloat_round_min) 0 0, st)
         else (?uC, st))"
      unfolding code using True by (cases "f64_mag a = 0") (simp_all only: simp_thms if_True if_False prod.case_eq_if)
    also have "\<dots> = (if f64_mag c = 0 \<and> s \<noteq> t then (f64_pack (softfloat_roundingMode st = softfloat_round_min) 0, st) else (c, st))"
      by (simp add: packToF64UI_pack)
    finally have "softfloat_mulAddF64 ?uA ?uB ?uC op st = \<dots>" .
    moreover have "f64_round_signed (if s = t then s else st_rmode st = RDN) (f64_val c) st = \<dots>"
    proof (cases "f64_mag c = 0 \<and> s \<noteq> t")
      case True
      then show ?thesis by (simp add: f64_val_def sgn_val_def f64_round_signed_def f64_round_0 sf_rmode_simps)
    next
      case False
      then show ?thesis using t by (auto simp: f64_val_eq_0 intro!: f64_round_signed_exact fin(3))
    qed
    ultimately show ?thesis unfolding x by simp
  next
    case False
    then have nz: "\<not> (expF64UI ?uA = 0 \<and> fracF64UI ?uA = 0)" "\<not> (expF64UI ?uB = 0 \<and> fracF64UI ?uB = 0)"
      unfolding zero by simp_all
    obtain eA sA S where A: "(if expF64UI ?uA = 0 then softfloat_normSubnormalF64Sig (fracF64UI ?uA) else (expF64UI ?uA, fracF64UI ?uA)) = (eA, sA)"
      "unat (sA OR 0x0010000000000000) = S" "2 ^ 52 \<le> S" "S < 2 ^ 53"
      "mval f64_fmt (f64_mag a) = real S * pow2 (eA - 1075)" "- 52 \<le> eA" "eA < 0x7FF"
      using normF64_operand [OF fin(1) nz(1)] .
    obtain eB sB T where B: "(if expF64UI ?uB = 0 then softfloat_normSubnormalF64Sig (fracF64UI ?uB) else (expF64UI ?uB, fracF64UI ?uB)) = (eB, sB)"
      "unat (sB OR 0x0010000000000000) = T" "2 ^ 52 \<le> T" "T < 2 ^ 53"
      "mval f64_fmt (f64_mag b) = real T * pow2 (eB - 1075)" "- 52 \<le> eB" "eB < 0x7FF"
      using normF64_operand [OF fin(2) nz(2)] .
    define q where "q = softfloat_mul64To128 (push_bit 10 (sA OR 0x0010000000000000)) (push_bit 10 (sB OR 0x0010000000000000))"
    obtain p e where P: "(if v64 q < 0x2000000000000000 then (eA + eB - 0x3FE - 1, softfloat_add128 (v64 q) (v0 q) (v64 q) (v0 q))
        else (eA + eB - 0x3FE, q)) = (e, p)"
      "2 ^ 125 \<le> u128 p" "u128 p < 2 ^ 126" "even (u128 p)" "eA + eB - 0x3FE - 1 \<le> e" "e \<le> eA + eB - 0x3FE"
      "real (u128 p) * pow2 (e - 1148) = real (S * T) * pow2 (eA + eB - 0x3FE - 1128)"
      unfolding q_def
      by (rule mulAddF64_prod [OF A(2-4) B(2-4)])
    have "pow2 (eA - 1075) * pow2 (eB - 1075) = pow2 (eA + eB - 2150)" by (simp add: algebra_simps flip: pow2_add)
    then have x: "mval f64_fmt (f64_mag a) * mval f64_fmt (f64_mag b) = real (u128 p) * pow2 (e - 1148)"
      unfolding P(7) A(5) B(5) by simp
    have e: "- (2 ^ 13) \<le> e" "e < 2 ^ 13" using A(6,7) B(6,7) P(5,6) by simp_all
    show ?thesis
    proof (cases "f64_mag c = 0")
      case True
      have "softfloat_mulAddF64 ?uA ?uB ?uC op st = softfloat_roundPackToF64 s (e - 1) (push_bit 1 (v64 p) OR of_bool (v0 p \<noteq> 0)) st"
        using False True unfolding code A(1) B(1) prod.case q_def [symmetric] P(1) by (simp only: de_Morgan_disj simp_thms if_True if_False)
      also have "\<dots> = f64_round s (real (u128 p) / 2 ^ 63 * pow2 (e - 1 - 1084)) st"
        using e mulAddF64_product_sig [OF P(2,3)] by (intro softfloat_roundPackToF64_round) simp_all
      also have "real (u128 p) / 2 ^ 63 * pow2 (e - 1 - 1084) = mval f64_fmt (f64_mag a) * mval f64_fmt (f64_mag b)"
        unfolding x using pow2_plus [of "e - 1 - 1084" "e - 1148" 63] by simp
      also have "f64_round s (mval f64_fmt (f64_mag a) * mval f64_fmt (f64_mag b)) st =
          f64_round_signed (if s = t then s else st_rmode st = RDN) (sgn_val s (mval f64_fmt (f64_mag a) * mval f64_fmt (f64_mag b))) st"
        unfolding x using f64_round_signed_pos [of "real (u128 p) * pow2 (e - 1148)"] P(2) by simp
      finally show ?thesis using True by (simp add: sgn_val_def)
    next
      case c: False
      then have nc: "\<not> (expF64UI ?uC = 0 \<and> fracF64UI ?uC = 0)" unfolding zero by simp
      obtain eC sC U where C: "(if expF64UI ?uC = 0 then softfloat_normSubnormalF64Sig (fracF64UI ?uC) else (expF64UI ?uC, fracF64UI ?uC)) = (eC, sC)"
        "unat (sC OR 0x0010000000000000) = U" "2 ^ 52 \<le> U" "U < 2 ^ 53"
        "mval f64_fmt (f64_mag c) = real U * pow2 (eC - 1075)" "- 52 \<le> eC" "eC < 0x7FF"
        using normF64_operand [OF fin(3) nc] .
      define w where "w = push_bit 9 (sC OR 0x0010000000000000)"
      have w: "unat w = U * 2 ^ 9" unfolding w_def using C(2-4) by (subst unat_push_bit) simp_all
      then have w': "2 ^ 61 \<le> unat w" "unat w < 2 ^ 62" "even (unat w)" using C(3,4) by simp_all
      have y: "mval f64_fmt (f64_mag c) = real (unat w) * pow2 (eC - 1084)"
        unfolding C(5) w using pow2_plus [of "eC - 1075" "eC - 1084" 9] by simp
      have "softfloat_mulAddF64 ?uA ?uB ?uC op st = mulAddF64_sum s e p t eC w st"
        using False c unfolding code A(1) B(1) C(1) prod.case q_def [symmetric] P(1) w_def by (simp only: de_Morgan_disj simp_thms if_True if_False)
      also have "\<dots> = f64_round_signed (if s = t then s else st_rmode st = RDN)
          (sgn_val s (real (u128 p) * pow2 (e - 1148)) + sgn_val t (real (unat w) * pow2 (eC - 1084))) st"
        by (rule mulAddF64_sum_round [OF P(2-4) w' e]) (use C(6,7) in simp_all)
      finally show ?thesis unfolding x y .
    qed
  qed
qed

theorem f64_mulAdd_finite:
  assumes "f64_finite a" "f64_finite b" "f64_finite c"
  shows "f64_mulAdd a b c st =
    f64_round_signed (if (f64_sign a \<noteq> f64_sign b) = f64_sign c then f64_sign c else st_rmode st = RDN)
      (f64_val a * f64_val b + f64_val c) st"
  using softfloat_mulAddF64_finite [OF assms, of 0 st]
  by (auto simp: f64_mulAdd_def f64_val_def sgn_val_def split: if_splits)

lemma f64_nan_result_default:
  "\<not> f64_isnan c \<Longrightarrow> f64_nan_result defaultNaNF64UI c st = (defaultNaNF64UI, st)"
  by (simp add: f64_nan_result_def f64_isnan_def f64_issnan_def f64_mag_def inf_code_f64)

theorem f64_mulAdd_special:
  assumes "\<not> (f64_finite a \<and> f64_finite b \<and> f64_finite c)"
  defines "s \<equiv> f64_sign a \<noteq> f64_sign b"
  shows "f64_mulAdd a b c st =
    (if f64_isnan a \<or> f64_isnan b then (case f64_nan_result a b st of (z, st') \<Rightarrow> f64_nan_result z c st')
     else if f64_isinf a \<or> f64_isinf b then
       if f64_mag a = 0 \<or> f64_mag b = 0 \<or> f64_isinf c \<and> f64_sign c \<noteq> s
       then f64_nan_result defaultNaNF64UI c (softfloat_raiseFlags softfloat_flag_invalid st)
       else if f64_isnan c then f64_nan_result 0 c st
       else (f64_pack s (inf_code f64_fmt), st)
     else if f64_isnan c then f64_nan_result 0 c st
     else (c, st))"
proof -
  let ?eA = "f64_mag a div 2 ^ 52" and ?eB = "f64_mag b div 2 ^ 52" and ?eC = "f64_mag c div 2 ^ 52"
  have nz: "f64_mag d \<noteq> 0" if "f64_mag d div 2 ^ 52 = 0x7FF" for d using that by (intro notI) simp
  have i: "(int (f64_mag d div 2 ^ 52) = 0x7FF) = (f64_mag d div 2 ^ 52 = 0x7FF)" for d by simp
  have n: "f64_nan_result (f64_pack s (inf_code f64_fmt)) c st = f64_nan_result 0 c st"
    by (simp add: f64_nan_result_def f64_isnan_def f64_issnan_def f64_mag_def f64_pack_def inf_code_f64)
  have p: "softfloat_propagateNaNF64UI d d' st' = f64_nan_result d d' st'" for d d' st'
    using softfloat_propagateNaNF64UI_result [of d d' st'] by simp
  note code = f64_mulAdd_def softfloat_mulAddF64_def Let_def f64_fields magbits64_eq_0 [unfolded expF64UI_eq] fracF64_eq_0 i
    s_def [symmetric] packToF64UI_inf p n
  have op: "(P \<noteq> ((0 :: u8) = softfloat_mulAdd_subC)) = P" "(P \<noteq> ((0 :: u8) = softfloat_mulAdd_subProd)) = P" for P by simp_all
  consider "?eA = 0x7FF" | "?eA \<noteq> 0x7FF" "?eB = 0x7FF" | "?eA \<noteq> 0x7FF" "?eB \<noteq> 0x7FF" "?eC = 0x7FF"
    using assms(1) unfolding f64_classes by blast
  then show ?thesis
  proof cases
    case 1
    then show ?thesis unfolding f64_classes op code using nz [of a] by auto
  next
    case 2
    then show ?thesis unfolding f64_classes op code using nz [of b] by auto
  next
    case 3
    then show ?thesis unfolding f64_classes op code by auto
  qed
qed

lemma softfloat_mulAddF64_zeroProd:
  assumes fin: "f64_finite a" "f64_finite b" "f64_finite c" and z: "f64_mag a = 0 \<or> f64_mag b = 0" and c: "f64_mag c \<noteq> 0"
  shows "softfloat_mulAddF64 a b c op st = (c, st)"
proof -
  let ?uA = a and ?uB = b and ?uC = c
  have k: "(expF64UI ?uA = 0x7FF) = False" "(expF64UI ?uB = 0x7FF) = False" "(expF64UI ?uC = 0x7FF) = False"
    using fin by (simp_all only: f64_fields f64_finite_exp) simp_all
  have zero: "expF64UI d = 0 \<and> fracF64UI d = 0 \<longleftrightarrow> f64_mag d = 0" for d
    unfolding f64_fields fracF64_eq_0 using div_mult_mod_eq [of "f64_mag d" "2 ^ 52"] by auto
  have "softfloat_mulAddF64 ?uA ?uB ?uC op st = (?uC, st)"
    unfolding softfloat_mulAddF64_def Let_def k if_False zero magbits64_eq_0
    using z c by (cases "f64_mag a = 0") (simp_all only: simp_thms if_True if_False prod.case_eq_if)
  then show ?thesis by simp
qed

end
