(* ===== verification/SF_FloatConv.thy ===== *)
theory SF_FloatConv
  imports SF_FromInt
begin

text \<open>
  \<open>f32_to_f64\<close> and \<open>f64_to_f32\<close> (\<open>source/f32_to_f64.c\<close>, \<open>f64_to_f32.c\<close>). Widening is exact;
  narrowing rounds the value once, subnormal operands included; a NaN is made quiet and keeps its
  sign and the payload bits that fit; widening followed by narrowing is the identity.
\<close>

subsection \<open>The operations\<close>

definition f32_to_f64 :: "u32 \<Rightarrow> softfloat_state \<Rightarrow> u64 \<times> softfloat_state" where
  "f32_to_f64 a st =
     (let uiA = ucast a; sign = signF32UI uiA; e = expF32UI uiA; frac = fracF32UI uiA
      in if e = 0xFF then
           if frac \<noteq> 0
           then (case softfloat_f32UIToCommonNaN uiA st of (commonNaN, st) \<Rightarrow> (softfloat_commonNaNToF64UI commonNaN, st))
           else (packToF64UI sign 0x7FF 0, st)
         else if e = 0 \<and> frac = 0 then (packToF64UI sign 0 0, st)
         else let (e, frac) = (if e = 0 then (case softfloat_normSubnormalF32Sig frac of (ne, ns) \<Rightarrow> (ne - 1, ns)) else (e, frac))
              in (packToF64UI sign (e + 0x380) (push_bit 29 frac), st))"

definition f64_to_f32 :: "u64 \<Rightarrow> softfloat_state \<Rightarrow> u32 \<times> softfloat_state" where
  "f64_to_f32 a st =
     (let uiA = a; sign = signF64UI uiA; e = expF64UI uiA; frac = fracF64UI uiA
      in if e = 0x7FF then
           if frac \<noteq> 0
           then (case softfloat_f64UIToCommonNaN uiA st of (commonNaN, st) \<Rightarrow> (ucast (softfloat_commonNaNToF32UI commonNaN), st))
           else (ucast (packToF32UI sign 0xFF 0), st)
         else let frac32 = softfloat_shortShiftRightJam64 frac 22
              in if e = 0 \<and> frac32 = 0 then (ucast (packToF32UI sign 0 0), st)
                 else softfloat_roundPackToF32 sign (e - 0x381) (frac32 OR 0x40000000) st)"

subsection \<open>Widening is exact\<close>

theorem f32_to_f64_finite:
  assumes fin: "f32_finite a"
  obtains m where "m < inf_code f64_fmt" "mval f64_fmt m = mval f32_fmt (f32_mag a)"
    "f32_to_f64 a st = (f64_pack (f32_sign a) m, st)"
proof -
  let ?m = "f32_mag a" and ?s = "f32_sign a" and ?f = "fracF32UI (ucast a)"
  have f: "unat ?f = ?m mod 2 ^ 23" and e: "expF32UI (ucast a) = int (?m div 2 ^ 23)" by (simp_all only: f32_fields)
  have e255: "?m div 2 ^ 23 < 255" using fin by (simp add: f32_finite_exp)
  have f0: "?f = 0 \<longleftrightarrow> ?m mod 2 ^ 23 = 0" by (simp only: unat_eq_0 [symmetric] f)
  have pack: "packToF64UI ?s (int d + 0x380) (push_bit 29 w) = f64_pack ?s ((d + 0x380) * 2 ^ 52 + unat w * 2 ^ 29)"
    if "unat w < 2 ^ 24" "d < 255" for d w
  proof -
    have w: "unat (push_bit 29 w) = unat w * 2 ^ 29" using that(1) by (subst unat_push_bit) simp_all
    have n: "nat (int d + 0x380) = d + 0x380" by simp
    have "(d + 0x380) * 2 ^ 52 \<le> (254 + 0x380) * 2 ^ 52" using that(2) by (intro mult_right_mono) simp_all
    then have "(d + 0x380) * 2 ^ 52 + unat w * 2 ^ 29 < 2 ^ 63" using that(1) by simp
    then show ?thesis using packToF64UI_pack [of "int d + 0x380" "push_bit 29 w" ?s] that(2) unfolding w n by simp
  qed
  consider (zero) "?m div 2 ^ 23 = 0" "?m mod 2 ^ 23 = 0" | (sub) "?m div 2 ^ 23 = 0" "?m mod 2 ^ 23 \<noteq> 0" | (norm) "?m div 2 ^ 23 \<noteq> 0" by blast
  then show thesis
  proof cases
    case zero
    then have "f32_to_f64 a st = (f64_pack ?s 0, st)"
      unfolding f32_to_f64_def Let_def e f0 signF32UI_ucast by (simp add: packToF64UI_pack)
    moreover have "?m = 0" using zero div_mult_mod_eq [of ?m "2 ^ 23"] by simp
    ultimately show thesis by (intro that [of 0]) (simp_all add: inf_code_f64)
  next
    case sub
    define n where "n = ?m mod 2 ^ 23"
    have n: "0 < n" "n < 2 ^ 23" using sub(2) by (simp_all add: n_def)
    obtain k where k: "softfloat_normSubnormalF32Sig ?f = (1 - int k, push_bit k ?f)"
      "unat (push_bit k ?f) = n * 2 ^ k" "2 ^ 23 \<le> n * 2 ^ k" "n * 2 ^ k < 2 ^ 24"
      using normSubnormalF32_shift [of ?f] n unfolding f n_def by metis
    have "2 ^ k \<le> n * 2 ^ k" using n(1) by simp
    then have "(2 :: nat) ^ k < 2 ^ 24" using k(4) by (rule le_less_trans)
    then have kP: "k < 24" by (rule power_less_imp_less_exp [rotated]) simp
    have w: "unat (push_bit 29 (push_bit k ?f)) = n * 2 ^ k * 2 ^ 29" using k by (subst unat_push_bit) simp_all
    define d where "d = 0x380 - k"
    have d: "1 - int k - 1 + 0x380 = int d" "d \<le> 0x380" using kP by (simp_all add: d_def of_nat_diff)
    have "d * 2 ^ 52 \<le> 0x380 * 2 ^ 52" using d(2) by (intro mult_right_mono) simp_all
    then have lt: "d * 2 ^ 52 + n * 2 ^ k * 2 ^ 29 < inf_code f64_fmt" using k(4) by (simp add: inf_code_f64)
    have "f32_to_f64 a st = (packToF64UI ?s (int d) (push_bit 29 (push_bit k ?f)), st)"
      unfolding f32_to_f64_def Let_def e f0 signF32UI_ucast k(1) using sub d(1) by simp
    also have "packToF64UI ?s (int d) (push_bit 29 (push_bit k ?f)) = f64_pack ?s (d * 2 ^ 52 + n * 2 ^ k * 2 ^ 29)"
      using packToF64UI_pack [of "int d" "push_bit 29 (push_bit k ?f)" ?s] lt d(2) unfolding w nat_int by (simp add: inf_code_f64)
    finally have code: "f32_to_f64 a st = (f64_pack ?s (d * 2 ^ 52 + n * 2 ^ k * 2 ^ 29), st)" .
    have "mval f64_fmt (d * 2 ^ 52 + n * 2 ^ k * 2 ^ 29) = real (n * 2 ^ k * 2 ^ 29) * pow2 (int d - 1074)"
      using f64.mval_code [of "n * 2 ^ k * 2 ^ 29" d] k(3,4) by (simp add: ulp_exp_f64)
    also have "\<dots> = real n * (2 ^ (k + 29) * pow2 (int d - 1074))" by (simp add: power_add)
    also have "2 ^ (k + 29) * pow2 (int d - 1074) = pow2 (- 149)"
      using pow2_shift [of "- 149" "k + 29"] kP by (simp add: d_def of_nat_diff algebra_simps)
    also have "real n * pow2 (- 149) = mval f32_fmt ?m"
      using sub by (simp add: mval_def Let_def ulp_exp_f32 n_def)
    finally show thesis by (intro that [OF lt _ code])
  next
    case norm
    define E where "E = ?m div 2 ^ 23 - 1"
    define n where "n = ?m mod 2 ^ 23"
    have E: "?m div 2 ^ 23 = Suc E" "E < 254" using norm e255 by (simp_all add: E_def)
    have n: "n < 2 ^ 23" by (simp add: n_def)
    have "f32_to_f64 a st = (packToF64UI ?s (int (Suc E) + 0x380) (push_bit 29 ?f), st)"
      unfolding f32_to_f64_def Let_def e f0 signF32UI_ucast E(1) using E(2) by simp
    also have "packToF64UI ?s (int (Suc E) + 0x380) (push_bit 29 ?f) = f64_pack ?s ((Suc E + 0x380) * 2 ^ 52 + n * 2 ^ 29)"
      using pack [of ?f "Suc E"] E(2) n unfolding f n_def by simp
    also have "(Suc E + 0x380) * 2 ^ 52 + n * 2 ^ 29 = (E + 0x380) * 2 ^ 52 + (2 ^ 23 + n) * 2 ^ 29" by simp
    finally have code: "f32_to_f64 a st = (f64_pack ?s ((E + 0x380) * 2 ^ 52 + (2 ^ 23 + n) * 2 ^ 29), st)" .
    have lt: "(E + 0x380) * 2 ^ 52 + (2 ^ 23 + n) * 2 ^ 29 < inf_code f64_fmt" using E(2) n by (simp add: inf_code_f64)
    have "mval f64_fmt ((E + 0x380) * 2 ^ 52 + (2 ^ 23 + n) * 2 ^ 29) = real ((2 ^ 23 + n) * 2 ^ 29) * pow2 (int (E + 0x380) - 1074)"
      using f64.mval_code [of "(2 ^ 23 + n) * 2 ^ 29" "E + 0x380"] n by (simp add: ulp_exp_f64)
    also have "\<dots> = real (2 ^ 23 + n) * (2 ^ 29 * pow2 (int (E + 0x380) - 1074))" by (simp add: power_add)
    also have "2 ^ 29 * pow2 (int (E + 0x380) - 1074) = pow2 (int E - 149)"
      using pow2_shift [of "int E - 149" "29"] by (simp add: algebra_simps)
    also have "real (2 ^ 23 + n) * pow2 (int E - 149) = mval f32_fmt ?m"
      unfolding mval_def Let_def ulp_exp_f32 fmt_sizes n_def E(1) by simp
    finally show thesis by (intro that [OF lt _ code])
  qed
qed

subsection \<open>Narrowing rounds once\<close>

context float_format
begin

lemma round_mag_below_ulp:
  assumes "0 < x" "x < mval fmt 1"
  shows "round_mag fmt rm s x = of_bool (rnd_up rm s False (x / mval fmt 1))"
proof -
  have one: "mval fmt 1 = pow2 (ulp_exp fmt 0)" using mval_code [of 1 0] by simp
  define y where "y = x / mval fmt 1"
  have y: "0 < y" "y < 1" "x = y * pow2 (ulp_exp fmt 0)" using assms one [symmetric] unfolding y_def by simp_all
  have "y < 2 * 2 ^ F" using y(2) one_le_power [of "2 :: real" F] by linarith
  then have "round_mag fmt rm s x = nat (rint rm s y)" using round_mag_scaled [of y 0 rm s] y by simp
  moreover have "\<lfloor>y\<rfloor> = 0" using y by (simp add: floor_eq_iff)
  then have "rint rm s y = of_bool (rnd_up rm s False y)" by (simp add: rint_def frac_def)
  ultimately show ?thesis by (simp add: y_def)
qed

lemma ieee_round_tiny:
  assumes "0 < x" "2 * x < mval fmt 1"
  shows "ieee_round fmt rm before s x = (of_bool (rnd_up rm s False (1 / 4)), Flags True True False)"
proof -
  define y where "y = x / mval fmt 1"
  have one: "0 < mval fmt 1" using mval_less_iff [of 0 1] by simp
  have y: "0 < y" "2 * y < 1" using assms one by (simp_all add: y_def)
  then have up: "rnd_up rm s False y = rnd_up rm s False (1 / 4)" by (cases rm) auto
  have rm: "round_mag fmt rm s x = of_bool (rnd_up rm s False (1 / 4))"
    using round_mag_below_ulp [of x rm s] assms up by (simp add: y_def)
  have "x < mval fmt 1" using assms by simp
  then have ne: "mval fmt (of_bool b) \<noteq> x" for b using assms(1) by (cases b) auto
  have "round_mag fmt rm s (2 * x) \<le> 1" using round_mag_below_ulp [of "2 * x" rm s] assms by simp
  moreover have "mval fmt 1 \<le> mval fmt (2 ^ F)" by simp
  moreover have "1 < (2 :: nat) * 2 ^ F" using one_le_power [of "2 :: nat" F] by linarith
  ultimately have tiny: "is_tiny fmt rm before s x" using \<open>x < mval fmt 1\<close> unfolding is_tiny_def by linarith
  have "1 < inf_code fmt" using three_pow_le_inf_code one_le_power [of "2 :: nat" F] by linarith
  then have inf: "\<not> inf_code fmt \<le> of_bool b" for b by (cases b) simp_all
  show ?thesis unfolding ieee_round_def rm Let_def if_not_P [OF inf] using tiny ne by (simp only: simp_thms)
qed

end

lemma f32_round_tiny:
  assumes "0 < x" "2 * x < pow2 (- 149)" "0 < x'" "2 * x' < pow2 (- 149)"
  shows "f32_round s x st = f32_round s x' st"
proof -
  have "mval f32_fmt 1 = pow2 (- 149)" using f32.mval_code [of 1 0] by (simp add: ulp_exp_f32)
  then show ?thesis using assms by (simp add: f32_round_def f32.ieee_round_tiny)
qed

lemma f64_to_f32_sig:
  assumes "unat f < 2 ^ 52"
  shows "int (unat (softfloat_shortShiftRightJam64 f 22 OR 0x40000000)) = rodd (real (2 ^ 52 + unat f) / 2 ^ 22)"
    and "softfloat_shortShiftRightJam64 f 22 = 0 \<longleftrightarrow> f = 0"
proof -
  let ?z = "softfloat_shortShiftRightJam64 f 22" and ?y = "real (unat f) / 2 ^ 22"
  have z: "int (unat ?z) = rodd ?y" using softfloat_shortShiftRightJam64_rodd [of 22 f] by simp
  have "real (unat f) < real (2 ^ 52)" using assms by (simp only: of_nat_less_iff)
  then have "?y < of_int (2 ^ 30)" by simp
  then have "rodd ?y < 2 ^ 30" by (rule rodd_less_even) simp
  then have "unat ?z < 2 ^ 30" using z by simp
  then have "unat (?z OR 2 ^ 30) = unat ?z + 2 ^ 30" by (intro unat_or_exp) simp_all
  then have "int (unat (?z OR 0x40000000)) = 2 ^ 30 + rodd ?y" using z by simp
  also have "\<dots> = rodd (of_int (2 ^ 30) + ?y)" by (rule rodd_add_even [symmetric]) simp
  also have "of_int (2 ^ 30) + ?y = real (2 ^ 52 + unat f) / 2 ^ 22" by (simp add: add_divide_distrib)
  finally show "int (unat (?z OR 0x40000000)) = rodd (real (2 ^ 52 + unat f) / 2 ^ 22)" .
  have "unat f = 0" if "rodd ?y = 0"
  proof (rule ccontr)
    assume "unat f \<noteq> 0"
    then have y: "0 < ?y" by simp
    have "?y \<in> \<int>" using that odd_rodd [of ?y] by fastforce
    then have "of_int (rodd ?y) = ?y" by (rule rodd_Ints)
    with that y show False by simp
  qed
  moreover have "rodd ?y = 0" if "unat f = 0" using that rodd_of_int [of 0] by simp
  ultimately show "?z = 0 \<longleftrightarrow> f = 0" using z by (metis of_nat_0 of_nat_eq_0_iff unat_eq_0)
qed

theorem f64_to_f32_finite:
  assumes fin: "f64_finite a"
  shows "f64_to_f32 a st = f32_round (f64_sign a) (mval f64_fmt (f64_mag a)) st"
proof -
  let ?m = "f64_mag a" and ?s = "f64_sign a" and ?f = "fracF64UI a"
  define n E where "n = ?m mod 2 ^ 52" and "E = ?m div 2 ^ 52"
  have f: "unat ?f = n" and e: "expF64UI a = int E" by (simp_all only: f64_fields n_def E_def)
  have n: "n < 2 ^ 52" by (simp add: n_def)
  have E: "E < 0x7FF" using fin by (simp add: f64_finite_exp E_def)
  note sig = f64_to_f32_sig [of ?f, unfolded f, OF n]
  let ?w = "softfloat_shortShiftRightJam64 ?f 22 OR 0x40000000" and ?r = "real (2 ^ 52 + n) / 2 ^ 22"
  have n0: "?f = 0 \<longleftrightarrow> n = 0" by (simp only: unat_eq_0 [symmetric] f)
  have code: "f64_to_f32 a st = (if E = 0 \<and> n = 0 then (f32_pack ?s 0, st) else softfloat_roundPackToF32 ?s (int E - 0x381) ?w st)"
    unfolding f64_to_f32_def Let_def e sig(2) n0 signF64UI_eq using E by (simp add: packToF32UI_pack)
  have "real (unat ?w) = of_int (rodd ?r)" using sig(1) by (metis of_int_of_nat_eq)
  then have ag: "agree (7 - 1) (real (unat ?w)) ?r" by (simp only:) (rule agree_rodd, simp)
  have "real (2 ^ 52 + n) < real (2 * 2 ^ 52)" using n by (simp only: of_nat_less_iff)
  then have r: "2 ^ 30 \<le> ?r" "?r < 2 ^ 31" by (simp_all add: pos_le_divide_eq pos_divide_less_eq)
  have rp: "softfloat_roundPackToF32 ?s (int E - 0x381) ?w st = f32_round ?s (?r * pow2 (int E - 0x381 - 156)) st"
    using r ag E by (intro softfloat_roundPackToF32_round) simp_all
  consider (zero) "E = 0" "n = 0" | (sub) "E = 0" "n \<noteq> 0" | (norm) "E \<noteq> 0" by blast
  then show ?thesis
  proof cases
    case zero
    then have "?m = 0" using div_mult_mod_eq [of ?m "2 ^ 52"] by (simp add: n_def E_def)
    then show ?thesis using zero code by (simp add: f32_round_0)
  next
    case sub
    have m: "mval f64_fmt ?m = real n * pow2 (- 1074)" using sub by (simp add: mval_def Let_def ulp_exp_f64 n_def E_def)
    have "real n < 2 ^ 52" using n by (metis of_nat_less_iff of_nat_numeral of_nat_power)
    then have "2 * mval f64_fmt ?m < 2 * (2 ^ 52 * pow2 (- 1074))" unfolding m by simp
    also have "\<dots> < pow2 (- 149)" using pow2_add [of 53 "- 1074"] pow2_less_iff [of "53 - 1074" "- 149"] by simp
    finally have x: "2 * mval f64_fmt ?m < pow2 (- 149)" .
    have "2 * (?r * pow2 (- 1053)) < 2 * (2 ^ 31 * pow2 (- 1053))" using r(2) by simp
    also have "\<dots> < pow2 (- 149)" using pow2_add [of 32 "- 1053"] pow2_less_iff [of "32 - 1053" "- 149"] by simp
    finally have x': "2 * (?r * pow2 (- 1053)) < pow2 (- 149)" .
    have "0 < ?r" by (simp add: add_pos_nonneg)
    then have "0 < ?r * pow2 (- 1053)" by simp
    then have "f32_round ?s (?r * pow2 (- 1053)) st = f32_round ?s (mval f64_fmt ?m) st"
      by (rule f32_round_tiny [OF _ x' _ x]) (use sub m in simp)
    then show ?thesis using code rp sub by simp
  next
    case norm
    have "int (E - 1) - 1074 = int E - 1075" using norm by linarith
    then have "mval f64_fmt ?m = real (2 ^ 52 + n) * pow2 (int E - 1075)"
      using norm by (simp add: mval_def Let_def ulp_exp_f64 n_def E_def)
    also have "\<dots> = ?r * pow2 (int E - 0x381 - 156)" using pow2_shift [of "int E - 1053" 22] by simp
    finally have "mval f64_fmt ?m = ?r * pow2 (int E - 0x381 - 156)" .
    then show ?thesis using code rp norm by (simp only: simp_thms if_False)
  qed
qed

subsection \<open>NaNs and infinities\<close>

lemma unat_mask_or:
  fixes v C :: u64
  assumes C: "C = push_bit k (mask j)" and v: "unat v < 2 ^ (k + j)" and nov: "unat C + 2 ^ k \<le> 2 ^ 64"
  shows "unat (C OR v) = unat C + unat v mod 2 ^ k"
proof -
  have "drop_bit (k + j) v = 0" unfolding unat_eq_0 [symmetric] unat_drop_bit using v by simp
  then have hi: "\<not> bit v i" if "k + j \<le> i" for i
    using that bit_drop_bit_eq [of "k + j" v] by (auto simp: fun_eq_iff dest: spec [of _ "i - (k + j)"])
  have "C OR v = C OR (v AND mask k)"
  proof (rule bit_eqI)
    fix i
    show "bit (C OR v) i \<longleftrightarrow> bit (C OR (v AND mask k)) i"
      unfolding C using hi [of i] bit_imp_le_length [of v i] by (cases "k + j \<le> i") (auto simp: bit_simps)
  qed
  also have "\<dots> = C + (v AND mask k)" unfolding C by (rule disjunctive_add [symmetric]) (auto simp: bit_simps)
  finally have "unat (C OR v) = unat (C + (v AND mask k))" by (rule arg_cong)
  also have "\<dots> = unat C + unat v mod 2 ^ k"
    by (subst unat_plus) (use nov mod_less_divisor [of "2 ^ k" "unat v"] in \<open>simp_all add: unat_and_mask less_le_trans [of _ "unat C + 2 ^ k"]\<close>)
  finally show ?thesis .
qed

text \<open>
  A NaN keeps its sign and the payload bits that fit, and is made quiet; only a signalling NaN
  raises invalid.
\<close>

theorem f32_to_f64_nan:
  assumes "f32_isnan a"
  shows "f32_to_f64 a st =
         (f64_pack (f32_sign a) (0xFFF * 2 ^ 51 + f32_mag a mod 2 ^ 22 * 2 ^ 29),
          if f32_issnan a then softfloat_raiseFlags softfloat_flag_invalid st else st)"
proof -
  let ?v = "drop_bit 12 (push_bit 41 (ucast a)) :: u64"
  have "?v = push_bit 29 (ucast a AND mask 23)" by (rule bit_eqI) (auto simp: bit_simps)
  moreover have "unat (push_bit 29 (ucast a AND mask 23 :: u64)) = unat a mod 2 ^ 23 * 2 ^ 29"
    using mod_less_divisor [of "2 ^ 23" "unat a"] by (subst unat_push_bit) (simp_all add: unat_and_mask unat_ucast32)
  ultimately have v: "unat ?v = unat a mod 2 ^ 23 * 2 ^ 29" by simp
  have C: "(0x7FF8000000000000 :: u64) = push_bit 51 (mask 12)" by (simp add: mask_eq_exp_minus_1)
  have "unat (0x7FF8000000000000 OR ?v) = 0xFFF * 2 ^ 51 + unat ?v mod 2 ^ 51"
    using unat_mask_or [OF C, of ?v] mod_less_divisor [of "2 ^ 23" "unat a"] unfolding v by simp
  also have "unat ?v mod 2 ^ 51 = unat a mod 2 ^ 23 mod 2 ^ 22 * 2 ^ 29"
    unfolding v using mod_mult_mult2 [of "unat a mod 2 ^ 23" "2 ^ 29" "2 ^ 22"] by simp
  also have "unat a mod 2 ^ 23 mod 2 ^ 22 = f32_mag a mod 2 ^ 22" by (simp add: f32_mag_def mod_mod_cancel)
  finally have w: "unat (0x7FF8000000000000 OR ?v) = 0xFFF * 2 ^ 51 + f32_mag a mod 2 ^ 22 * 2 ^ 29" .
  have lt: "0xFFF * 2 ^ 51 + f32_mag a mod 2 ^ 22 * 2 ^ 29 < 2 ^ 63"
    using mod_less_divisor [of "2 ^ 22" "f32_mag a"] by simp
  then have "unat ((0x7FF8000000000000 OR ?v) OR 2 ^ 63) = unat (0x7FF8000000000000 OR ?v) + 2 ^ 63"
    by (intro unat_or_exp) (simp_all add: w)
  then have "push_bit 63 (of_bool s) OR 0x7FF8000000000000 OR ?v = f64_pack s (0xFFF * 2 ^ 51 + f32_mag a mod 2 ^ 22 * 2 ^ 29)" for s
    using w lt by (cases s) (simp_all add: word_unat_eq_iff unat_f64_pack or.commute or.left_commute)
  moreover have "expF32UI (ucast a) = 0xFF" "fracF32UI (ucast a) \<noteq> 0"
    using assms unfolding f32_classes by (simp_all only: f32_fields unat_eq_0 [symmetric]) simp
  moreover have "drop_bit 31 (ucast a :: u64) \<noteq> 0 \<longleftrightarrow> f32_sign a" by (simp only: drop_bit_neq_0 unat_ucast32 f32_sign_def)
  ultimately show ?thesis
    by (simp add: f32_to_f64_def Let_def softfloat_f32UIToCommonNaN_def softfloat_commonNaNToF64UI_def softfloat_isSigNaNF32UI_issnan)
qed

theorem f64_to_f32_nan:
  assumes "f64_isnan a"
  shows "f64_to_f32 a st =
         (f32_pack (f64_sign a) (0x1FF * 2 ^ 22 + f64_mag a mod 2 ^ 51 div 2 ^ 29),
          if f64_issnan a then softfloat_raiseFlags softfloat_flag_invalid st else st)"
proof -
  let ?v = "drop_bit 41 (push_bit 12 a) :: u64"
  have "?v = drop_bit 29 (a AND mask 52)" by (rule bit_eqI) (auto simp: bit_simps)
  then have v: "unat ?v = unat a mod 2 ^ 52 div 2 ^ 29" by (simp only: unat_drop_bit unat_and_mask)
  have C: "(0x7FC00000 :: u64) = push_bit 22 (mask 9)" by (simp add: mask_eq_exp_minus_1)
  have "unat ?v < 2 ^ 23" unfolding v by (simp add: less_mult_imp_div_less)
  then have "unat (0x7FC00000 OR ?v) = 0x1FF * 2 ^ 22 + unat ?v mod 2 ^ 22"
    using unat_mask_or [OF C, of ?v] by simp
  also have "unat ?v mod 2 ^ 22 = unat a mod 2 ^ 52 mod 2 ^ 51 div 2 ^ 29"
    unfolding v div_mod_pow2 by simp
  also have "unat a mod 2 ^ 52 mod 2 ^ 51 = f64_mag a mod 2 ^ 51" by (simp add: f64_mag_def mod_mod_cancel)
  finally have w: "unat (0x7FC00000 OR ?v) = 0x1FF * 2 ^ 22 + f64_mag a mod 2 ^ 51 div 2 ^ 29" .
  have "f64_mag a mod 2 ^ 51 div 2 ^ 29 < 2 ^ 22" by (simp add: less_mult_imp_div_less)
  then have lt: "0x1FF * 2 ^ 22 + f64_mag a mod 2 ^ 51 div 2 ^ 29 < 2 ^ 31" by simp
  then have "unat ((0x7FC00000 OR ?v) OR 2 ^ 31) = unat (0x7FC00000 OR ?v) + 2 ^ 31"
    by (intro unat_or_exp) (simp_all add: w)
  then have "unat (push_bit 31 (of_bool s) OR 0x7FC00000 OR ?v) = of_bool s * 2 ^ 31 + (0x1FF * 2 ^ 22 + f64_mag a mod 2 ^ 51 div 2 ^ 29)" for s
    using w by (cases s) (simp_all add: or.commute or.left_commute)
  then have "ucast (push_bit 31 (of_bool s) OR 0x7FC00000 OR ?v) = f32_pack s (0x1FF * 2 ^ 22 + f64_mag a mod 2 ^ 51 div 2 ^ 29)" for s
    using lt by (cases s) (simp_all only: word_unat_eq_iff unat_f32_pack unat_ucast_down32, simp_all)
  moreover have "expF64UI a = 0x7FF" "fracF64UI a \<noteq> 0"
    using assms unfolding f64_classes by (simp_all only: f64_fields unat_eq_0 [symmetric]) simp
  moreover have "drop_bit 63 a \<noteq> 0 \<longleftrightarrow> f64_sign a" by (simp only: drop_bit_neq_0 f64_sign_def)
  ultimately show ?thesis
    by (simp add: f64_to_f32_def Let_def softfloat_f64UIToCommonNaN_def softfloat_commonNaNToF32UI_def softfloat_isSigNaNF64UI_issnan)
qed

theorem float_conv_inf:
  shows "f32_isinf a \<Longrightarrow> f32_to_f64 a st = (f64_pack (f32_sign a) (inf_code f64_fmt), st)"
    and "f64_isinf b \<Longrightarrow> f64_to_f32 b st = (f32_pack (f64_sign b) (inf_code f32_fmt), st)"
proof -
  assume "f32_isinf a"
  then have "expF32UI (ucast a) = 0xFF" "fracF32UI (ucast a) = 0"
    unfolding f32_classes by (simp_all add: f32_fields unat_eq_0 [symmetric])
  then show "f32_to_f64 a st = (f64_pack (f32_sign a) (inf_code f64_fmt), st)"
    by (simp add: f32_to_f64_def signF32UI_ucast packToF64UI_pack inf_code_f64)
next
  assume "f64_isinf b"
  then have "expF64UI b = 0x7FF" "fracF64UI b = 0"
    unfolding f64_classes by (simp_all add: f64_fields unat_eq_0 [symmetric])
  then show "f64_to_f32 b st = (f32_pack (f64_sign b) (inf_code f32_fmt), st)"
    by (simp add: f64_to_f32_def signF64UI_eq packToF32UI_inf)
qed

text \<open>Widening and then narrowing gives the number back, without an exception.\<close>

theorem f32_f64_roundtrip:
  assumes "f32_finite a"
  shows "(case f32_to_f64 a st of (b, st) \<Rightarrow> f64_to_f32 b st) = (a, st)"
proof -
  obtain m where m: "m < inf_code f64_fmt" "mval f64_fmt m = mval f32_fmt (f32_mag a)"
    and w: "f32_to_f64 a st = (f64_pack (f32_sign a) m, st)" by (rule f32_to_f64_finite [OF assms])
  have lt: "m < 2 ^ 63" using m(1) by (simp add: inf_code_f64)
  have "f64_finite (f64_pack (f32_sign a) m)" using m(1) by (simp add: f64_finite_def f64_pack_fields [OF lt])
  then have "f64_to_f32 (f64_pack (f32_sign a) m) st = f32_round (f32_sign a) (mval f32_fmt (f32_mag a)) st"
    using m(2) by (simp add: f64_to_f32_finite f64_pack_fields [OF lt])
  also have "\<dots> = (a, st)" using assms by (simp add: f32_round_exact f32_finite_def)
  finally show ?thesis by (simp add: w)
qed

end
