(* ===== verification/SF_Env.thy ===== *)
theory SF_Env
  imports SF_Mul SF_Div SF_MulAdd SF_Compare SF_Trunc SF_RoundToInt SF_FloatConv
begin

text \<open>
  How the operations use the state they share: every one of them is sticky. Its result depends on
  the rounding mode and the tininess detection only, it leaves these alone, and it adds its
  exceptions to the flags.
\<close>

subsection \<open>Sticky operations\<close>

text \<open>
  An operation on the shared state is sticky when its result depends on the modes only, it
  leaves the modes alone and it adds its exceptions, which depend on the modes only too, to the
  flags.
\<close>

definition clear_flags :: "softfloat_state \<Rightarrow> softfloat_state" where
  "clear_flags st = st\<lparr>softfloat_exceptionFlags := 0\<rparr>"

definition sticky :: "(softfloat_state \<Rightarrow> 'r \<times> softfloat_state) \<Rightarrow> bool" where
  "sticky f \<longleftrightarrow>
     (\<forall>st. f st = (fst (f (clear_flags st)), softfloat_raiseFlags (softfloat_exceptionFlags (snd (f (clear_flags st)))) st))"

named_theorems sticky_intros

lemma clear_flags_simps [simp]:
  "softfloat_roundingMode (clear_flags st) = softfloat_roundingMode st"
  "softfloat_detectTininess (clear_flags st) = softfloat_detectTininess st"
  "softfloat_exceptionFlags (clear_flags st) = 0"
  "clear_flags (clear_flags st) = clear_flags st"
  "clear_flags (softfloat_raiseFlags w st) = clear_flags st"
  by (simp_all add: clear_flags_def softfloat_raiseFlags_def)

lemma stickyI:
  assumes "\<And>st. f st = (R (clear_flags st), softfloat_raiseFlags (E (clear_flags st)) st)"
  shows "sticky f"
  unfolding sticky_def by (subst (1 2 3) assms) simp

lemma sticky_pure [sticky_intros]: "sticky (\<lambda>st. (r, st))"
  by (rule stickyI [where R = "\<lambda>_. r" and E = "\<lambda>_. 0"]) simp

lemma sticky_raise [sticky_intros]: "sticky (\<lambda>st. (r, softfloat_raiseFlags w st))"
  by (rule stickyI [where R = "\<lambda>_. r" and E = "\<lambda>_. w"]) simp

lemma sticky_if [sticky_intros]: "(b \<Longrightarrow> sticky f) \<Longrightarrow> (\<not> b \<Longrightarrow> sticky g) \<Longrightarrow> sticky (\<lambda>st. if b then f st else g st)"
  by (cases b) simp_all

lemma sticky_if_state [sticky_intros]: "sticky (\<lambda>st. (r, if b then softfloat_raiseFlags w st else st))"
  by (cases b) (simp_all add: sticky_intros)

lemma sticky_if_state' [sticky_intros]: "sticky (\<lambda>st. (r, if b then st else softfloat_raiseFlags w st))"
  by (cases b) (simp_all add: sticky_intros)

lemma sticky_inexact [sticky_intros]: "sticky (\<lambda>st. (r, raise_inexact b st))"
proof (cases b)
  case True
  then have "raise_inexact b st = softfloat_raiseFlags softfloat_flag_inexact st" for st
    by (simp add: raise_inexact_def softfloat_raiseFlags_def)
  then show ?thesis by (simp add: sticky_raise)
qed (simp add: raise_inexact_def sticky_pure)

lemma stickyD:
  assumes "sticky f"
  shows "softfloat_roundingMode (snd (f st)) = softfloat_roundingMode st"
    and "softfloat_detectTininess (snd (f st)) = softfloat_detectTininess st"
    and "softfloat_exceptionFlags (snd (f st)) =
         softfloat_exceptionFlags st OR softfloat_exceptionFlags (snd (f (clear_flags st)))"
    and "fst (f st) = fst (f (clear_flags st))"
    and "clear_flags (snd (f st)) = clear_flags st"
  using assms unfolding sticky_def by (metis fst_conv snd_conv raiseFlags_modes clear_flags_simps(5))+

lemma sticky_bind [sticky_intros]:
  assumes f: "sticky f" and g: "\<And>r. sticky (g r)"
  shows "sticky (\<lambda>st. case f st of (r, st) \<Rightarrow> g r st)"
proof (rule stickyI)
  fix st
  let ?c = "clear_flags st"
  let ?f = "fst (f ?c)" and ?w = "softfloat_exceptionFlags (snd (f ?c))"
  have "f st = (?f, softfloat_raiseFlags ?w st)" using f unfolding sticky_def by blast
  moreover have "g ?f (softfloat_raiseFlags ?w st) =
        (fst (g ?f ?c), softfloat_raiseFlags (softfloat_exceptionFlags (snd (g ?f ?c))) (softfloat_raiseFlags ?w st))"
    using g [of ?f] unfolding sticky_def by (metis clear_flags_simps(5))
  ultimately show "(case f st of (r, st) \<Rightarrow> g r st) =
        (fst (g ?f ?c), softfloat_raiseFlags (?w OR softfloat_exceptionFlags (snd (g ?f ?c))) st)" by simp
qed

lemma sticky_raise_first [sticky_intros]: "sticky f \<Longrightarrow> sticky (\<lambda>st. f (softfloat_raiseFlags w st))"
  using sticky_bind [OF sticky_raise [of "()" w], of "\<lambda>_. f"] by simp

lemma sticky_apfst: "sticky (\<lambda>st. apfst h (f st)) \<Longrightarrow> inj h \<Longrightarrow> sticky f"
  unfolding sticky_def by (metis (no_types, lifting) apfst_conv fst_apfst injD prod.collapse snd_apfst)

lemma sticky_f32_round [sticky_intros]: "sticky (\<lambda>st. f32_round s x st)"
  by (rule stickyI [where R = "\<lambda>st. fst (f32_round s x st)"
        and E = "\<lambda>st. flag_bits (snd (ieee_round f32_fmt (st_rmode st) (st_before st) s x))"])
    (simp add: f32_round_def split: prod.split)

lemma sticky_f32_round_mode:
  assumes "\<And>st. z (clear_flags st) = z st"
  shows "sticky (\<lambda>st. f32_round_signed (z st) x st)"
  by (rule stickyI [where R = "\<lambda>st. fst (f32_round_signed (z st) x st)"
        and E = "\<lambda>st. flag_bits (snd (ieee_round f32_fmt (st_rmode st) (st_before st) (if x = 0 then z st else x < 0) \<bar>x\<bar>))"])
    (simp add: f32_round_signed_def f32_round_def assms split: prod.split)

lemma sticky_f32_round_signed [sticky_intros]: "sticky (\<lambda>st. f32_round_signed s x st)"
  by (rule sticky_f32_round_mode) simp

lemma sticky_f32_nan_result [sticky_intros]: "sticky (\<lambda>st. f32_nan_result a b st)"
  unfolding f32_nan_result_def by (rule sticky_if_state)

lemma sticky_f32_add_sub: "sticky (f32_add a b)" "sticky (f32_sub a b)"
proof -
  have "sticky (f32_add a b) \<and> sticky (f32_sub a b)"
  proof (cases "f32_finite a \<and> f32_finite b")
    case True
    then have fin: "f32_finite a" "f32_finite b" by simp_all
    show ?thesis unfolding f32_add_finite [OF fin, abs_def] f32_sub_finite [OF fin, abs_def]
      by (intro conjI sticky_f32_round_mode) simp_all
  next
    case False
    show ?thesis unfolding f32_add_special [OF False, abs_def] f32_sub_special [OF False, abs_def]
      by (intro conjI sticky_intros)
  qed
  then show "sticky (f32_add a b)" "sticky (f32_sub a b)" by simp_all
qed

lemma sticky_f32_mul: "sticky (f32_mul a b)"
proof (cases "f32_finite a \<and> f32_finite b")
  case True
  then have fin: "f32_finite a" "f32_finite b" by simp_all
  show ?thesis unfolding f32_mul_finite [OF fin, abs_def] by (rule sticky_f32_round_signed)
next
  case False
  show ?thesis unfolding f32_mul_special [OF False, abs_def] by (intro sticky_intros)
qed

lemma sticky_f32_div: "sticky (f32_div a b)"
proof (cases "f32_finite a \<and> f32_finite b \<and> f32_mag b \<noteq> 0")
  case True
  then have "f32_div a b = (\<lambda>st. f32_round_signed (f32_sign a \<noteq> f32_sign b) (f32_val a / f32_val b) st)"
    by (intro ext f32_div_finite) simp_all
  then show ?thesis by (simp add: sticky_f32_round_signed)
next
  case False
  show ?thesis unfolding f32_div_special [OF False, abs_def] by (intro sticky_intros)
qed

lemma sticky_f32_mulAdd: "sticky (f32_mulAdd a b c)"
proof (cases "f32_finite a \<and> f32_finite b \<and> f32_finite c")
  case True
  then have fin: "f32_finite a" "f32_finite b" "f32_finite c" by simp_all
  show ?thesis unfolding f32_mulAdd_finite [OF fin, abs_def] by (intro sticky_f32_round_mode) simp
next
  case False
  show ?thesis unfolding f32_mulAdd_special [OF False, abs_def] by (intro sticky_intros)
qed

lemma sticky_f32_compare:
  "sticky (f32_eq a b)" "sticky (f32_lt a b)" "sticky (f32_le a b)"
  "sticky (f32_eq_signaling a b)" "sticky (f32_lt_quiet a b)" "sticky (f32_le_quiet a b)"
proof -
  have u: "sticky (\<lambda>st. (r, f32_unordered q a b st))" for q and r :: bool
    unfolding f32_unordered_def by (cases "f32_isnan a \<or> f32_isnan b") (simp_all add: sticky_intros)
  show "sticky (f32_eq a b)" "sticky (f32_lt a b)" "sticky (f32_le a b)"
    "sticky (f32_eq_signaling a b)" "sticky (f32_lt_quiet a b)" "sticky (f32_le_quiet a b)"
    unfolding f32_eq_val [abs_def] f32_lt_val [abs_def] f32_le_val [abs_def] by (rule u)+
qed

lemma sticky_f32_from_int:
  "sticky (i32_to_f32 c)" "sticky (ui32_to_f32 c)" "sticky (i64_to_f32 d)" "sticky (ui64_to_f32 d)"
  unfolding i32_to_f32_round [abs_def] ui32_to_f32_round [abs_def] i64_to_f32_round [abs_def] ui64_to_f32_round [abs_def]
  by (rule sticky_intros)+

lemma sticky_f32_to_int: "sticky (\<lambda>st. f32_to_int lo hi bad rm exact a st)"
  unfolding f32_to_int_def round_to_int_def Let_def by (auto intro!: sticky_intros)

lemma sticky_f32_to_ints:
  "sticky (f32_to_i32 a mode exact)" "sticky (f32_to_i64 a mode exact)"
  "sticky (f32_to_ui32 a mode exact)" "sticky (f32_to_ui64 a mode exact)"
  "sticky (f32_to_i32_r_minMag a exact)" "sticky (f32_to_i64_r_minMag a exact)"
  "sticky (f32_to_ui32_r_minMag a exact)" "sticky (f32_to_ui64_r_minMag a exact)"
proof -
  have inj: "inj (uint :: u64 \<Rightarrow> int)" by (rule injI) (simp add: word_uint_eq_iff)
  note s = sticky_f32_to_int [where a = a and exact = exact]
  show "sticky (f32_to_i32 a mode exact)" "sticky (f32_to_i64 a mode exact)"
    "sticky (f32_to_i32_r_minMag a exact)" "sticky (f32_to_i64_r_minMag a exact)"
    unfolding f32_to_i32_round [abs_def] f32_to_i64_round [abs_def]
      f32_to_i32_r_minMag_round [abs_def] f32_to_i64_r_minMag_round [abs_def] by (rule s)+
  show "sticky (f32_to_ui32 a mode exact)" "sticky (f32_to_ui64 a mode exact)"
    "sticky (f32_to_ui32_r_minMag a exact)" "sticky (f32_to_ui64_r_minMag a exact)"
    by (rule sticky_apfst [OF _ inj]; simp only: f32_to_ui32_round f32_to_ui64_round
        f32_to_ui32_r_minMag_round f32_to_ui64_r_minMag_round; rule s)+
qed

lemma sticky_f32_roundToInt: "sticky (f32_roundToInt a mode exact)"
proof (cases "f32_finite a")
  case True
  have "\<exists>m. f32_roundToInt a mode exact st =
      (f32_pack (f32_sign a) m, raise_inexact (mval f32_fmt (f32_mag a) \<notin> \<int> \<and> exact) st) \<and>
      mval f32_fmt m = of_int (rint (sf_rmode mode) (f32_sign a) (mval f32_fmt (f32_mag a)))" for st
    by (rule f32_roundToInt_finite [OF True]) blast
  then obtain m where "\<And>st. f32_roundToInt a mode exact st =
      (f32_pack (f32_sign a) m, raise_inexact (mval f32_fmt (f32_mag a) \<notin> \<int> \<and> exact) st)"
    by (metis f32.mval_eq_iff)
  then have "f32_roundToInt a mode exact =
      (\<lambda>st. (f32_pack (f32_sign a) m, raise_inexact (mval f32_fmt (f32_mag a) \<notin> \<int> \<and> exact) st))" by blast
  then show ?thesis by (simp only: sticky_inexact)
next
  case False
  show ?thesis
  proof (cases "f32_isnan a")
    case True
    then have "f32_roundToInt a mode exact = (\<lambda>st. f32_nan_result a 0 st)" by (intro ext f32_roundToInt_special(2))
    then show ?thesis by (simp only: sticky_f32_nan_result)
  next
    case nan: False
    then have "f32_isinf a" using False by (auto simp: f32_isinf_def f32_finite_def f32_isnan_def)
    then have "f32_roundToInt a mode exact = (\<lambda>st. (a, st))" by (intro ext f32_roundToInt_special(1))
    then show ?thesis by (simp only: sticky_pure)
  qed
qed

lemma sticky_f64_round [sticky_intros]: "sticky (\<lambda>st. f64_round s x st)"
  by (rule stickyI [where R = "\<lambda>st. fst (f64_round s x st)"
        and E = "\<lambda>st. flag_bits (snd (ieee_round f64_fmt (st_rmode st) (st_before st) s x))"])
    (simp add: f64_round_def split: prod.split)

lemma sticky_f64_round_mode:
  assumes "\<And>st. z (clear_flags st) = z st"
  shows "sticky (\<lambda>st. f64_round_signed (z st) x st)"
  by (rule stickyI [where R = "\<lambda>st. fst (f64_round_signed (z st) x st)"
        and E = "\<lambda>st. flag_bits (snd (ieee_round f64_fmt (st_rmode st) (st_before st) (if x = 0 then z st else x < 0) \<bar>x\<bar>))"])
    (simp add: f64_round_signed_def f64_round_def assms split: prod.split)

lemma sticky_f64_round_signed [sticky_intros]: "sticky (\<lambda>st. f64_round_signed s x st)"
  by (rule sticky_f64_round_mode) simp

lemma sticky_f64_nan_result [sticky_intros]: "sticky (\<lambda>st. f64_nan_result a b st)"
  unfolding f64_nan_result_def by (rule sticky_if_state)

lemma sticky_f64_add_sub: "sticky (f64_add a b)" "sticky (f64_sub a b)"
proof -
  have "sticky (f64_add a b) \<and> sticky (f64_sub a b)"
  proof (cases "f64_finite a \<and> f64_finite b")
    case True
    then have fin: "f64_finite a" "f64_finite b" by simp_all
    show ?thesis unfolding f64_add_finite [OF fin, abs_def] f64_sub_finite [OF fin, abs_def]
      by (intro conjI sticky_f64_round_mode) simp_all
  next
    case False
    show ?thesis unfolding f64_add_special [OF False, abs_def] f64_sub_special [OF False, abs_def]
      by (intro conjI sticky_intros)
  qed
  then show "sticky (f64_add a b)" "sticky (f64_sub a b)" by simp_all
qed

lemma sticky_f64_mul: "sticky (f64_mul a b)"
proof (cases "f64_finite a \<and> f64_finite b")
  case True
  then have fin: "f64_finite a" "f64_finite b" by simp_all
  show ?thesis unfolding f64_mul_finite [OF fin, abs_def] by (rule sticky_f64_round_signed)
next
  case False
  show ?thesis unfolding f64_mul_special [OF False, abs_def] by (intro sticky_intros)
qed

lemma sticky_f64_div: "sticky (f64_div a b)"
proof (cases "f64_finite a \<and> f64_finite b \<and> f64_mag b \<noteq> 0")
  case True
  then have "f64_div a b = (\<lambda>st. f64_round_signed (f64_sign a \<noteq> f64_sign b) (f64_val a / f64_val b) st)"
    by (intro ext f64_div_finite) simp_all
  then show ?thesis by (simp add: sticky_f64_round_signed)
next
  case False
  show ?thesis unfolding f64_div_special [OF False, abs_def] by (intro sticky_intros)
qed

lemma sticky_f64_mulAdd: "sticky (f64_mulAdd a b c)"
proof (cases "f64_finite a \<and> f64_finite b \<and> f64_finite c")
  case True
  then have fin: "f64_finite a" "f64_finite b" "f64_finite c" by simp_all
  show ?thesis unfolding f64_mulAdd_finite [OF fin, abs_def] by (intro sticky_f64_round_mode) simp
next
  case False
  show ?thesis unfolding f64_mulAdd_special [OF False, abs_def] by (intro sticky_intros)
qed

lemma sticky_f64_compare:
  "sticky (f64_eq a b)" "sticky (f64_lt a b)" "sticky (f64_le a b)"
  "sticky (f64_eq_signaling a b)" "sticky (f64_lt_quiet a b)" "sticky (f64_le_quiet a b)"
proof -
  have u: "sticky (\<lambda>st. (r, f64_unordered q a b st))" for q and r :: bool
    unfolding f64_unordered_def by (cases "f64_isnan a \<or> f64_isnan b") (simp_all add: sticky_intros)
  show "sticky (f64_eq a b)" "sticky (f64_lt a b)" "sticky (f64_le a b)"
    "sticky (f64_eq_signaling a b)" "sticky (f64_lt_quiet a b)" "sticky (f64_le_quiet a b)"
    unfolding f64_eq_val [abs_def] f64_lt_val [abs_def] f64_le_val [abs_def] by (rule u)+
qed

lemma sticky_f64_from_int:
  "sticky (i64_to_f64 d)" "sticky (ui64_to_f64 d)"
  unfolding i64_to_f64_round [abs_def] ui64_to_f64_round [abs_def]
  by (rule sticky_intros)+

lemma sticky_f64_to_int: "sticky (\<lambda>st. f64_to_int lo hi bad rm exact a st)"
  unfolding f64_to_int_def round_to_int_def Let_def by (auto intro!: sticky_intros)

lemma sticky_f64_to_ints:
  "sticky (f64_to_i32 a mode exact)" "sticky (f64_to_i64 a mode exact)"
  "sticky (f64_to_ui32 a mode exact)" "sticky (f64_to_ui64 a mode exact)"
  "sticky (f64_to_i32_r_minMag a exact)" "sticky (f64_to_i64_r_minMag a exact)"
  "sticky (f64_to_ui32_r_minMag a exact)" "sticky (f64_to_ui64_r_minMag a exact)"
proof -
  have inj: "inj (uint :: u64 \<Rightarrow> int)" by (rule injI) (simp add: word_uint_eq_iff)
  note s = sticky_f64_to_int [where a = a and exact = exact]
  show "sticky (f64_to_i32 a mode exact)" "sticky (f64_to_i64 a mode exact)"
    "sticky (f64_to_i32_r_minMag a exact)" "sticky (f64_to_i64_r_minMag a exact)"
    unfolding f64_to_i32_round [abs_def] f64_to_i64_round [abs_def]
      f64_to_i32_r_minMag_round [abs_def] f64_to_i64_r_minMag_round [abs_def] by (rule s)+
  show "sticky (f64_to_ui32 a mode exact)" "sticky (f64_to_ui64 a mode exact)"
    "sticky (f64_to_ui32_r_minMag a exact)" "sticky (f64_to_ui64_r_minMag a exact)"
    by (rule sticky_apfst [OF _ inj]; simp only: f64_to_ui32_round f64_to_ui64_round
        f64_to_ui32_r_minMag_round f64_to_ui64_r_minMag_round; rule s)+
qed

lemma sticky_f64_roundToInt: "sticky (f64_roundToInt a mode exact)"
proof (cases "f64_finite a")
  case True
  have "\<exists>m. f64_roundToInt a mode exact st =
      (f64_pack (f64_sign a) m, raise_inexact (mval f64_fmt (f64_mag a) \<notin> \<int> \<and> exact) st) \<and>
      mval f64_fmt m = of_int (rint (sf_rmode mode) (f64_sign a) (mval f64_fmt (f64_mag a)))" for st
    by (rule f64_roundToInt_finite [OF True]) blast
  then obtain m where "\<And>st. f64_roundToInt a mode exact st =
      (f64_pack (f64_sign a) m, raise_inexact (mval f64_fmt (f64_mag a) \<notin> \<int> \<and> exact) st)"
    by (metis f64.mval_eq_iff)
  then have "f64_roundToInt a mode exact =
      (\<lambda>st. (f64_pack (f64_sign a) m, raise_inexact (mval f64_fmt (f64_mag a) \<notin> \<int> \<and> exact) st))" by blast
  then show ?thesis by (simp only: sticky_inexact)
next
  case False
  show ?thesis
  proof (cases "f64_isnan a")
    case True
    then have "f64_roundToInt a mode exact = (\<lambda>st. f64_nan_result a 0 st)" by (intro ext f64_roundToInt_special(2))
    then show ?thesis by (simp only: sticky_f64_nan_result)
  next
    case nan: False
    then have "f64_isinf a" using False by (auto simp: f64_isinf_def f64_finite_def f64_isnan_def)
    then have "f64_roundToInt a mode exact = (\<lambda>st. (a, st))" by (intro ext f64_roundToInt_special(1))
    then show ?thesis by (simp only: sticky_pure)
  qed
qed

lemma sticky_f32_to_f64: "sticky (f32_to_f64 a)"
proof (cases "f32_finite a")
  case True
  have "\<exists>m. f32_to_f64 a st = (f64_pack (f32_sign a) m, st) \<and> mval f64_fmt m = mval f32_fmt (f32_mag a)" for st
    by (rule f32_to_f64_finite [OF True]) blast
  then obtain m where "\<And>st. f32_to_f64 a st = (f64_pack (f32_sign a) m, st)" by (metis f64.mval_eq_iff)
  then have "f32_to_f64 a = (\<lambda>st. (f64_pack (f32_sign a) m, st))" by blast
  then show ?thesis by (simp only: sticky_pure)
next
  case False
  then consider "f32_isnan a" | "f32_isinf a" unfolding f32_isinf_def f32_finite_def f32_isnan_def by linarith
  then show ?thesis
  proof cases
    case 1
    show ?thesis unfolding f32_to_f64_nan [OF 1, abs_def] by (rule sticky_if_state)
  next
    case 2
    show ?thesis unfolding float_conv_inf(1) [OF 2, abs_def] by (rule sticky_pure)
  qed
qed

lemma sticky_f64_to_f32: "sticky (f64_to_f32 a)"
proof (cases "f64_finite a")
  case True
  show ?thesis unfolding f64_to_f32_finite [OF True, abs_def] by (rule sticky_f32_round)
next
  case False
  then consider "f64_isnan a" | "f64_isinf a" unfolding f64_isinf_def f64_finite_def f64_isnan_def by linarith
  then show ?thesis
  proof cases
    case 1
    show ?thesis unfolding f64_to_f32_nan [OF 1, abs_def] by (rule sticky_if_state)
  next
    case 2
    show ?thesis unfolding float_conv_inf(2) [OF 2, abs_def] by (rule sticky_pure)
  qed
qed

lemmas sticky_ops =
  sticky_f32_add_sub sticky_f32_mul sticky_f32_mulAdd sticky_f32_div sticky_f32_compare sticky_f32_from_int sticky_f32_to_ints sticky_f32_roundToInt
  sticky_f64_add_sub sticky_f64_mul sticky_f64_mulAdd sticky_f64_div sticky_f64_compare sticky_f64_from_int sticky_f64_to_ints sticky_f64_roundToInt
  sticky_f32_to_f64 sticky_f64_to_f32

subsection \<open>The library as a state machine\<close>

text \<open>
  Every call of an operation is a step of the shared state. Whatever the calls and their order,
  the modes stay as the caller set them and flags are only added.
\<close>

inductive sf_call :: "softfloat_state \<Rightarrow> softfloat_state \<Rightarrow> bool" where
  call_f32_add: "sf_call st (snd (f32_add a b st))"
| call_f32_sub: "sf_call st (snd (f32_sub a b st))"
| call_f32_mul: "sf_call st (snd (f32_mul a b st))"
| call_f32_div: "sf_call st (snd (f32_div a b st))"
| call_f32_mulAdd: "sf_call st (snd (f32_mulAdd a b c st))"
| call_f32_eq: "sf_call st (snd (f32_eq a b st))"
| call_f32_lt: "sf_call st (snd (f32_lt a b st))"
| call_f32_le: "sf_call st (snd (f32_le a b st))"
| call_f32_eq_signaling: "sf_call st (snd (f32_eq_signaling a b st))"
| call_f32_lt_quiet: "sf_call st (snd (f32_lt_quiet a b st))"
| call_f32_le_quiet: "sf_call st (snd (f32_le_quiet a b st))"
| call_f32_to_i32: "sf_call st (snd (f32_to_i32 a mode exact st))"
| call_f32_to_i32_r_minMag: "sf_call st (snd (f32_to_i32_r_minMag a exact st))"
| call_i32_to_f32: "sf_call st (snd (i32_to_f32 n st))"
| call_f32_to_ui32: "sf_call st (snd (f32_to_ui32 a mode exact st))"
| call_f32_to_ui32_r_minMag: "sf_call st (snd (f32_to_ui32_r_minMag a exact st))"
| call_ui32_to_f32: "sf_call st (snd (ui32_to_f32 n st))"
| call_f32_to_i64: "sf_call st (snd (f32_to_i64 a mode exact st))"
| call_f32_to_i64_r_minMag: "sf_call st (snd (f32_to_i64_r_minMag a exact st))"
| call_i64_to_f32: "sf_call st (snd (i64_to_f32 n st))"
| call_f32_to_ui64: "sf_call st (snd (f32_to_ui64 a mode exact st))"
| call_f32_to_ui64_r_minMag: "sf_call st (snd (f32_to_ui64_r_minMag a exact st))"
| call_ui64_to_f32: "sf_call st (snd (ui64_to_f32 n st))"
| call_f32_roundToInt: "sf_call st (snd (f32_roundToInt a mode exact st))"
| call_f64_add: "sf_call st (snd (f64_add a b st))"
| call_f64_sub: "sf_call st (snd (f64_sub a b st))"
| call_f64_mul: "sf_call st (snd (f64_mul a b st))"
| call_f64_div: "sf_call st (snd (f64_div a b st))"
| call_f64_mulAdd: "sf_call st (snd (f64_mulAdd a b c st))"
| call_f64_eq: "sf_call st (snd (f64_eq a b st))"
| call_f64_lt: "sf_call st (snd (f64_lt a b st))"
| call_f64_le: "sf_call st (snd (f64_le a b st))"
| call_f64_eq_signaling: "sf_call st (snd (f64_eq_signaling a b st))"
| call_f64_lt_quiet: "sf_call st (snd (f64_lt_quiet a b st))"
| call_f64_le_quiet: "sf_call st (snd (f64_le_quiet a b st))"
| call_f64_to_i32: "sf_call st (snd (f64_to_i32 a mode exact st))"
| call_f64_to_i32_r_minMag: "sf_call st (snd (f64_to_i32_r_minMag a exact st))"
| call_f64_to_ui32: "sf_call st (snd (f64_to_ui32 a mode exact st))"
| call_f64_to_ui32_r_minMag: "sf_call st (snd (f64_to_ui32_r_minMag a exact st))"
| call_f64_to_i64: "sf_call st (snd (f64_to_i64 a mode exact st))"
| call_f64_to_i64_r_minMag: "sf_call st (snd (f64_to_i64_r_minMag a exact st))"
| call_i64_to_f64: "sf_call st (snd (i64_to_f64 n st))"
| call_f64_to_ui64: "sf_call st (snd (f64_to_ui64 a mode exact st))"
| call_f64_to_ui64_r_minMag: "sf_call st (snd (f64_to_ui64_r_minMag a exact st))"
| call_ui64_to_f64: "sf_call st (snd (ui64_to_f64 n st))"
| call_f64_roundToInt: "sf_call st (snd (f64_roundToInt a mode exact st))"
| call_f32_to_f64: "sf_call st (snd (f32_to_f64 a st))"
| call_f64_to_f32: "sf_call st (snd (f64_to_f32 a st))"

lemma sticky_raises: "sticky f \<Longrightarrow> \<exists>w. snd (f st) = softfloat_raiseFlags w st"
  unfolding sticky_def by (metis snd_conv)

lemma sf_call_raises: "sf_call st st' \<Longrightarrow> \<exists>w. st' = softfloat_raiseFlags w st"
  by (induction rule: sf_call.induct) (rule sticky_raises sticky_ops)+

lemma sf_calls_raise: "sf_call\<^sup>*\<^sup>* st st' \<Longrightarrow> \<exists>w. st' = softfloat_raiseFlags w st"
proof (induction rule: rtranclp_induct)
  case base
  show ?case by (rule exI [of _ 0]) simp
next
  case (step y z)
  then show ?case using sf_call_raises [of y z] by (metis raiseFlags_raiseFlags)
qed

subsection \<open>Sequences of calls\<close>

primrec run_calls :: "(softfloat_state \<Rightarrow> 'r \<times> softfloat_state) list \<Rightarrow> softfloat_state \<Rightarrow> 'r list \<times> softfloat_state" where
  "run_calls [] st = ([], st)"
| "run_calls (f # fs) st = (case f st of (r, st) \<Rightarrow> case run_calls fs st of (rs, st) \<Rightarrow> (r # rs, st))"

text \<open>The exceptions a sequence of calls raises when each of them starts with clear flags.\<close>

definition all_flags :: "(softfloat_state \<Rightarrow> 'r \<times> softfloat_state) list \<Rightarrow> softfloat_state \<Rightarrow> u8" where
  "all_flags fs st = foldr (\<lambda>f w. softfloat_exceptionFlags (snd (f (clear_flags st))) OR w) fs 0"

lemma all_flags_simps [simp]:
  "all_flags [] st = 0"
  "all_flags (f # fs) st = softfloat_exceptionFlags (snd (f (clear_flags st))) OR all_flags fs st"
  "all_flags fs (softfloat_raiseFlags w st) = all_flags fs st"
  by (simp_all add: all_flags_def)

lemma bit_all_flags:
  "bit (all_flags fs st) n \<longleftrightarrow> (\<exists>f\<in>set fs. bit (softfloat_exceptionFlags (snd (f (clear_flags st)))) n)"
  by (induction fs) (auto simp: bit_simps)

locale sticky_calls =
  fixes ops :: "(softfloat_state \<Rightarrow> 'r \<times> softfloat_state) set"
  assumes ops_sticky: "f \<in> ops \<Longrightarrow> sticky f"
begin

lemma run_calls_result:
  assumes "set fs \<subseteq> ops"
  shows "run_calls fs st = (map (\<lambda>f. fst (f (clear_flags st))) fs, softfloat_raiseFlags (all_flags fs st) st)"
  using assms
proof (induction fs arbitrary: st)
  case (Cons f fs)
  then have "sticky f" by (simp add: ops_sticky)
  then have f: "f st = (fst (f (clear_flags st)), softfloat_raiseFlags (softfloat_exceptionFlags (snd (f (clear_flags st)))) st)"
    unfolding sticky_def by blast
  show ?case by (subst run_calls.simps, subst f) (use Cons in simp)
qed simp

lemma run_calls_order:
  assumes "set fs \<subseteq> ops" "set gs = set fs"
  shows "snd (run_calls gs st) = snd (run_calls fs st)"
proof -
  have "all_flags gs st = all_flags fs st" by (rule bit_eqI) (simp only: bit_all_flags assms(2))
  then show ?thesis using run_calls_result [of fs st] run_calls_result [of gs st] assms by simp
qed

end

definition f32_calls :: "(softfloat_state \<Rightarrow> u32 \<times> softfloat_state) set" where
  "f32_calls = (\<Union>a b. {f32_add a b, f32_sub a b, f32_mul a b, f32_div a b}) \<union> (\<Union>a b c. {f32_mulAdd a b c}) \<union>
     (\<Union>a mode exact. {f32_roundToInt a mode exact}) \<union> (\<Union>c. {i32_to_f32 c, ui32_to_f32 c}) \<union> (\<Union>c. {i64_to_f32 c, ui64_to_f32 c, f64_to_f32 c})"

interpretation f32_env: sticky_calls f32_calls
  by unfold_locales (auto simp: f32_calls_def intro: sticky_ops)

definition f64_calls :: "(softfloat_state \<Rightarrow> u64 \<times> softfloat_state) set" where
  "f64_calls = (\<Union>a b. {f64_add a b, f64_sub a b, f64_mul a b, f64_div a b}) \<union> (\<Union>a b c. {f64_mulAdd a b c}) \<union>
     (\<Union>a mode exact. {f64_roundToInt a mode exact}) \<union> (\<Union>c. {f32_to_f64 c}) \<union> (\<Union>c. {i64_to_f64 c, ui64_to_f64 c})"

interpretation f64_env: sticky_calls f64_calls
  by unfold_locales (auto simp: f64_calls_def intro: sticky_ops)

end
