(* ===== verification/Spec2Isabelle.thy ===== *)
theory Spec2Isabelle
  imports SF_AddSub SF_Mul SF_Wide SF_MulAdd SF_Div SF_Compare SF_FromInt SF_ToInt SF_Trunc SF_RoundToInt SF_FloatConv SF_Env SF_Laws
begin

text \<open>
  A verification library for riscv-emu-golang. This root theory holds the properties; the
  components are in the imported theories.
\<close>

text \<open>
  C1. The sum and the difference of two finite single-precision numbers, as
  \<open>f32_add\<close> and \<open>f32_sub\<close> compute them on the bit patterns, are the
  exact real sum and difference rounded once in the current mode, with the exceptions IEEE 754
  asks for; an exact zero is negative only when both operands ask for it or when rounding down.
\<close>

theorem f32_add_sub_rounded:
  assumes "f32_finite a" "f32_finite b"
  shows "f32_add a b st =
           f32_round_signed (if f32_sign a = f32_sign b then f32_sign a else st_rmode st = RDN) (f32_val a + f32_val b) st \<and>
         f32_sub a b st =
           f32_round_signed (if f32_sign a \<noteq> f32_sign b then f32_sign a else st_rmode st = RDN) (f32_val a - f32_val b) st"
  using f32_add_finite [OF assms] f32_sub_finite [OF assms] by blast

theorem f32_add_sub_rounded_witness:
  "f32_finite 0x3F800000 \<and> f32_finite 0x33000000 \<and>
   f32_round_signed False (f32_val 0x3F800000 + f32_val 0x33000000) softfloat_state_init =
     (0x3F800000, softfloat_raiseFlags softfloat_flag_inexact softfloat_state_init)"
proof -
  have fin: "f32_finite 0x3F800000" "f32_finite 0x33000000" and sg: "\<not> f32_sign 0x3F800000" "\<not> f32_sign 0x33000000"
    by (simp_all add: f32_finite_def f32_mag_def inf_code_f32 f32_sign_def)
  have "f32_add 0x3F800000 0x33000000 softfloat_state_init =
        (0x3F800000, softfloat_raiseFlags softfloat_flag_inexact softfloat_state_init)" by code_simp
  then show ?thesis using f32_add_sub_rounded [OF fin, of softfloat_state_init] fin sg by simp
qed

text \<open>
  C2. The sum and the difference of two finite double-precision numbers are the exact real
  results rounded once in the current mode, with the exceptions IEEE 754 asks for.
\<close>

theorem f64_add_sub_rounded:
  assumes "f64_finite a" "f64_finite b"
  shows "f64_add a b st =
           f64_round_signed (if f64_sign a = f64_sign b then f64_sign a else st_rmode st = RDN) (f64_val a + f64_val b) st \<and>
         f64_sub a b st =
           f64_round_signed (if f64_sign a \<noteq> f64_sign b then f64_sign a else st_rmode st = RDN) (f64_val a - f64_val b) st"
  using f64_add_finite [OF assms] f64_sub_finite [OF assms] by blast

theorem f64_add_sub_rounded_witness:
  "f64_finite 0x3FF0000000000000 \<and> f64_finite 0x3CA0000000000000 \<and>
   f64_round_signed False (f64_val 0x3FF0000000000000 + f64_val 0x3CA0000000000000) softfloat_state_init =
     (0x3FF0000000000000, softfloat_raiseFlags softfloat_flag_inexact softfloat_state_init)"
proof -
  have fin: "f64_finite 0x3FF0000000000000" "f64_finite 0x3CA0000000000000"
    and sg: "\<not> f64_sign 0x3FF0000000000000" "\<not> f64_sign 0x3CA0000000000000"
    by (simp_all add: f64_finite_def f64_mag_def inf_code_f64 f64_sign_def)
  have "f64_add 0x3FF0000000000000 0x3CA0000000000000 softfloat_state_init =
        (0x3FF0000000000000, softfloat_raiseFlags softfloat_flag_inexact softfloat_state_init)" by code_simp
  then show ?thesis using f64_add_sub_rounded [OF fin, of softfloat_state_init] fin sg by simp
qed

text \<open>
  C3. The product of two finite single-precision numbers and the quotient by a non-zero one are
  the exact real results rounded once, with the sign of a zero result the exclusive or of the
  operands' signs.
\<close>

theorem f32_mul_div_rounded:
  assumes "f32_finite a" "f32_finite b"
  shows "f32_mul a b st = f32_round_signed (f32_sign a \<noteq> f32_sign b) (f32_val a * f32_val b) st \<and>
         (f32_mag b \<noteq> 0 \<longrightarrow> f32_div a b st = f32_round_signed (f32_sign a \<noteq> f32_sign b) (f32_val a / f32_val b) st)"
  using f32_mul_finite [OF assms] f32_div_finite [OF assms] by blast

theorem f32_mul_div_rounded_witness:
  "f32_finite 0x3F800000 \<and> f32_finite 0x40400000 \<and> f32_mag 0x40400000 \<noteq> 0 \<and>
   f32_round_signed False (f32_val 0x3F800000 / f32_val 0x40400000) softfloat_state_init =
     (0x3EAAAAAB, softfloat_raiseFlags softfloat_flag_inexact softfloat_state_init)"
proof -
  have fin: "f32_finite 0x3F800000" "f32_finite 0x40400000" and sg: "\<not> f32_sign 0x3F800000" "\<not> f32_sign 0x40400000"
    and nz: "f32_mag 0x40400000 \<noteq> 0"
    by (simp_all add: f32_finite_def f32_mag_def inf_code_f32 f32_sign_def)
  have "f32_div 0x3F800000 0x40400000 softfloat_state_init =
        (0x3EAAAAAB, softfloat_raiseFlags softfloat_flag_inexact softfloat_state_init)" by code_simp
  then show ?thesis using f32_mul_div_rounded [OF fin, of softfloat_state_init] fin sg nz by simp
qed

text \<open>
  C4. The product of two finite double-precision numbers, computed through a 128-bit product,
  and the quotient by a non-zero one are the exact real results rounded once: the approximate
  reciprocal, the two quotient digits and the correction step of \<open>f64_div\<close> lose
  nothing that rounding can see.
\<close>

theorem f64_mul_div_rounded:
  assumes "f64_finite a" "f64_finite b"
  shows "f64_mul a b st = f64_round_signed (f64_sign a \<noteq> f64_sign b) (f64_val a * f64_val b) st \<and>
         (f64_mag b \<noteq> 0 \<longrightarrow> f64_div a b st = f64_round_signed (f64_sign a \<noteq> f64_sign b) (f64_val a / f64_val b) st)"
  using f64_mul_finite [OF assms] f64_div_finite [OF assms] by blast

theorem f64_mul_div_rounded_witness:
  "f64_finite 0x3FF0000000000000 \<and> f64_finite 0x4008000000000000 \<and> f64_mag 0x4008000000000000 \<noteq> 0 \<and>
   f64_round_signed False (f64_val 0x3FF0000000000000 / f64_val 0x4008000000000000) softfloat_state_init =
     (0x3FD5555555555555, softfloat_raiseFlags softfloat_flag_inexact softfloat_state_init)"
proof -
  have fin: "f64_finite 0x3FF0000000000000" "f64_finite 0x4008000000000000" "f64_mag 0x4008000000000000 \<noteq> 0"
    and sg: "\<not> f64_sign 0x3FF0000000000000" "\<not> f64_sign 0x4008000000000000"
    by (simp_all add: f64_finite_def f64_mag_def inf_code_f64 f64_sign_def)
  have "f64_div 0x3FF0000000000000 0x4008000000000000 softfloat_state_init =
        (0x3FD5555555555555, softfloat_raiseFlags softfloat_flag_inexact softfloat_state_init)" by code_simp
  then show ?thesis using f64_mul_div_rounded [OF fin(1,2), of softfloat_state_init] fin sg by simp
qed

text \<open>
  C5. The fused multiply-adds round once: for finite operands the result is the exact real
  \<open>a * b + c\<close> rounded to the format, with the sign of an exact zero as IEEE 754
  asks for. The alignment shifts, the 128-bit sum or difference of double precision and the
  normalisation after cancellation lose nothing the rounding can see.
\<close>

theorem mulAdd_rounded:
  assumes "f32_finite a" "f32_finite b" "f32_finite c" "f64_finite d" "f64_finite e" "f64_finite f"
  shows "f32_mulAdd a b c st =
           f32_round_signed (if (f32_sign a \<noteq> f32_sign b) = f32_sign c then f32_sign c else st_rmode st = RDN)
             (f32_val a * f32_val b + f32_val c) st \<and>
         f64_mulAdd d e f st =
           f64_round_signed (if (f64_sign d \<noteq> f64_sign e) = f64_sign f then f64_sign f else st_rmode st = RDN)
             (f64_val d * f64_val e + f64_val f) st"
  using f32_mulAdd_finite [OF assms(1-3)] f64_mulAdd_finite [OF assms(4-6)] by blast

theorem mulAdd_rounded_witness:
  "f32_finite 0x3F800001 \<and> f32_finite 0xBF800002 \<and> f64_finite 0x3FF0000000000001 \<and> f64_finite 0xBFF0000000000002 \<and>
   f32_round_signed False (f32_val 0x3F800001 * f32_val 0x3F800001 + f32_val 0xBF800002) softfloat_state_init = (0x28800000, softfloat_state_init) \<and>
   f64_round_signed False (f64_val 0x3FF0000000000001 * f64_val 0x3FF0000000000001 + f64_val 0xBFF0000000000002) softfloat_state_init =
     (0x3970000000000000, softfloat_state_init)"
proof -
  have fin: "f32_finite 0x3F800001" "f32_finite 0xBF800002" "f64_finite 0x3FF0000000000001" "f64_finite 0xBFF0000000000002"
    by (simp_all add: f32_finite_def f32_mag_def inf_code_f32 f64_finite_def f64_mag_def inf_code_f64)
  have sg: "\<not> f32_sign 0x3F800001" "f32_sign 0xBF800002" "\<not> f64_sign 0x3FF0000000000001" "f64_sign 0xBFF0000000000002"
    by (simp_all add: f32_sign_def f64_sign_def)
  have rm: "st_rmode softfloat_state_init = RNE" by (simp add: softfloat_state_init_def sf_rmode_def)
  have "f32_mulAdd 0x3F800001 0x3F800001 0xBF800002 softfloat_state_init = (0x28800000, softfloat_state_init)" by code_simp
  moreover have "f64_mulAdd 0x3FF0000000000001 0x3FF0000000000001 0xBFF0000000000002 softfloat_state_init = (0x3970000000000000, softfloat_state_init)" by code_simp
  ultimately show ?thesis
    using mulAdd_rounded [OF fin(1,1,2) fin(3,3,4), of softfloat_state_init] fin sg rm by simp
qed

text \<open>
  C6. \<open>softfloat_roundPackToF32\<close> implements the abstract rounding to the format:
  handed a significand that agrees above the round bit and the sticky bits with an exact one
  \<open>r\<close>, it delivers the correctly rounded value of \<open>r * 2 ^ (e - 156)\<close>
  and its overflow, underflow and inexact exceptions, for either tininess detection.
\<close>

theorem roundPackToF32_refines:
  assumes "2 ^ 30 \<le> r \<or> e < 0 \<and> 0 \<le> r" "r < 2 ^ 31" "agree (7 - 1) (real (unat sig)) r"
    and "- (2 ^ 31) \<le> e" "e < 2 ^ 31"
  shows "softfloat_roundPackToF32 sign e sig st = f32_round sign (r * pow2 (e - 156)) st"
  by (rule softfloat_roundPackToF32_round [OF assms])

theorem roundPackToF32_refines_witness:
  "agree (7 - 1) (real (unat (0x40000040 :: u64))) 0x40000040 \<and>
   softfloat_roundPackToF32 False 0x80 0x40000040 softfloat_state_init = f32_round False (0x40000040 * pow2 (0x80 - 156)) softfloat_state_init"
  using roundPackToF32_refines [of "0x40000040" "0x80" "0x40000040" False softfloat_state_init] by simp

text \<open>
  C7. \<open>softfloat_roundPackToF64\<close> implements the abstract rounding to the format:
  handed a significand that agrees above the round bit and the sticky bits with an exact one
  \<open>r\<close>, it delivers the correctly rounded value of \<open>r * 2 ^ (e - 1084)\<close>
  and its overflow, underflow and inexact exceptions, for either tininess detection.
\<close>

theorem roundPackToF64_refines:
  assumes "2 ^ 62 \<le> r \<or> e < 0 \<and> 0 \<le> r" "r < 2 ^ 63" "agree (10 - 1) (real (unat sig)) r"
    and "- (2 ^ 15) \<le> e" "e < 2 ^ 15"
  shows "softfloat_roundPackToF64 sign e sig st = f64_round sign (r * pow2 (e - 1084)) st"
  by (rule softfloat_roundPackToF64_round [OF assms])

theorem roundPackToF64_refines_witness:
  "agree (10 - 1) (real (unat (0x4000000000000200 :: u64))) 0x4000000000000200 \<and>
   softfloat_roundPackToF64 False 0x400 0x4000000000000200 softfloat_state_init = f64_round False (0x4000000000000200 * pow2 (0x400 - 1084)) softfloat_state_init"
  using roundPackToF64_refines [of "0x4000000000000200" "0x400" "0x4000000000000200" False softfloat_state_init] by simp

text \<open>
  C8. Narrowing a finite double rounds its value once to single precision, subnormal operands
  and results included.
\<close>

theorem f64_to_f32_rounded:
  assumes "f64_finite a"
  shows "f64_to_f32 a st = f32_round (f64_sign a) (mval f64_fmt (f64_mag a)) st"
  by (rule f64_to_f32_finite [OF assms])

theorem f64_to_f32_rounded_witness:
  "f64_finite 0x3FD5555555555555 \<and>
   f32_round False (mval f64_fmt (f64_mag 0x3FD5555555555555)) softfloat_state_init =
     (0x3EAAAAAB, softfloat_raiseFlags softfloat_flag_inexact softfloat_state_init)"
proof -
  have fin: "f64_finite 0x3FD5555555555555" and sg: "\<not> f64_sign 0x3FD5555555555555"
    by (simp_all add: f64_finite_def f64_mag_def inf_code_f64 f64_sign_def)
  have "f64_to_f32 0x3FD5555555555555 softfloat_state_init =
        (0x3EAAAAAB, softfloat_raiseFlags softfloat_flag_inexact softfloat_state_init)" by code_simp
  then show ?thesis using f64_to_f32_rounded [OF fin, of softfloat_state_init] fin sg by simp
qed

text \<open>
  C9. Widening a finite single to double and narrowing it again gives the same pattern back and
  raises no exception, whatever the rounding mode.
\<close>

theorem f32_f64_f32:
  assumes "f32_finite a"
  shows "(case f32_to_f64 a st of (b, st') \<Rightarrow> f64_to_f32 b st') = (a, st)"
  by (rule f32_f64_roundtrip [OF assms])

theorem f32_f64_f32_witness:
  "f32_finite 0x80000001 \<and>
   (case f32_to_f64 0x80000001 softfloat_state_init of (b, st') \<Rightarrow> f64_to_f32 b st') = (0x80000001, softfloat_state_init)"
proof -
  have fin: "f32_finite 0x80000001" by (simp add: f32_finite_def f32_mag_def inf_code_f32)
  then show ?thesis using f32_f64_f32 [OF fin] by blast
qed

text \<open>
  C10. The eight conversions of 32- and 64-bit integers to single and double precision deliver
  the integer rounded once.
\<close>

theorem int_to_float_rounded:
  "i32_to_f32 a st = f32_round_signed False (real_of_int (sint a)) st \<and>
   ui32_to_f32 a st = f32_round_signed False (real (unat a)) st \<and>
   i64_to_f32 b st = f32_round_signed False (real_of_int (sint b)) st \<and>
   ui64_to_f32 b st = f32_round_signed False (real (unat b)) st \<and>
   (i32_to_f64 a, st) = f64_round_signed False (real_of_int (sint a)) st \<and>
   (ui32_to_f64 a, st) = f64_round_signed False (real (unat a)) st \<and>
   i64_to_f64 b st = f64_round_signed False (real_of_int (sint b)) st \<and>
   ui64_to_f64 b st = f64_round_signed False (real (unat b)) st"
  by (intro conjI i32_to_f32_round ui32_to_f32_round i64_to_f32_round ui64_to_f32_round
      i32_to_f64_round ui32_to_f64_round i64_to_f64_round ui64_to_f64_round)

text \<open>
  C11. The conversions of binary32 and binary64 numbers to integers round the exact value in the
  mode they are given, raise inexact only when asked to, and deliver the format's indefinite
  value with the invalid exception for NaNs, infinities and everything out of range.
\<close>

theorem float_to_int_rounded:
  "f32_to_i32 a mode exact st = f32_to_int (- (2 ^ 31)) (2 ^ 31 - 1) (- (2 ^ 31)) (sf_rmode mode) exact a st \<and>
   apfst uint (f32_to_ui32 a mode exact st) = f32_to_int 0 (2 ^ 32 - 1) (2 ^ 32 - 1) (sf_rmode mode) exact a st \<and>
   f32_to_i64 a mode exact st = f32_to_int (- (2 ^ 63)) (2 ^ 63 - 1) (- (2 ^ 63)) (sf_rmode mode) exact a st \<and>
   apfst uint (f32_to_ui64 a mode exact st) = f32_to_int 0 (2 ^ 64 - 1) (2 ^ 64 - 1) (sf_rmode mode) exact a st \<and>
   f64_to_i32 c mode exact st = f64_to_int (- (2 ^ 31)) (2 ^ 31 - 1) (- (2 ^ 31)) (sf_rmode mode) exact c st \<and>
   apfst uint (f64_to_ui32 c mode exact st) = f64_to_int 0 (2 ^ 32 - 1) (2 ^ 32 - 1) (sf_rmode mode) exact c st \<and>
   f64_to_i64 c mode exact st = f64_to_int (- (2 ^ 63)) (2 ^ 63 - 1) (- (2 ^ 63)) (sf_rmode mode) exact c st \<and>
   apfst uint (f64_to_ui64 c mode exact st) = f64_to_int 0 (2 ^ 64 - 1) (2 ^ 64 - 1) (sf_rmode mode) exact c st"
  by (intro conjI f32_to_i32_round f32_to_ui32_round f32_to_i64_round f32_to_ui64_round
      f64_to_i32_round f64_to_ui32_round f64_to_i64_round f64_to_ui64_round)

text \<open>
  C12. The specialised truncating conversions to integers, which avoid the general rounding
  code, agree with the general conversions called with the mode towards zero, results and
  exceptions alike.
\<close>

theorem r_minMag_equiv:
  "f32_to_i32_r_minMag a exact st = f32_to_i32 a softfloat_round_minMag exact st \<and>
   f32_to_ui32_r_minMag a exact st = f32_to_ui32 a softfloat_round_minMag exact st \<and>
   f32_to_i64_r_minMag a exact st = f32_to_i64 a softfloat_round_minMag exact st \<and>
   f32_to_ui64_r_minMag a exact st = f32_to_ui64 a softfloat_round_minMag exact st \<and>
   f64_to_i32_r_minMag c exact st = f64_to_i32 c softfloat_round_minMag exact st \<and>
   f64_to_ui32_r_minMag c exact st = f64_to_ui32 c softfloat_round_minMag exact st \<and>
   f64_to_i64_r_minMag c exact st = f64_to_i64 c softfloat_round_minMag exact st \<and>
   f64_to_ui64_r_minMag c exact st = f64_to_ui64 c softfloat_round_minMag exact st"
proof -
  have rtz: "sf_rmode softfloat_round_minMag = RTZ" by (simp add: sf_rmode_def)
  show ?thesis
    by (intro conjI; (rule iffD1 [OF apfst_uint_inject])?; simp only: rtz f32_to_i32_r_minMag_round f32_to_i32_round f32_to_ui32_r_minMag_round f32_to_ui32_round f32_to_i64_r_minMag_round f32_to_i64_round f32_to_ui64_r_minMag_round f32_to_ui64_round
        f64_to_i32_r_minMag_round f64_to_i32_round f64_to_ui32_r_minMag_round f64_to_ui32_round f64_to_i64_r_minMag_round f64_to_i64_round f64_to_ui64_r_minMag_round f64_to_ui64_round)
qed

text \<open>
  C13. Rounding a finite number to an integral value delivers the integer the mode asks for,
  keeps the sign (of a zero result too), and raises inexact exactly when it is asked to and the
  number was not an integer.
\<close>

theorem roundToInt_rounded:
  assumes "f32_finite a" "f64_finite c"
  shows "(\<exists>z. f32_roundToInt a mode exact st = (z, raise_inexact (mval f32_fmt (f32_mag a) \<notin> \<int> \<and> exact) st) \<and>
             f32_finite z \<and> f32_sign z = f32_sign a \<and>
             mval f32_fmt (f32_mag z) = of_int (rint (sf_rmode mode) (f32_sign a) (mval f32_fmt (f32_mag a)))) \<and>
         (\<exists>z. f64_roundToInt c mode exact st = (z, raise_inexact (mval f64_fmt (f64_mag c) \<notin> \<int> \<and> exact) st) \<and>
             f64_finite z \<and> f64_sign z = f64_sign c \<and>
             mval f64_fmt (f64_mag z) = of_int (rint (sf_rmode mode) (f64_sign c) (mval f64_fmt (f64_mag c))))"
  using f32_roundToInt_result [OF assms(1)] f64_roundToInt_result [OF assms(2)] by blast

theorem roundToInt_rounded_witness:
  "f32_finite 0x3FC00000 \<and> f64_finite 0x4000000000000000 \<and>
   of_int (rint RNE False (mval f32_fmt (f32_mag 0x3FC00000))) = mval f32_fmt (f32_mag 0x40000000)"
proof -
  have fin: "f32_finite 0x3FC00000" "f64_finite 0x4000000000000000" and sg: "\<not> f32_sign 0x3FC00000" by (simp_all add: f32_finite_def f32_mag_def inf_code_f32 f32_sign_def f64_finite_def f64_mag_def inf_code_f64)
  have "f32_roundToInt 0x3FC00000 softfloat_round_near_even True softfloat_state_init =
        (0x40000000, softfloat_raiseFlags softfloat_flag_inexact softfloat_state_init)" by code_simp
  moreover have "sf_rmode softfloat_round_near_even = RNE" by (simp add: sf_rmode_def)
  ultimately show ?thesis
    using roundToInt_rounded [OF fin, of softfloat_round_near_even True softfloat_state_init] fin sg by auto
qed

text \<open>
  C14. The comparisons of binary32 and of binary64 patterns decide equality and order of the
  values they stand for, infinities included and the two zeros equal; they are false when an
  operand is a NaN, and the exceptions are those of a quiet or a signalling comparison.
\<close>

theorem compare_values:
  "f32_eq a b st = (\<not> f32_isnan a \<and> \<not> f32_isnan b \<and> f32_val a = f32_val b, f32_unordered False a b st) \<and>
   f32_lt a b st = (\<not> f32_isnan a \<and> \<not> f32_isnan b \<and> f32_val a < f32_val b, f32_unordered True a b st) \<and>
   f32_le a b st = (\<not> f32_isnan a \<and> \<not> f32_isnan b \<and> f32_val a \<le> f32_val b, f32_unordered True a b st) \<and>
   f64_eq c d st = (\<not> f64_isnan c \<and> \<not> f64_isnan d \<and> f64_val c = f64_val d, f64_unordered False c d st) \<and>
   f64_lt c d st = (\<not> f64_isnan c \<and> \<not> f64_isnan d \<and> f64_val c < f64_val d, f64_unordered True c d st) \<and>
   f64_le c d st = (\<not> f64_isnan c \<and> \<not> f64_isnan d \<and> f64_val c \<le> f64_val d, f64_unordered True c d st)"
  using f32_eq_val(1) f32_lt_val(1) f32_le_val(1) f64_eq_val(1) f64_lt_val(1) f64_le_val(1) by blast

text \<open>
  C15. The quiet and the signalling form of each comparison give the same truth value and differ
  only in that the signalling form raises invalid for every NaN operand, not just for signalling
  ones.
\<close>

theorem quiet_compare_equiv:
  "fst (f32_eq_signaling a b st) = fst (f32_eq a b st) \<and> snd (f32_eq_signaling a b st) = f32_unordered True a b st \<and>
   fst (f32_lt_quiet a b st) = fst (f32_lt a b st) \<and> snd (f32_lt_quiet a b st) = f32_unordered False a b st \<and>
   fst (f32_le_quiet a b st) = fst (f32_le a b st) \<and> snd (f32_le_quiet a b st) = f32_unordered False a b st \<and>
   fst (f64_eq_signaling c d st) = fst (f64_eq c d st) \<and> snd (f64_eq_signaling c d st) = f64_unordered True c d st \<and>
   fst (f64_lt_quiet c d st) = fst (f64_lt c d st) \<and> snd (f64_lt_quiet c d st) = f64_unordered False c d st \<and>
   fst (f64_le_quiet c d st) = fst (f64_le c d st) \<and> snd (f64_le_quiet c d st) = f64_unordered False c d st"
  by (simp add: f32_eq_val f32_lt_val f32_le_val f64_eq_val f64_lt_val f64_le_val)

text \<open>
  C16. Every non-zero right shift by \<open>softfloat_shiftRightJam64\<close> rounds its
  argument, divided by the power of two, to odd, which is what makes a later rounding of the
  shorter number correct.
\<close>

theorem shiftRightJam64_rounds_to_odd:
  "d \<noteq> 0 \<Longrightarrow> int (unat (softfloat_shiftRightJam64 a d)) = rodd (real (unat a) / 2 ^ unat d)"
  by (rule softfloat_shiftRightJam64_rodd)

theorem shiftRightJam64_rounds_to_odd_witness:
  "(2 :: u64) \<noteq> 0 \<and> int (unat (softfloat_shiftRightJam64 9 2)) = rodd (real (unat (9 :: u64)) / 2 ^ unat (2 :: u64))"
  using shiftRightJam64_rounds_to_odd [of 2 9] by simp

text \<open>
  C17. The 64-by-64-bit product of \<open>softfloat_mul64To128\<close> is exact: its two halves
  are the quotient and the remainder of the mathematical product by \<open>2 ^ 64\<close>, so
  nothing is lost to wrap-around.
\<close>

theorem mul64To128_exact:
  "unat (v64 (softfloat_mul64To128 a b)) * 2 ^ 64 + unat (v0 (softfloat_mul64To128 a b)) = unat a * unat b"
  unfolding softfloat_mul64To128_prod by (rule div_mult_mod_eq)

text \<open>
  C18. Whatever operations a program calls, in any number and order, they leave the rounding
  mode and the tininess detection as the program set them and never clear an exception flag.
\<close>

theorem calls_keep_modes:
  assumes "sf_call\<^sup>*\<^sup>* st st'"
  shows "softfloat_roundingMode st' = softfloat_roundingMode st \<and>
         softfloat_detectTininess st' = softfloat_detectTininess st \<and>
         softfloat_exceptionFlags st OR softfloat_exceptionFlags st' = softfloat_exceptionFlags st'"
  using sf_calls_raise [OF assms] by (auto simp: or.assoc [symmetric])

theorem calls_keep_modes_witness:
  "sf_call\<^sup>*\<^sup>* softfloat_state_init (snd (f64_div 0x3FF0000000000000 0 softfloat_state_init)) \<and>
   softfloat_roundingMode (snd (f64_div 0x3FF0000000000000 0 softfloat_state_init)) = softfloat_roundingMode softfloat_state_init \<and>
   softfloat_exceptionFlags (snd (f64_div 0x3FF0000000000000 0 softfloat_state_init)) = softfloat_flag_infinite"
proof -
  have s: "sf_call\<^sup>*\<^sup>* softfloat_state_init (snd (f64_div 0x3FF0000000000000 0 softfloat_state_init))"
    by (rule r_into_rtranclp) (rule call_f64_div)
  have "softfloat_exceptionFlags (snd (f64_div 0x3FF0000000000000 0 softfloat_state_init)) = softfloat_flag_infinite" by code_simp
  then show ?thesis using s calls_keep_modes [OF s] by blast
qed

text \<open>
  C19. The state after a sequence of double-precision operations does not depend on their order
  or repetition, and each result is the one the operation gives with clear flags: earlier
  exceptions never change a later result.
\<close>

theorem calls_any_order:
  assumes "set fs \<subseteq> f64_calls" "set gs = set fs"
  shows "snd (run_calls gs st) = snd (run_calls fs st) \<and>
         fst (run_calls fs st) = map (\<lambda>f. fst (f (clear_flags st))) fs"
  using f64_env.run_calls_order [OF assms] f64_env.run_calls_result [OF assms(1)] by simp

theorem calls_any_order_witness:
  "set [f64_div 1 0, f64_add 1 2] \<subseteq> f64_calls \<and>
   snd (run_calls [f64_add 1 2, f64_div 1 0] softfloat_state_init) = snd (run_calls [f64_div 1 0, f64_add 1 2] softfloat_state_init)"
proof -
  have s: "set [f64_div 1 0, f64_add 1 2] \<subseteq> f64_calls" by (auto simp: f64_calls_def)
  then show ?thesis using calls_any_order [OF s, of "[f64_add 1 2, f64_div 1 0]" softfloat_state_init] by auto
qed

text \<open>
  C20. In the modes to nearest, a finite result of an addition, subtraction, multiplication or
  division of finite binary32 numbers is at least as close to the exact real result as every
  other number of the format.
\<close>

theorem f32_arith_no_nearer:
  assumes "st_rmode st = RNE \<or> st_rmode st = RMM" "f32_finite a" "f32_finite b" "f32_finite c"
  shows "(f32_finite (fst (f32_add a b st)) \<longrightarrow>
            \<bar>f32_val (fst (f32_add a b st)) - (f32_val a + f32_val b)\<bar> \<le> \<bar>f32_val c - (f32_val a + f32_val b)\<bar>) \<and>
         (f32_finite (fst (f32_sub a b st)) \<longrightarrow>
            \<bar>f32_val (fst (f32_sub a b st)) - (f32_val a - f32_val b)\<bar> \<le> \<bar>f32_val c - (f32_val a - f32_val b)\<bar>) \<and>
         (f32_finite (fst (f32_mul a b st)) \<longrightarrow>
            \<bar>f32_val (fst (f32_mul a b st)) - f32_val a * f32_val b\<bar> \<le> \<bar>f32_val c - f32_val a * f32_val b\<bar>) \<and>
         (f32_val b \<noteq> 0 \<and> f32_finite (fst (f32_div a b st)) \<longrightarrow>
            \<bar>f32_val (fst (f32_div a b st)) - f32_val a / f32_val b\<bar> \<le> \<bar>f32_val c - f32_val a / f32_val b\<bar>)"
  using f32_arith.arith_nearest [OF assms] by blast

theorem f32_arith_no_nearer_witness:
  "st_rmode softfloat_state_init = RNE \<and> f32_finite 0x3F800000 \<and> f32_finite 0x40000000 \<and>
   (f32_finite (fst (f32_add 0x3F800000 0x3F800000 softfloat_state_init)) \<and>
    \<bar>f32_val (fst (f32_add 0x3F800000 0x3F800000 softfloat_state_init)) - (f32_val 0x3F800000 + f32_val 0x3F800000)\<bar>
      \<le> \<bar>f32_val 0x40000000 - (f32_val 0x3F800000 + f32_val 0x3F800000)\<bar>)"
proof -
  have rm: "st_rmode softfloat_state_init = RNE" by (simp add: softfloat_state_init_def sf_rmode_def)
  have fin: "f32_finite 0x3F800000" "f32_finite 0x40000000" by (simp_all add: f32_finite_def f32_mag_def inf_code_f32)
  have "fst (f32_add 0x3F800000 0x3F800000 softfloat_state_init) = 0x40000000" by code_simp
  then show ?thesis using f32_arith_no_nearer [of softfloat_state_init "0x3F800000" "0x3F800000" "0x40000000"] rm fin by simp
qed

text \<open>
  C21. In the modes to nearest, a finite result of an addition, subtraction, multiplication or
  division of finite binary64 numbers is at least as close to the exact real result as every
  other number of the format.
\<close>

theorem f64_arith_no_nearer:
  assumes "st_rmode st = RNE \<or> st_rmode st = RMM" "f64_finite a" "f64_finite b" "f64_finite c"
  shows "(f64_finite (fst (f64_add a b st)) \<longrightarrow>
            \<bar>f64_val (fst (f64_add a b st)) - (f64_val a + f64_val b)\<bar> \<le> \<bar>f64_val c - (f64_val a + f64_val b)\<bar>) \<and>
         (f64_finite (fst (f64_sub a b st)) \<longrightarrow>
            \<bar>f64_val (fst (f64_sub a b st)) - (f64_val a - f64_val b)\<bar> \<le> \<bar>f64_val c - (f64_val a - f64_val b)\<bar>) \<and>
         (f64_finite (fst (f64_mul a b st)) \<longrightarrow>
            \<bar>f64_val (fst (f64_mul a b st)) - f64_val a * f64_val b\<bar> \<le> \<bar>f64_val c - f64_val a * f64_val b\<bar>) \<and>
         (f64_val b \<noteq> 0 \<and> f64_finite (fst (f64_div a b st)) \<longrightarrow>
            \<bar>f64_val (fst (f64_div a b st)) - f64_val a / f64_val b\<bar> \<le> \<bar>f64_val c - f64_val a / f64_val b\<bar>)"
  using f64_arith.arith_nearest [OF assms] by blast

theorem f64_arith_no_nearer_witness:
  "st_rmode softfloat_state_init = RNE \<and> f64_finite 0x3FF0000000000000 \<and> f64_finite 0x4000000000000000 \<and>
   (f64_finite (fst (f64_add 0x3FF0000000000000 0x3FF0000000000000 softfloat_state_init)) \<and>
    \<bar>f64_val (fst (f64_add 0x3FF0000000000000 0x3FF0000000000000 softfloat_state_init)) - (f64_val 0x3FF0000000000000 + f64_val 0x3FF0000000000000)\<bar>
      \<le> \<bar>f64_val 0x4000000000000000 - (f64_val 0x3FF0000000000000 + f64_val 0x3FF0000000000000)\<bar>)"
proof -
  have rm: "st_rmode softfloat_state_init = RNE" by (simp add: softfloat_state_init_def sf_rmode_def)
  have fin: "f64_finite 0x3FF0000000000000" "f64_finite 0x4000000000000000" by (simp_all add: f64_finite_def f64_mag_def inf_code_f64)
  have "fst (f64_add 0x3FF0000000000000 0x3FF0000000000000 softfloat_state_init) = 0x4000000000000000" by code_simp
  then show ?thesis using f64_arith_no_nearer [of softfloat_state_init "0x3FF0000000000000" "0x3FF0000000000000" "0x4000000000000000"] rm fin by simp
qed





text \<open>
  C24. Every 32-bit integer, signed or unsigned, survives the conversion to double precision and
  back unchanged and without an exception, whatever the rounding mode.
\<close>

theorem int_double_int:
  "f64_to_i32 (i32_to_f64 a) mode exact st = (sint a, st) \<and>
   f64_to_ui32 (ui32_to_f64 b) mode exact st = (ucast b, st)"
  by (intro conjI i32_f64_roundtrip ui32_f64_roundtrip)




text \<open>
  C27. The fused multiply-adds of operands that are not all finite: a NaN factor is propagated
  first and the addend after it, zero times infinity and infinities of opposite signs are
  invalid (also when the addend is a NaN), and otherwise an infinite factor or addend is the
  result.
\<close>

theorem mulAdd_special_operands:
  assumes "\<not> (f32_finite a \<and> f32_finite b \<and> f32_finite c)" "\<not> (f64_finite d \<and> f64_finite e \<and> f64_finite f)"
  shows "f32_mulAdd a b c st =
           (if f32_isnan a \<or> f32_isnan b then (case f32_nan_result a b st of (z, st') \<Rightarrow> f32_nan_result z c st')
            else if f32_isinf a \<or> f32_isinf b then
              if f32_mag a = 0 \<or> f32_mag b = 0 \<or> f32_isinf c \<and> f32_sign c \<noteq> (f32_sign a \<noteq> f32_sign b)
              then f32_nan_result (ucast defaultNaNF32UI) c (softfloat_raiseFlags softfloat_flag_invalid st)
              else if f32_isnan c then f32_nan_result 0 c st
              else (f32_pack (f32_sign a \<noteq> f32_sign b) (inf_code f32_fmt), st)
            else if f32_isnan c then f32_nan_result 0 c st
            else (c, st)) \<and>
         f64_mulAdd d e f st =
           (if f64_isnan d \<or> f64_isnan e then (case f64_nan_result d e st of (z, st') \<Rightarrow> f64_nan_result z f st')
            else if f64_isinf d \<or> f64_isinf e then
              if f64_mag d = 0 \<or> f64_mag e = 0 \<or> f64_isinf f \<and> f64_sign f \<noteq> (f64_sign d \<noteq> f64_sign e)
              then f64_nan_result defaultNaNF64UI f (softfloat_raiseFlags softfloat_flag_invalid st)
              else if f64_isnan f then f64_nan_result 0 f st
              else (f64_pack (f64_sign d \<noteq> f64_sign e) (inf_code f64_fmt), st)
            else if f64_isnan f then f64_nan_result 0 f st
            else (f, st))"
  by (intro conjI f32_mulAdd_special [OF assms(1)] f64_mulAdd_special [OF assms(2)])

theorem mulAdd_special_operands_witness:
  "\<not> f32_finite 0x7F800000 \<and> \<not> f64_finite 0x7FF0000000000000 \<and>
   fst (f32_mulAdd 0x7F800000 0 0 softfloat_state_init) = 0xFFC00000 \<and>
   f64_mulAdd 0 0 0x7FF0000000000000 softfloat_state_init = (0x7FF0000000000000, softfloat_state_init)"
proof -
  have n: "\<not> f32_finite 0x7F800000" "\<not> f64_finite 0x7FF0000000000000"
    "f32_isinf 0x7F800000" "f64_isinf 0x7FF0000000000000" "f32_finite 0" "f64_finite 0" "\<not> f32_isnan 0" "\<not> f64_isnan 0" "\<not> f64_isinf 0"
    "\<not> f32_isnan 0x7F800000" "\<not> f64_isnan 0x7FF0000000000000" "f32_mag 0 = 0"
    by (simp_all add: f32_finite_def f32_isinf_def f32_isnan_def f32_mag_def inf_code_f32 f64_finite_def f64_isinf_def f64_isnan_def f64_mag_def inf_code_f64)
  then show ?thesis
    using mulAdd_special_operands [of "0x7F800000" 0 0 0 0 "0x7FF0000000000000" softfloat_state_init] f32_nan_result_default [of 0] by simp
qed

text \<open>
  C28. Asked for \<open>a * b - c\<close> (\<open>op = softfloat_mulAdd_subC\<close>), the
  shared routines behind the fused multiply-adds return \<open>c\<close> instead of its negation
  when the product is an exact zero and \<open>c\<close> is not: the path for zero products
  hands back the addend without its changed sign. The public operations only pass \<open>op =
  0\<close>.
\<close>

theorem mulAdd_subC_zero_product:
  assumes "f32_finite a" "f32_finite b" "f32_finite c" "f32_mag a = 0 \<or> f32_mag b = 0" "f32_mag c \<noteq> 0"
    and "f64_finite d" "f64_finite e" "f64_finite f" "f64_mag d = 0 \<or> f64_mag e = 0" "f64_mag f \<noteq> 0"
  shows "softfloat_mulAddF32 (ucast a) (ucast b) (ucast c) softfloat_mulAdd_subC st = (c, st) \<and>
         f32_val c \<noteq> f32_val a * f32_val b - f32_val c \<and>
         softfloat_mulAddF64 d e f softfloat_mulAdd_subC st = (f, st) \<and>
         f64_val f \<noteq> f64_val d * f64_val e - f64_val f"
proof -
  have "f32_val a * f32_val b = 0" "f32_val c \<noteq> 0" "f64_val d * f64_val e = 0" "f64_val f \<noteq> 0"
    using assms(4,5,9,10) by (auto simp: f32_val_eq_0 f64_val_eq_0)
  then show ?thesis
    using softfloat_mulAddF32_zeroProd [OF assms(1-5)] softfloat_mulAddF64_zeroProd [OF assms(6-10)] by auto
qed

theorem mulAdd_subC_zero_product_witness:
  "f32_finite 0 \<and> f32_mag 0 = 0 \<and> f32_finite 0x3F800000 \<and> f32_mag 0x3F800000 \<noteq> 0 \<and>
   f64_finite 0 \<and> f64_mag 0 = 0 \<and> f64_finite 0x3FF0000000000000 \<and> f64_mag 0x3FF0000000000000 \<noteq> 0 \<and>
   softfloat_mulAddF32 0 0 0x3F800000 softfloat_mulAdd_subC softfloat_state_init = (0x3F800000, softfloat_state_init)"
proof -
  have n: "f32_finite 0" "f32_mag 0 = 0" "f32_finite 0x3F800000" "f32_mag 0x3F800000 \<noteq> 0"
    "f64_finite 0" "f64_mag 0 = 0" "f64_finite 0x3FF0000000000000" "f64_mag 0x3FF0000000000000 \<noteq> 0"
    by (simp_all add: f32_finite_def f32_mag_def inf_code_f32 f64_finite_def f64_mag_def inf_code_f64)
  then show ?thesis
    using mulAdd_subC_zero_product [of 0 0 "0x3F800000" 0 0 "0x3FF0000000000000" softfloat_state_init] by simp
qed

text \<open>
  C29. A finite non-zero number divided by zero gives the infinity with the sign of the quotient
  and raises exactly the divide-by-zero exception.
\<close>

theorem division_by_zero:
  "(f32_finite a \<and> f32_mag a \<noteq> 0 \<and> f32_mag b = 0 \<longrightarrow>
      f32_div a b st = (f32_pack (f32_sign a \<noteq> f32_sign b) (inf_code f32_fmt), softfloat_raiseFlags softfloat_flag_infinite st)) \<and>
   (f64_finite c \<and> f64_mag c \<noteq> 0 \<and> f64_mag d = 0 \<longrightarrow>
      f64_div c d st = (f64_pack (f64_sign c \<noteq> f64_sign d) (inf_code f64_fmt), softfloat_raiseFlags softfloat_flag_infinite st))"
  by (simp add: f32_div_special f64_div_special f32_finite_def f32_isinf_def f32_isnan_def f64_finite_def f64_isinf_def f64_isnan_def
      inf_code_f32 inf_code_f64)

theorem division_by_zero_witness:
  "f64_finite 0xC000000000000000 \<and> f64_mag 0xC000000000000000 \<noteq> 0 \<and> f64_mag 0 = 0 \<and>
   f64_div 0xC000000000000000 0 softfloat_state_init = (0xFFF0000000000000, softfloat_raiseFlags softfloat_flag_infinite softfloat_state_init)"
proof -
  have h: "f64_finite 0xC000000000000000" "f64_mag 0xC000000000000000 \<noteq> 0" "f64_mag 0 = 0"
    and s: "f64_sign 0xC000000000000000" "\<not> f64_sign 0"
    by (simp_all add: f64_finite_def f64_mag_def inf_code_f64 f64_sign_def)
  have "f64_pack True (inf_code f64_fmt) = 0xFFF0000000000000" by (simp add: f64_pack_def inf_code_f64)
  then show ?thesis using division_by_zero [of 0 0 softfloat_state_init "0xC000000000000000" 0] h s by simp
qed

text \<open>
  C30. An arithmetic operation with a NaN operand delivers a quiet NaN, never a number, and
  raises invalid exactly when an operand is a signalling NaN.
\<close>

theorem nan_operands:
  "(f32_isnan a \<or> f32_isnan b \<longrightarrow>
     (\<forall>f \<in> {f32_add, f32_sub, f32_mul, f32_div}.
        f32_isnan (fst (f a b st)) \<and> \<not> f32_issnan (fst (f a b st)) \<and>
        snd (f a b st) = (if f32_issnan a \<or> f32_issnan b then softfloat_raiseFlags softfloat_flag_invalid st else st))) \<and>
   (f64_isnan c \<or> f64_isnan d \<longrightarrow>
     (\<forall>f \<in> {f64_add, f64_sub, f64_mul, f64_div}.
        f64_isnan (fst (f c d st)) \<and> \<not> f64_issnan (fst (f c d st)) \<and>
        snd (f c d st) = (if f64_issnan c \<or> f64_issnan d then softfloat_raiseFlags softfloat_flag_invalid st else st)))"
proof -
  have 32: "\<not> (f32_finite a \<and> f32_finite b)" "\<not> (f32_finite a \<and> f32_finite b \<and> f32_mag b \<noteq> 0)" if "f32_isnan a \<or> f32_isnan b"
    using that by (auto simp: f32_isnan_def f32_finite_def)
  have 64: "\<not> (f64_finite c \<and> f64_finite d)" "\<not> (f64_finite c \<and> f64_finite d \<and> f64_mag d \<noteq> 0)" if "f64_isnan c \<or> f64_isnan d"
    using that by (auto simp: f64_isnan_def f64_finite_def)
  show ?thesis
    using f32_nan_result_quiet [of a b st] f64_nan_result_quiet [of c d st] 32 64
    by (simp add: f32_add_special f32_sub_special f32_mul_special f32_div_special
        f64_add_special f64_sub_special f64_mul_special f64_div_special f32_nan_result_def f64_nan_result_def)
qed

theorem nan_operands_witness:
  "f64_isnan 0x7FF0000000000001 \<and> f64_issnan 0x7FF0000000000001 \<and> f64_isnan (fst (f64_add 0x7FF0000000000001 0 softfloat_state_init)) \<and>
   snd (f64_add 0x7FF0000000000001 0 softfloat_state_init) = softfloat_raiseFlags softfloat_flag_invalid softfloat_state_init"
proof -
  have n: "f64_isnan 0x7FF0000000000001" "f64_issnan 0x7FF0000000000001"
    by (simp_all add: f64_isnan_def f64_issnan_def f64_mag_def inf_code_f64)
  then show ?thesis using nan_operands [of 0 0 softfloat_state_init "0x7FF0000000000001" 0] by simp
qed

end
